(* ===== verification/Prelude.thy ===== *)
theory Prelude
  imports Main "HOL-Library.Word" "HOL-Library.Monad_Syntax"
begin

text \<open>
  Shared vocabulary of the development: the machine types of the C sources, the byte order of
  the wire, raw memory blocks, and the generic facts on lists, options and words that the
  component theories rely on.

  Conventions used by every theory:
  \<^item> a C function that can abort the process (a failed \<^verbatim>\<open>ASSERT\<close>, a \<^verbatim>\<open>M_FATAL\<close> message) or
    touch memory outside of an object returns an \<open>option\<close>, with \<open>None\<close> for that outcome; a
    theorem that such a function returns \<open>Some\<close> is a memory-safety statement;
  \<^item> an \<^verbatim>\<open>int\<close> of the sources is an \<open>int\<close>; the invariants of the components bound the values so
    that no operation leaves the 32-bit range (stated where it matters);
  \<^item> fixed-width unsigned types are words (\<open>u8\<close>, \<open>u16\<close>, \<open>u32\<close>, \<open>u64\<close>), whose arithmetic wraps;
  \<^item> the global clock \<^verbatim>\<open>now\<close> is an argument of the functions that read it.
\<close>

unbundle bit_operations_syntax

type_synonym u8 = "8 word"
type_synonym u16 = "16 word"
type_synonym u32 = "32 word"
type_synonym u64 = "64 word"
type_synonym time_t = int

text \<open>Collections: byte-order and block lemmas, and the branch rules of the components.\<close>

named_theorems wire_simps \<open>encoding and decoding of integers in network byte order\<close>
named_theorems block_simps \<open>reads and writes of memory blocks\<close>

subsection \<open>Option as the outcome of a C call\<close>

lemma bind_Some_iff [simp]:
  "Option.bind m f = Some y \<longleftrightarrow> (\<exists>x. m = Some x \<and> f x = Some y)"
  by (cases m) auto

definition assertion :: "bool \<Rightarrow> unit option" where
  "assertion b = (if b then Some () else None)"

lemma assertion_True [simp]: "assertion True = Some ()"
  and assertion_False [simp]: "assertion False = None"
  and assertion_Some_iff [simp]: "assertion b = Some u \<longleftrightarrow> b"
  by (auto simp: assertion_def)

subsection \<open>Network byte order\<close>

text \<open>
  The bytes of an unsigned integer as they stand on the wire: most significant byte first.
  This is what the pair of \<^verbatim>\<open>htons\<close>/\<^verbatim>\<open>htonl\<close>/\<^verbatim>\<open>htonll\<close> and a raw copy produces on every host
  (proved in theory \<open>Integer_Ops\<close>).
\<close>

fun nat_to_be :: "nat \<Rightarrow> nat \<Rightarrow> u8 list" where
  "nat_to_be 0 k = []"
| "nat_to_be (Suc n) k = nat_to_be n (k div 256) @ [of_nat k]"

definition be_to_nat :: "u8 list \<Rightarrow> nat" where
  "be_to_nat bs = foldl (\<lambda>acc b. acc * 256 + unat b) 0 bs"

lemma length_nat_to_be [simp]: "length (nat_to_be n k) = n"
  by (induction n arbitrary: k) auto

lemma be_to_nat_Nil [simp]: "be_to_nat [] = 0"
  by (simp add: be_to_nat_def)

lemma be_to_nat_snoc [simp]: "be_to_nat (bs @ [b]) = be_to_nat bs * 256 + unat b"
  by (simp add: be_to_nat_def)

lemma unat_u8_less [simp]: "unat (b :: u8) < 256"
  and unat_u16_less [simp]: "unat (v :: u16) < 65536"
  and unat_u32_less [simp]: "unat (w :: u32) < 4294967296"
  and unat_u64_less [simp]: "unat (x :: u64) < 18446744073709551616"
  using unsigned_less [of b, where ?'a = nat] unsigned_less [of v, where ?'a = nat]
    unsigned_less [of w, where ?'a = nat] unsigned_less [of x, where ?'a = nat]
  by simp_all

lemma unat_2_power:
  assumes "n < LENGTH('a::len)"
  shows "unat ((2 :: 'a word) ^ n) = 2 ^ n"
proof -
  have "(2 :: nat) ^ n < 2 ^ LENGTH('a)" using assms by simp
  then have "unat (of_nat (2 ^ n) :: 'a word) = 2 ^ n" by (simp only: unat_of_nat mod_less)
  then show ?thesis by simp
qed

lemma unat_Suc_less: "w < (v :: 'a::len word) \<Longrightarrow> unat (w + 1) = Suc (unat w)"
proof -
  assume "w < v"
  then have "Suc (unat w) \<le> unat v" by (simp add: word_less_nat_alt)
  also have "unat v < 2 ^ LENGTH('a)" by (rule unsigned_less)
  finally show ?thesis by (simp add: unat_word_ariths)
qed

lemma unat_diff_le: "w \<le> (v :: 'a::len word) \<Longrightarrow> unat (v - w) = unat v - unat w"
  by (simp add: unat_sub)

lemma sint_of_nat_small:
  assumes "n < 2 ^ (LENGTH('a::len) - 1)"
  shows "sint (of_nat n :: 'a word) = int n"
proof -
  have "int n < 2 ^ (LENGTH('a) - 1)" using assms by (metis of_nat_less_iff of_nat_numeral of_nat_power)
  then have "signed_take_bit (LENGTH('a) - Suc 0) (int n) = int n"
    by (intro signed_take_bit_int_eq_self) (auto intro: order_trans [of _ 0])
  then show ?thesis by (simp add: signed_of_nat)
qed

lemma unat_of_nat_u8 [simp]: "unat (of_nat k :: u8) = k mod 256"
  by (simp add: unat_of_nat)

lemma be_to_nat_nat_to_be [wire_simps]: "be_to_nat (nat_to_be n k) = k mod 256 ^ n"
proof (induction n arbitrary: k)
  case 0
  then show ?case by simp
next
  case (Suc n)
  have "be_to_nat (nat_to_be (Suc n) k) = (k div 256) mod 256 ^ n * 256 + k mod 256"
    by (simp add: Suc)
  also have "\<dots> = k mod 256 ^ Suc n"
    by (simp add: mod_mult2_eq mult.commute)
  finally show ?case .
qed

lemma be_to_nat_less: "be_to_nat bs < 256 ^ length bs"
proof (induction bs rule: rev_induct)
  case Nil
  then show ?case by simp
next
  case (snoc b bs)
  have "unat b < 256" by simp
  with snoc have "be_to_nat bs * 256 + unat b < 256 ^ length bs * 256" by linarith
  then show ?case by (simp add: mult.commute)
qed

lemma nat_to_be_be_to_nat [wire_simps]: "nat_to_be (length bs) (be_to_nat bs) = bs"
proof (induction bs rule: rev_induct)
  case Nil
  then show ?case by simp
next
  case (snoc b bs)
  have b: "unat b < 256" by simp
  have "of_nat (be_to_nat bs * 256 + unat b) = b"
  proof (rule word_unat_eq_iff [THEN iffD2])
    show "unat (of_nat (be_to_nat bs * 256 + unat b) :: u8) = unat b"
      using b by (simp add: unat_of_nat_u8 del: of_nat_add of_nat_mult)
  qed
  with b snoc show ?case by simp
qed

lemma nat_to_be_inject:
  assumes "j < 256 ^ n" and "k < 256 ^ n" and "nat_to_be n j = nat_to_be n k"
  shows "j = k"
proof -
  have "j = be_to_nat (nat_to_be n j)" using assms(1) by (simp add: be_to_nat_nat_to_be)
  also have "\<dots> = k" using assms(2,3) by (simp add: be_to_nat_nat_to_be)
  finally show ?thesis .
qed

lemma nat_to_be_numeral [wire_simps]:
  "nat_to_be (numeral v) k = nat_to_be (pred_numeral v) (k div 256) @ [of_nat k]"
  by (simp add: numeral_eq_Suc [of v])

lemma nat_to_be_append:
  "nat_to_be (m + n) k = nat_to_be m (k div 256 ^ n) @ nat_to_be n k"
  by (induction n arbitrary: k) (simp_all add: div_mult2_eq)

lemma nat_to_be_mod [simp]: "nat_to_be n (k mod 256 ^ n) = nat_to_be n k"
proof -
  have "nat_to_be n (k mod 256 ^ n) = nat_to_be n (be_to_nat (nat_to_be n k))"
    by (simp add: be_to_nat_nat_to_be)
  also have "\<dots> = nat_to_be n k"
    using nat_to_be_be_to_nat [of "nat_to_be n k"] by simp
  finally show ?thesis .
qed

definition u16_be :: "u16 \<Rightarrow> u8 list" where
  "u16_be w = nat_to_be 2 (unat w)"

definition u32_be :: "u32 \<Rightarrow> u8 list" where
  "u32_be w = nat_to_be 4 (unat w)"

definition u64_be :: "u64 \<Rightarrow> u8 list" where
  "u64_be w = nat_to_be 8 (unat w)"

definition be_u16 :: "u8 list \<Rightarrow> u16" where
  "be_u16 bs = of_nat (be_to_nat bs)"

definition be_u32 :: "u8 list \<Rightarrow> u32" where
  "be_u32 bs = of_nat (be_to_nat bs)"

definition be_u64 :: "u8 list \<Rightarrow> u64" where
  "be_u64 bs = of_nat (be_to_nat bs)"

lemma length_u16_be [simp]: "length (u16_be v) = 2"
  and length_u32_be [simp]: "length (u32_be w) = 4"
  and length_u64_be [simp]: "length (u64_be x) = 8"
  by (simp_all add: u16_be_def u32_be_def u64_be_def)

lemma be_u16_u16_be [simp, wire_simps]: "be_u16 (u16_be w) = w"
  using unat_u16_less [of w]
  by (simp add: be_u16_def u16_be_def be_to_nat_nat_to_be)

lemma be_u32_u32_be [simp, wire_simps]: "be_u32 (u32_be w) = w"
  using unat_u32_less [of w]
  by (simp add: be_u32_def u32_be_def be_to_nat_nat_to_be)

lemma be_u64_u64_be [simp, wire_simps]: "be_u64 (u64_be w) = w"
  using unat_u64_less [of w]
  by (simp add: be_u64_def u64_be_def be_to_nat_nat_to_be)

lemma u32_be_be_u32 [wire_simps]: "length bs = 4 \<Longrightarrow> u32_be (be_u32 bs) = bs"
  using be_to_nat_less [of bs] nat_to_be_be_to_nat [of bs]
  by (simp add: be_u32_def u32_be_def unat_of_nat)

lemma u16_be_be_u16 [wire_simps]: "length bs = 2 \<Longrightarrow> u16_be (be_u16 bs) = bs"
  using be_to_nat_less [of bs] nat_to_be_be_to_nat [of bs]
  by (simp add: be_u16_def u16_be_def unat_of_nat)

lemma u16_be_not_Nil [simp]: "u16_be w \<noteq> []"
  using length_u16_be [of w] by (metis list.size(3) zero_neq_numeral)

lemma u16_be_inject [simp]: "u16_be v = u16_be w \<longleftrightarrow> v = w"
  by (metis be_u16_u16_be)

lemma u32_be_inject [simp]: "u32_be v = u32_be w \<longleftrightarrow> v = w"
  by (metis be_u32_u32_be)

lemma u64_be_inject [simp]: "u64_be v = u64_be w \<longleftrightarrow> v = w"
  by (metis be_u64_u64_be)

lemma u64_of_halves:
  "unat (push_bit 32 (ucast (h :: u32) :: u64) OR ucast (l :: u32)) = unat h * 2 ^ 32 + unat l"
proof -
  let ?a = "push_bit 32 (ucast h :: u64)" and ?b = "ucast l :: u64"
  have "?a AND ?b = 0"
    by (rule bit_eqI) (auto simp: bit_simps dest: bit_imp_le_length)
  then have "?a OR ?b = ?a + ?b"
    by (simp add: disjunctive_add_eq_or)
  moreover have "unat ?b = unat l"
    by (simp add: unsigned_ucast_eq take_bit_nat_eq_self unat_u32_less less_trans [OF unat_u32_less])
  moreover have "unat ?a = unat h * 2 ^ 32"
    by (simp add: push_bit_eq_mult unat_word_ariths unsigned_ucast_eq take_bit_nat_eq_self
      less_trans [OF unat_u32_less])
  moreover have "unat h * 4294967296 + unat l < 18446744073709551616"
    using unat_u32_less [of h] unat_u32_less [of l] by linarith
  ultimately show ?thesis
    by (simp add: unat_word_ariths)
qed


lemma u64_halves:
  "unat (ucast (drop_bit 32 x) :: u32) = unat (x :: u64) div 2 ^ 32"
  "unat (ucast (x AND 0xFFFFFFFF) :: u32) = unat x mod 2 ^ 32"
proof -
  show "unat (ucast (drop_bit 32 x) :: u32) = unat x div 2 ^ 32"
    using div_less_iff_less_mult [of 4294967296 "unat x" 4294967296] unat_u64_less [of x]
    by (simp add: unsigned_ucast_eq unat_drop_bit_eq drop_bit_eq_div take_bit_eq_mod unat_div)
  have "x AND 0xFFFFFFFF = take_bit 32 x"
    by (simp add: take_bit_eq_mask mask_eq_exp_minus_1)
  then show "unat (ucast (x AND 0xFFFFFFFF) :: u32) = unat x mod 2 ^ 32"
    by (simp add: unsigned_ucast_eq unsigned_take_bit_eq take_bit_eq_mod unat_mod)
qed

subsection \<open>Memory blocks\<close>

text \<open>
  A pointer to an allocated block is \<open>Some\<close> of the bytes of the block, \<^verbatim>\<open>NULL\<close> is \<open>None\<close>.
  A copy of \<open>n\<close> bytes from or to offset \<open>i\<close> faults (\<open>None\<close>) unless the bytes lie inside the
  block; a copy of no bytes never faults.
\<close>

type_synonym block = "u8 list option"

definition overwrite :: "'a list \<Rightarrow> nat \<Rightarrow> 'a list \<Rightarrow> 'a list" where
  "overwrite xs i ys = take i xs @ ys @ drop (i + length ys) xs"

definition mem_read :: "block \<Rightarrow> int \<Rightarrow> int \<Rightarrow> u8 list option" where
  "mem_read blk i n =
     (if n = 0 then Some []
      else case blk of
        None \<Rightarrow> None
      | Some xs \<Rightarrow> if 0 \<le> i \<and> 0 \<le> n \<and> i + n \<le> int (length xs)
          then Some (take (nat n) (drop (nat i) xs)) else None)"

definition mem_write :: "block \<Rightarrow> int \<Rightarrow> u8 list \<Rightarrow> block option" where
  "mem_write blk i ys =
     (if ys = [] then Some blk
      else case blk of
        None \<Rightarrow> None
      | Some xs \<Rightarrow> if 0 \<le> i \<and> i + int (length ys) \<le> int (length xs)
          then Some (Some (overwrite xs (nat i) ys)) else None)"

lemma length_overwrite [simp]: "i + length ys \<le> length xs \<Longrightarrow> length (overwrite xs i ys) = length xs"
  by (simp add: overwrite_def)

lemma overwrite_Nil [simp]: "overwrite xs i [] = xs"
  by (simp add: overwrite_def)

lemma take_overwrite [block_simps]:
  "i + length ys \<le> length xs \<Longrightarrow> take (i + length ys) (overwrite xs i ys) = take i xs @ ys"
  by (simp add: overwrite_def)

lemma take_overwrite_before [block_simps]: "n \<le> i \<Longrightarrow> i \<le> length xs \<Longrightarrow> take n (overwrite xs i ys) = take n xs"
  by (simp add: overwrite_def)

lemma drop_overwrite [block_simps]:
  "i \<le> length xs \<Longrightarrow> drop (i + length ys) (overwrite xs i ys) = drop (i + length ys) xs"
  by (simp add: overwrite_def)

lemma drop_overwrite_at [block_simps]:
  "i \<le> length xs \<Longrightarrow> drop i (overwrite xs i ys) = ys @ drop (i + length ys) xs"
  by (simp add: overwrite_def)

lemma drop_overwrite_before:
  "j \<le> i \<Longrightarrow> i \<le> length xs \<Longrightarrow>
    drop j (overwrite xs i ys) = take (i - j) (drop j xs) @ ys @ drop (i + length ys) xs"
  by (simp add: overwrite_def drop_take)

lemma nth_overwrite:
  assumes "i + length ys \<le> length xs" and "j < length xs"
  shows "overwrite xs i ys ! j = (if i \<le> j \<and> j < i + length ys then ys ! (j - i) else xs ! j)"
  using assms by (auto simp: overwrite_def nth_append min_def)

lemma mem_write_Some [block_simps]:
  "0 \<le> i \<Longrightarrow> i + int (length ys) \<le> int (length xs) \<Longrightarrow>
    mem_write (Some xs) i ys = Some (Some (overwrite xs (nat i) ys))"
  by (simp add: mem_write_def)

lemma mem_read_Some [block_simps]:
  "0 \<le> i \<Longrightarrow> 0 \<le> n \<Longrightarrow> i + n \<le> int (length xs) \<Longrightarrow>
    mem_read (Some xs) i n = Some (take (nat n) (drop (nat i) xs))"
  by (simp add: mem_read_def)

lemma mem_read_length: "mem_read blk i n = Some ys \<Longrightarrow> 0 \<le> n \<and> int (length ys) = n"
  by (auto simp: mem_read_def split: if_splits option.splits)

subsection \<open>Lists\<close>

lemma nth_list_update_if:
  "i < length xs \<Longrightarrow> xs[i := v] ! j = (if i = j then v else xs ! j)"
  by simp

lemma take_Suc_list_update: "n < length xs \<Longrightarrow> take (Suc n) (xs[n := v]) = take n xs @ [v]"
  by (simp add: take_Suc_conv_app_nth)

text \<open>The digits of a number.\<close>

lemma horner: "0 \<le> a \<Longrightarrow> a < b \<Longrightarrow> (a + b * c) mod b = a \<and> (a + b * c) div b = c" for a b c :: int
  by simp

subsection \<open>Words read back\<close>

lemma be_u32_take_append [simp]: "be_u32 (take 4 (u32_be w @ ys)) = w"
  and be_u32_take_append_int [simp]: "take 4 (u32_be w) = u32_be w"
  by simp_all

lemma ucast_u64_u32: "(x :: u64) \<le> 0xFFFFFFFF \<Longrightarrow> ucast (ucast x :: u32) = x"
proof -
  assume "x \<le> 0xFFFFFFFF"
  then have "unat x < 4294967296" by (simp add: word_le_nat_alt)
  then show ?thesis by (simp add: word_unat_eq_iff unsigned_ucast_eq unsigned_take_bit_eq take_bit_nat_eq_self)
qed

end
