(* ===== verification/Integer_Ops.thy ===== *)
theory Integer_Ops
  imports Prelude
begin

text \<open>
  The integer helpers of \<^verbatim>\<open>integer.h\<close>: minimum, maximum and clamping, the index arithmetic of
  circular buffers, the next power of two, and the 64-bit byte-order macros.
\<close>

subsection \<open>Minimum, maximum, clamping\<close>

definition INT_MAX :: int where
  "INT_MAX = 2147483647"

definition clamp_size_to_int :: "nat \<Rightarrow> int option" where
  "clamp_size_to_int sz = do { assertion (int sz \<le> INT_MAX); Some (int sz) }"

definition max_uint :: "u32 \<Rightarrow> u32 \<Rightarrow> u32" where
  "max_uint x y = (if x > y then x else y)"

definition min_uint :: "u32 \<Rightarrow> u32 \<Rightarrow> u32" where
  "min_uint x y = (if x < y then x else y)"

definition min_size :: "u64 \<Rightarrow> u64 \<Rightarrow> u64" where
  "min_size x y = (if x < y then x else y)"

definition max_int :: "int \<Rightarrow> int \<Rightarrow> int" where
  "max_int x y = (if x > y then x else y)"

definition min_int :: "int \<Rightarrow> int \<Rightarrow> int" where
  "min_int x y = (if x < y then x else y)"

definition constrain_int :: "int \<Rightarrow> int \<Rightarrow> int \<Rightarrow> int" where
  "constrain_int x mn mx =
     (if mn > mx then mn else if x < mn then mn else if x > mx then mx else x)"

definition constrain_uint :: "u32 \<Rightarrow> u32 \<Rightarrow> u32 \<Rightarrow> u32" where
  "constrain_uint x mn mx =
     (if mn > mx then mn else if x < mn then mn else if x > mx then mx else x)"

definition round_down_size :: "u64 \<Rightarrow> u64 \<Rightarrow> u64 option" where
  "round_down_size num multiple = (if multiple = 0 then None else Some ((num div multiple) * multiple))"

lemma min_int_min [simp]: "min_int x y = min x y"
  by (simp add: min_int_def min_def)

lemma max_int_max [simp]: "max_int x y = max x y"
  by (simp add: max_int_def max_def)

lemma constrain_int_bounds:
  "mn \<le> mx \<Longrightarrow> mn \<le> constrain_int x mn mx \<and> constrain_int x mn mx \<le> mx"
  by (simp add: constrain_int_def)

subsection \<open>Arithmetic on a circle\<close>

definition modulo_subtract :: "int \<Rightarrow> int \<Rightarrow> int \<Rightarrow> int option" where
  "modulo_subtract x y m =
     (let d1 = x - y;
          d2 = (if x > y then - m else m) + d1
      in do {
        assertion (0 \<le> x \<and> x < m \<and> 0 \<le> y \<and> y < m);
        Some (if \<bar>d1\<bar> > \<bar>d2\<bar> then d2 else d1)
      })"

definition modulo_add :: "int \<Rightarrow> int \<Rightarrow> int \<Rightarrow> int option" where
  "modulo_add x y m =
     (let sum = x + y
      in do {
        assertion (0 \<le> x \<and> x < m \<and> - m \<le> y \<and> y \<le> m);
        let sum1 = (if sum \<ge> m then sum - m else sum);
        Some (if sum1 < 0 then sum1 + m else sum1)
      })"

definition index_verify :: "int \<Rightarrow> int \<Rightarrow> int option" where
  "index_verify index sz = (if index < 0 \<or> index \<ge> sz then None else Some index)"

lemma modulo_add_eq:
  assumes "0 \<le> x" and "x < m" and "- m \<le> y" and "y \<le> m"
  shows "modulo_add x y m = Some ((x + y) mod m)"
proof -
  consider "x + y < 0" | "0 \<le> x + y" "x + y < m" | "m \<le> x + y" by linarith
  then show ?thesis
  proof cases
    case 1
    then have "(x + y) mod m = x + y + m"
      using assms mod_pos_pos_trivial [of "x + y + m" m] by simp
    with 1 assms show ?thesis by (simp add: modulo_add_def Let_def)
  next
    case 2
    then have "(x + y) mod m = x + y" by simp
    with 2 assms show ?thesis by (simp add: modulo_add_def Let_def)
  next
    case 3
    then have "(x + y) mod m = x + y - m"
      using assms mod_pos_pos_trivial [of "x + y - m" m] mod_add_self2 [of "x + y - m" m]
      by (cases "x + y - m < m") auto
    with 3 assms show ?thesis by (simp add: modulo_add_def Let_def)
  qed
qed

lemma modulo_add_None_iff:
  "modulo_add x y m = None \<longleftrightarrow> \<not> (0 \<le> x \<and> x < m \<and> - m \<le> y \<and> y \<le> m)"
  by (auto simp: modulo_add_def Let_def assertion_def)

lemma modulo_subtract_spec:
  assumes "0 \<le> x" and "x < m" and "0 \<le> y" and "y < m"
  shows "\<exists>d. modulo_subtract x y m = Some d \<and> (y + d) mod m = x \<and> 2 * \<bar>d\<bar> \<le> m"
proof -
  let ?d1 = "x - y"
  let ?d2 = "(if x > y then - m else m) + (x - y)"
  have r: "modulo_subtract x y m = Some (if \<bar>?d1\<bar> > \<bar>?d2\<bar> then ?d2 else ?d1)"
    using assms by (simp add: modulo_subtract_def Let_def)
  have "(y + ?d1) mod m = x" using assms by simp
  moreover have "(y + ?d2) mod m = x"
    using assms mod_add_self2 [of x m] minus_mod_self2 [of x m] by simp
  moreover have "2 * \<bar>if \<bar>?d1\<bar> > \<bar>?d2\<bar> then ?d2 else ?d1\<bar> \<le> m"
    using assms by (auto simp: abs_if)
  ultimately show ?thesis using r by auto
qed

subsection \<open>The next power of two\<close>

text \<open>
  \<^verbatim>\<open>size_t\<close> has 64 bits; the doubling wraps to 0 when no power of two is large enough, and the
  assertion in the loop then aborts. The loop runs at most 64 times, which bounds the fuel.
\<close>

fun adjust_power_of_2_loop :: "nat \<Rightarrow> u64 \<Rightarrow> u64 \<Rightarrow> u64 option" where
  "adjust_power_of_2_loop 0 u ret = None"
| "adjust_power_of_2_loop (Suc fuel) u ret =
     (if ret < u
      then let ret' = push_bit 1 ret in do { assertion (ret' > 0); adjust_power_of_2_loop fuel u ret' }
      else Some ret)"

definition adjust_power_of_2 :: "u64 \<Rightarrow> u64 option" where
  "adjust_power_of_2 u = adjust_power_of_2_loop 65 u 1"

lemma unat_push_bit_1_u64:
  "k < 63 \<Longrightarrow> unat (push_bit 1 ((2::u64) ^ k)) = 2 ^ Suc k"
proof -
  assume "k < 63"
  then have "unat ((2::u64) ^ Suc k) = 2 ^ Suc k" by (intro unat_2_power) simp
  moreover have "push_bit 1 ((2::u64) ^ k) = 2 ^ Suc k"
    by (simp add: push_bit_eq_mult)
  ultimately show ?thesis by (simp only:)
qed

lemma adjust_power_of_2_loop_ok:
  assumes "k \<le> 63" and "unat ret = 2 ^ k" and "unat u \<le> 2 ^ 63" and "63 - k < fuel"
    and "k = 0 \<or> 2 ^ (k - 1) < unat u"
  shows "\<exists>j r. adjust_power_of_2_loop fuel u ret = Some r \<and> unat r = 2 ^ j \<and> unat u \<le> 2 ^ j
    \<and> (j = 0 \<or> 2 ^ (j - 1) < unat u)"
  using assms
proof (induction fuel arbitrary: k ret)
  case 0
  then show ?case by simp
next
  case (Suc fuel)
  show ?case
  proof (cases "ret < u")
    case False
    then have "unat u \<le> 2 ^ k" using Suc.prems by (simp add: word_less_nat_alt)
    with False Suc.prems show ?thesis by auto
  next
    case True
    then have lt: "2 ^ k < unat u" using Suc.prems by (simp add: word_less_nat_alt)
    then have "(2::nat) ^ k < 2 ^ 63" using Suc.prems by (meson less_le_trans)
    then have k: "k < 63" using power_less_imp_less_exp [of "2::nat" k 63] by linarith
    have "unat ((2::u64) ^ k) = 2 ^ k" using k by (intro unat_2_power) simp
    then have "ret = 2 ^ k" using Suc.prems(2) by (simp add: word_unat_eq_iff)
    then have u: "unat (push_bit 1 ret) = 2 ^ Suc k" using k by (simp only: unat_push_bit_1_u64)
    then have pos: "push_bit 1 ret > 0" by (simp add: word_less_nat_alt)
    have "\<exists>j r. adjust_power_of_2_loop fuel u (push_bit 1 ret) = Some r \<and> unat r = 2 ^ j
      \<and> unat u \<le> 2 ^ j \<and> (j = 0 \<or> 2 ^ (j - 1) < unat u)"
      using k u lt Suc.prems by (intro Suc.IH [of "Suc k"]) auto
    with True pos show ?thesis by (simp add: Let_def)
  qed
qed

text \<open>
  For every argument up to \<open>2 ^ 63\<close> the function returns the least power of two that is not
  below the argument.
\<close>

lemma adjust_power_of_2_least:
  assumes "unat u \<le> 2 ^ 63"
  shows "\<exists>j r. adjust_power_of_2 u = Some r \<and> unat r = 2 ^ j \<and> unat u \<le> 2 ^ j
    \<and> (j = 0 \<or> 2 ^ (j - 1) < unat u)"
  unfolding adjust_power_of_2_def
  using assms by (intro adjust_power_of_2_loop_ok [of 0]) auto

text \<open>
  Its callers store the result in 32 bits; up to \<open>2 ^ 31\<close> nothing is lost.
\<close>

lemma adjust_power_of_2_u32:
  assumes "unat (sz :: u32) \<le> 2 ^ 31"
  shows "\<exists>k r. adjust_power_of_2 (ucast sz) = Some r \<and> unat (ucast r :: u32) = 2 ^ k \<and> k < 32 \<and> unat sz \<le> 2 ^ k"
proof -
  have sz: "unat (ucast sz :: u64) = unat sz"
    by (simp add: unsigned_ucast_eq take_bit_nat_eq_self less_trans [OF unat_u32_less])
  obtain k r where r: "adjust_power_of_2 (ucast sz) = Some r" "unat r = 2 ^ k" "unat sz \<le> 2 ^ k" "k = 0 \<or> 2 ^ (k - 1) < unat sz"
    using adjust_power_of_2_least [of "ucast sz"] sz unat_u32_less [of sz] by auto
  have k: "k < 32"
  proof (rule ccontr)
    assume *: "\<not> k < 32"
    then have "(2 :: nat) ^ 31 \<le> 2 ^ (k - 1)" by (intro power_increasing) auto
    moreover have "2 ^ (k - 1) < unat sz" using r(4) * by simp
    ultimately show False using assms by linarith
  qed
  have "(2 :: nat) ^ k < 2 ^ 32" using k by (intro power_strict_increasing) auto
  then have "unat (ucast r :: u32) = 2 ^ k" using r(2) by (simp add: unsigned_ucast_eq take_bit_nat_eq_self k)
  then show ?thesis using r k by blast
qed

subsection \<open>Byte order\<close>

text \<open>
  The value a host stores for a word: bytes most significant first on a big-endian host,
  reversed otherwise. \<^verbatim>\<open>htonl\<close> is the identity on a big-endian host and swaps the bytes on a
  little-endian one; \<^verbatim>\<open>htonll\<close> is built from it by the macro of \<^verbatim>\<open>integer.h\<close>.
\<close>

definition stored :: "bool \<Rightarrow> nat \<Rightarrow> nat \<Rightarrow> u8 list" where
  "stored big n k = (if big then nat_to_be n k else rev (nat_to_be n k))"

definition htonl :: "bool \<Rightarrow> u32 \<Rightarrow> u32" where
  "htonl big x = (if big then x else be_u32 (rev (u32_be x)))"

definition htonll :: "bool \<Rightarrow> u64 \<Rightarrow> u64" where
  "htonll big x =
     (if 1 = htonl big 1 then x
      else push_bit 32 (ucast (htonl big (ucast (x AND 0xFFFFFFFF))) :: u64)
        OR ucast (htonl big (ucast (drop_bit 32 x))))"

definition ntohll :: "bool \<Rightarrow> u64 \<Rightarrow> u64" where
  "ntohll big x =
     (if 1 = htonl big 1 then x
      else push_bit 32 (ucast (htonl big (ucast (x AND 0xFFFFFFFF))) :: u64)
        OR ucast (htonl big (ucast (drop_bit 32 x))))"

lemma stored_htonll:
  "stored big 8 (unat (htonll big x)) = u64_be x"
proof (cases big)
  case True
  then show ?thesis by (simp add: stored_def htonll_def htonl_def u64_be_def)
next
  case False
  let ?lo = "ucast (x AND 0xFFFFFFFF) :: u32" and ?hi = "ucast (drop_bit 32 x) :: u32"
  let ?v = "unat (htonl False ?lo) * 2 ^ 32 + unat (htonl False ?hi)"
  have one: "1 \<noteq> htonl False 1"
    by (simp add: htonl_def be_u32_def be_to_nat_def u32_be_def nat_to_be_numeral)
  have h: "unat (htonll False x) = ?v"
    using one by (simp only: htonll_def if_False u64_of_halves)
  have "nat_to_be (4 + 4) ?v = nat_to_be 4 (?v div 256 ^ 4) @ nat_to_be 4 (?v mod 256 ^ 4)"
    by (simp only: nat_to_be_append nat_to_be_mod)
  also have "\<dots> = u32_be (htonl False ?lo) @ u32_be (htonl False ?hi)"
    using unat_u32_less [of "htonl False ?hi"] by (simp add: u32_be_def)
  also have "\<dots> = rev (u32_be ?lo) @ rev (u32_be ?hi)"
    by (simp add: htonl_def u32_be_be_u32)
  finally have "rev (nat_to_be 8 ?v) = u32_be ?hi @ u32_be ?lo" by simp
  moreover have "u64_be x = u32_be ?hi @ u32_be ?lo"
    using nat_to_be_append [of 4 4 "unat x"] nat_to_be_mod [of 4 "unat x"]
    by (simp only: u64_be_def u32_be_def u64_halves) simp
  ultimately show ?thesis using False by (simp add: stored_def h)
qed

lemma htonll_eq_ntohll: "ntohll big x = htonll big x"
  by (simp only: htonll_def ntohll_def)

lemma htonll_involutive: "htonll big (htonll big x) = x"
proof (cases big)
  case True
  then show ?thesis by (simp add: htonll_def htonl_def)
next
  case False
  then have swap: "u64_be (htonll big y) = rev (u64_be y)" for y
    using stored_htonll [of big y] by (simp add: stored_def u64_be_def rev_swap)
  have "u64_be (htonll big (htonll big x)) = u64_be x" by (simp add: swap)
  then show ?thesis by simp
qed

end
