(* ===== verification/Buffer.thy ===== *)
theory Buffer
  imports Integer_Ops
begin

text \<open>
  The byte buffer of \<^verbatim>\<open>buffer.h\<close> and \<^verbatim>\<open>buffer.c\<close>: a block of memory with a window
  \<open>[offset, offset + len)\<close> of content that can grow at both ends. Every packet of the program
  travels in such a buffer; the other theories build on the operations of this one.

  A pointer into the buffer is the index of the byte in the block; \<^verbatim>\<open>NULL\<close> is \<open>None\<close>. The content
  of the block is part of the record, and a copy that leaves the block makes the call fault, so
  the theorems that an operation returns \<open>Some\<close> are memory safety. The invariant \<open>buf_wf\<close> is
  kept by every operation; under it the operations append to, prepend to and consume the byte
  list \<open>buf_content\<close>.
\<close>

subsection \<open>The structure\<close>

record buffer =
  b_capacity :: int
  b_offset :: int
  b_len :: int
  b_data :: block

definition BUF_SIZE_MAX :: int where
  "BUF_SIZE_MAX = 1000000"

definition clear_buf :: buffer where
  "clear_buf = \<lparr>b_capacity = 0, b_offset = 0, b_len = 0, b_data = None\<rparr>"

definition buf_defined :: "buffer \<Rightarrow> bool" where
  "buf_defined buf \<longleftrightarrow> b_data buf \<noteq> None"

definition buf_valid :: "buffer \<Rightarrow> bool" where
  "buf_valid buf \<longleftrightarrow> b_data buf \<noteq> None \<and> b_len buf \<ge> 0"

definition buf_bptr :: "buffer \<Rightarrow> int option" where
  "buf_bptr buf = (if buf_valid buf then Some (b_offset buf) else None)"

definition buf_len :: "buffer \<Rightarrow> int" where
  "buf_len buf = (if buf_valid buf then b_len buf else 0)"

definition buf_bend :: "buffer \<Rightarrow> int option" where
  "buf_bend buf = map_option (\<lambda>p. p + buf_len buf) (buf_bptr buf)"

definition buf_blast :: "buffer \<Rightarrow> int option" where
  "buf_blast buf = (if buf_len buf > 0 then map_option (\<lambda>p. p + buf_len buf - 1) (buf_bptr buf) else None)"

text \<open>
  The size arguments are \<^verbatim>\<open>size_t\<close>; an \<^verbatim>\<open>int\<close> argument that is negative becomes a value above
  \<open>2 ^ 63\<close>, which is not below the limit.
\<close>

definition buf_size_valid :: "int \<Rightarrow> bool" where
  "buf_size_valid sz \<longleftrightarrow> 0 \<le> sz \<and> sz < BUF_SIZE_MAX"

definition buf_size_valid_signed :: "int \<Rightarrow> bool" where
  "buf_size_valid_signed sz \<longleftrightarrow> sz \<ge> - BUF_SIZE_MAX \<and> sz < BUF_SIZE_MAX"

definition buf_reset :: "buffer \<Rightarrow> buffer" where
  "buf_reset buf = buf\<lparr>b_capacity := 0, b_offset := 0, b_len := 0, b_data := None\<rparr>"

definition buf_reset_len :: "buffer \<Rightarrow> buffer" where
  "buf_reset_len buf = buf\<lparr>b_len := 0, b_offset := 0\<rparr>"

definition buf_init :: "buffer \<Rightarrow> int \<Rightarrow> bool \<times> buffer" where
  "buf_init buf off =
     (if off < 0 \<or> off > b_capacity buf \<or> b_data buf = None then (False, buf)
      else (True, buf\<lparr>b_len := 0, b_offset := off\<rparr>))"

text \<open>
  \<^verbatim>\<open>buf_set_write\<close> and \<^verbatim>\<open>buf_set_read\<close> attach a block of \<open>size\<close> bytes; \<^verbatim>\<open>buf_size_error\<close> is fatal.
\<close>

definition buf_set_write :: "block \<Rightarrow> int \<Rightarrow> buffer option" where
  "buf_set_write dat sz = do {
     assertion (buf_size_valid sz);
     blk \<leftarrow> (if sz > 0 \<and> dat \<noteq> None then mem_write dat 0 [0] else Some dat);
     Some \<lparr>b_capacity = sz, b_offset = 0, b_len = 0, b_data = blk\<rparr> }"

definition buf_set_read :: "block \<Rightarrow> int \<Rightarrow> buffer option" where
  "buf_set_read dat sz = do {
     assertion (buf_size_valid sz);
     Some \<lparr>b_capacity = sz, b_offset = 0, b_len = sz, b_data = dat\<rparr> }"

subsection \<open>Allocation\<close>

text \<open>
  An allocation that fails aborts the program, so it always returns a block here. The content of
  a block that is not cleared is the argument \<open>junk\<close>.
\<close>

definition alloc_buf :: "int \<Rightarrow> buffer option" where
  "alloc_buf sz = do {
     assertion (buf_size_valid sz);
     Some \<lparr>b_capacity = sz, b_offset = 0, b_len = 0, b_data = Some (replicate (nat sz) 0)\<rparr> }"

definition alloc_buf_gc :: "(nat \<Rightarrow> u8) \<Rightarrow> int \<Rightarrow> buffer option" where
  "alloc_buf_gc junk sz = do {
     assertion (buf_size_valid sz);
     blk \<leftarrow> (let blk = Some (map junk [0..<nat sz])
             in if sz \<noteq> 0 then mem_write blk 0 [0] else Some blk);
     Some \<lparr>b_capacity = sz, b_offset = 0, b_len = 0, b_data = blk\<rparr> }"

definition clone_buf :: "(nat \<Rightarrow> u8) \<Rightarrow> buffer \<Rightarrow> buffer option" where
  "clone_buf junk buf = (
     let ret = buf\<lparr>b_data := Some (map junk [0..<nat (b_capacity buf)])\<rparr>
     in case (buf_bptr ret, buf_bptr buf) of
          (Some d, Some s) \<Rightarrow> do {
            bs \<leftarrow> mem_read (b_data buf) s (buf_len buf);
            blk \<leftarrow> mem_write (b_data ret) d bs;
            Some (ret\<lparr>b_data := blk\<rparr>) }
        | _ \<Rightarrow> if buf_len buf = 0 then Some ret else None)"

definition buf_clear :: "buffer \<Rightarrow> buffer option" where
  "buf_clear buf = do {
     blk \<leftarrow> (if b_capacity buf > 0
             then mem_write (b_data buf) 0 (replicate (nat (b_capacity buf)) 0) else Some (b_data buf));
     Some (buf\<lparr>b_data := blk, b_len := 0, b_offset := 0\<rparr>) }"

definition free_buf :: "buffer \<Rightarrow> buffer" where
  "free_buf buf = clear_buf"

subsection \<open>Capacity checks\<close>

definition buf_safe :: "buffer \<Rightarrow> int \<Rightarrow> bool" where
  "buf_safe buf ln \<longleftrightarrow>
     buf_valid buf \<and> buf_size_valid ln \<and> b_offset buf + b_len buf + ln \<le> b_capacity buf"

definition buf_safe_bidir :: "buffer \<Rightarrow> int \<Rightarrow> bool" where
  "buf_safe_bidir buf ln =
     (if buf_valid buf \<and> buf_size_valid_signed ln
      then (let newlen = b_len buf + ln in newlen \<ge> 0 \<and> b_offset buf + newlen \<le> b_capacity buf)
      else False)"

definition buf_forward_capacity :: "buffer \<Rightarrow> int" where
  "buf_forward_capacity buf =
     (if buf_valid buf
      then (let ret = b_capacity buf - (b_offset buf + b_len buf) in if ret < 0 then 0 else ret)
      else 0)"

definition buf_forward_capacity_total :: "buffer \<Rightarrow> int" where
  "buf_forward_capacity_total buf =
     (if buf_valid buf
      then (let ret = b_capacity buf - b_offset buf in if ret < 0 then 0 else ret)
      else 0)"

definition buf_reverse_capacity :: "buffer \<Rightarrow> int" where
  "buf_reverse_capacity buf = (if buf_valid buf then b_offset buf else 0)"

definition buf_inc_len :: "buffer \<Rightarrow> int \<Rightarrow> bool \<times> buffer" where
  "buf_inc_len buf inc =
     (if \<not> buf_safe_bidir buf inc then (False, buf) else (True, buf\<lparr>b_len := b_len buf + inc\<rparr>))"

subsection \<open>Moving the window\<close>

definition buf_prepend :: "buffer \<Rightarrow> int \<Rightarrow> int option \<times> buffer" where
  "buf_prepend buf sz =
     (if \<not> buf_valid buf \<or> sz < 0 \<or> sz > b_offset buf then (None, buf)
      else let buf' = buf\<lparr>b_offset := b_offset buf - sz, b_len := b_len buf + sz\<rparr>
           in (buf_bptr buf', buf'))"

definition buf_advance :: "buffer \<Rightarrow> int \<Rightarrow> bool \<times> buffer" where
  "buf_advance buf sz =
     (if \<not> buf_valid buf \<or> sz < 0 \<or> b_len buf < sz then (False, buf)
      else (True, buf\<lparr>b_offset := b_offset buf + sz, b_len := b_len buf - sz\<rparr>))"

definition buf_write_alloc :: "buffer \<Rightarrow> int \<Rightarrow> int option \<times> buffer" where
  "buf_write_alloc buf sz =
     (if \<not> buf_safe buf sz then (None, buf)
      else (map_option (\<lambda>p. p + b_len buf) (buf_bptr buf), buf\<lparr>b_len := b_len buf + sz\<rparr>))"

definition buf_read_alloc :: "buffer \<Rightarrow> int \<Rightarrow> int option \<times> buffer" where
  "buf_read_alloc buf sz =
     (if sz < 0 \<or> b_len buf < sz then (None, buf)
      else (buf_bptr buf, buf\<lparr>b_offset := b_offset buf + sz, b_len := b_len buf - sz\<rparr>))"

subsection \<open>Copying data in and out\<close>

definition buf_write :: "buffer \<Rightarrow> u8 list \<Rightarrow> (bool \<times> buffer) option" where
  "buf_write dest src =
     (case buf_write_alloc dest (int (length src)) of
        (None, d) \<Rightarrow> Some (False, d)
      | (Some cp, d) \<Rightarrow> do { blk \<leftarrow> mem_write (b_data d) cp src; Some (True, d\<lparr>b_data := blk\<rparr>) })"

definition buf_write_prepend :: "buffer \<Rightarrow> u8 list \<Rightarrow> (bool \<times> buffer) option" where
  "buf_write_prepend dest src =
     (case buf_prepend dest (int (length src)) of
        (None, d) \<Rightarrow> Some (False, d)
      | (Some cp, d) \<Rightarrow> do { blk \<leftarrow> mem_write (b_data d) cp src; Some (True, d\<lparr>b_data := blk\<rparr>) })"

definition buf_write_u8 :: "buffer \<Rightarrow> u8 \<Rightarrow> (bool \<times> buffer) option" where
  "buf_write_u8 dest dat = buf_write dest [dat]"

definition buf_write_u16 :: "buffer \<Rightarrow> u16 \<Rightarrow> (bool \<times> buffer) option" where
  "buf_write_u16 dest dat = buf_write dest (u16_be dat)"

definition buf_write_u32 :: "buffer \<Rightarrow> u32 \<Rightarrow> (bool \<times> buffer) option" where
  "buf_write_u32 dest dat = buf_write dest (u32_be dat)"

text \<open>The bytes \<^verbatim>\<open>[BPTR(src), BPTR(src) + n)\<close>: no byte is read when \<open>n\<close> is 0.\<close>

definition bptr_read :: "buffer \<Rightarrow> int \<Rightarrow> u8 list option" where
  "bptr_read src n =
     (case buf_bptr src of None \<Rightarrow> if n = 0 then Some [] else None
      | Some p \<Rightarrow> mem_read (b_data src) p n)"

definition buf_copy :: "buffer \<Rightarrow> buffer \<Rightarrow> (bool \<times> buffer) option" where
  "buf_copy dest src = do { bs \<leftarrow> bptr_read src (buf_len src); buf_write dest bs }"

definition buf_copy_n :: "buffer \<Rightarrow> buffer \<Rightarrow> int \<Rightarrow> (bool \<times> buffer \<times> buffer) option" where
  "buf_copy_n dest src n =
     (case buf_read_alloc src n of
        (None, s) \<Rightarrow> Some (False, dest, s)
      | (Some cp, s) \<Rightarrow> do {
          bs \<leftarrow> mem_read (b_data s) cp n;
          (ok, d) \<leftarrow> buf_write dest bs;
          Some (ok, d, s) })"

definition buf_copy_range :: "buffer \<Rightarrow> int \<Rightarrow> buffer \<Rightarrow> int \<Rightarrow> int \<Rightarrow> (bool \<times> buffer) option" where
  "buf_copy_range dest dest_index src src_index src_len =
     (if src_index < 0 \<or> src_len < 0 \<or> src_index + src_len > b_len src \<or> dest_index < 0
         \<or> b_offset dest + dest_index + src_len > b_capacity dest
      then Some (False, dest)
      else do {
        bs \<leftarrow> mem_read (b_data src) (b_offset src + src_index) src_len;
        blk \<leftarrow> mem_write (b_data dest) (b_offset dest + dest_index) bs;
        let d = dest\<lparr>b_data := blk\<rparr>;
        Some (True, if dest_index + src_len > b_len d then d\<lparr>b_len := dest_index + src_len\<rparr> else d) })"

definition buf_copy_excess :: "buffer \<Rightarrow> buffer \<Rightarrow> int \<Rightarrow> (bool \<times> buffer \<times> buffer) option" where
  "buf_copy_excess dest src ln =
     (if ln < 0 then Some (False, dest, src)
      else if b_len src > ln
      then let b = src; src' = src\<lparr>b_len := ln\<rparr>
           in case buf_advance b ln of
                (False, _) \<Rightarrow> Some (False, dest, src')
              | (True, b') \<Rightarrow> do { (ok, d) \<leftarrow> buf_copy dest b'; Some (ok, d, src') }
      else Some (True, dest, src))"

definition buf_read :: "buffer \<Rightarrow> int \<Rightarrow> (u8 list option \<times> buffer) option" where
  \<comment> \<open>the bytes copied to the destination, \<open>None\<close> for the result \<^verbatim>\<open>false\<close>\<close>
  "buf_read src sz =
     (case buf_read_alloc src sz of
        (None, s) \<Rightarrow> Some (None, s)
      | (Some cp, s) \<Rightarrow> do { bs \<leftarrow> mem_read (b_data s) cp sz; Some (Some bs, s) })"

definition buf_peek_u8 :: "buffer \<Rightarrow> int option" where
  "buf_peek_u8 buf =
     (if buf_len buf < 1 then Some (- 1)
      else do { bs \<leftarrow> bptr_read buf 1; Some (int (unat (hd bs))) })"

definition buf_read_u8 :: "buffer \<Rightarrow> (int \<times> buffer) option" where
  "buf_read_u8 buf = do {
     ret \<leftarrow> buf_peek_u8 buf;
     Some (ret, if ret \<ge> 0 then snd (buf_advance buf 1) else buf) }"

definition buf_read_u16 :: "buffer \<Rightarrow> (int \<times> buffer) option" where
  "buf_read_u16 buf = do {
     (r, b) \<leftarrow> buf_read buf 2;
     Some (case r of None \<Rightarrow> (- 1, b) | Some bs \<Rightarrow> (int (unat (be_u16 bs)), b)) }"

definition buf_read_u32 :: "buffer \<Rightarrow> (u32 \<times> bool \<times> buffer) option" where
  "buf_read_u32 buf = do {
     (r, b) \<leftarrow> buf_read buf 4;
     Some (case r of None \<Rightarrow> (0, False, b) | Some bs \<Rightarrow> (be_u32 bs, True, b)) }"

definition buf_assign :: "buffer \<Rightarrow> buffer \<Rightarrow> (bool \<times> buffer) option" where
  "buf_assign dest src =
     (case buf_init dest (b_offset src) of
        (False, d) \<Rightarrow> Some (False, d)
      | (True, d) \<Rightarrow> do { bs \<leftarrow> bptr_read src (buf_len src); buf_write d bs })"

subsection \<open>Comparison\<close>

definition buf_equal :: "buffer \<Rightarrow> buffer \<Rightarrow> bool option" where
  "buf_equal a b =
     (if buf_len a = buf_len b
      then do { xs \<leftarrow> bptr_read a (buf_len a); ys \<leftarrow> bptr_read b (buf_len a); Some (xs = ys) }
      else Some False)"

definition buf_string_match :: "buffer \<Rightarrow> u8 list \<Rightarrow> bool option" where
  "buf_string_match src match =
     (if int (length match) \<noteq> b_len src then Some False
      else do { xs \<leftarrow> bptr_read src (int (length match)); Some (xs = match) })"

definition buf_string_match_head :: "buffer \<Rightarrow> u8 list \<Rightarrow> bool option" where
  "buf_string_match_head src match =
     (if int (length match) > b_len src then Some False
      else do { xs \<leftarrow> bptr_read src (int (length match)); Some (xs = match) })"

definition buf_string_match_head_str :: "buffer \<Rightarrow> u8 list \<Rightarrow> bool option" where
  "buf_string_match_head_str src match =
     (if \<not> buf_size_valid (int (length match)) \<or> int (length match) > b_len src then Some False
      else do { xs \<leftarrow> bptr_read src (int (length match)); Some (xs = match) })"

definition buf_string_compare_advance :: "buffer \<Rightarrow> u8 list \<Rightarrow> (bool \<times> buffer) option" where
  "buf_string_compare_advance src match = do {
     m \<leftarrow> buf_string_match_head_str src match;
     Some (if m then (True, snd (buf_advance src (int (length match)))) else (False, src)) }"

subsection \<open>The tail of a buffer\<close>

definition blast_read :: "buffer \<Rightarrow> u8 option option" where
  \<comment> \<open>\<^verbatim>\<open>*BLAST(buf)\<close>, or \<open>Some None\<close> where the pointer is \<^verbatim>\<open>NULL\<close>\<close>
  "blast_read buf =
     (case buf_blast buf of None \<Rightarrow> Some None
      | Some p \<Rightarrow> do { bs \<leftarrow> mem_read (b_data buf) p 1; Some (Some (hd bs)) })"

definition buf_rmtail :: "buffer \<Rightarrow> u8 \<Rightarrow> buffer option" where
  "buf_rmtail buf remove = do {
     l \<leftarrow> blast_read buf;
     if l = Some remove
     then do { blk \<leftarrow> mem_write (b_data buf) (the (buf_blast buf)) [0];
               Some (buf\<lparr>b_data := blk, b_len := b_len buf - 1\<rparr>) }
     else Some buf }"

definition buf_null_terminate :: "buffer \<Rightarrow> buffer option" where
  "buf_null_terminate buf = do {
     l \<leftarrow> blast_read buf;
     if l = Some 0 then Some buf
     else do {
       let b = (if \<not> buf_safe buf 1 then snd (buf_inc_len buf (- 1)) else buf);
       r \<leftarrow> buf_write_u8 b 0;
       Some (snd r) } }"

subsection \<open>The invariant and the content\<close>

definition buf_wf :: "buffer \<Rightarrow> bool" where
  "buf_wf b \<longleftrightarrow>
     (case b_data b of
        None \<Rightarrow> b_capacity b = 0 \<and> b_offset b = 0 \<and> b_len b = 0
      | Some xs \<Rightarrow> 0 \<le> b_offset b \<and> 0 \<le> b_len b \<and> b_offset b + b_len b \<le> b_capacity b
          \<and> b_capacity b = int (length xs) \<and> b_capacity b < BUF_SIZE_MAX)"

definition buf_content :: "buffer \<Rightarrow> u8 list" where
  "buf_content b =
     (case b_data b of None \<Rightarrow> [] | Some xs \<Rightarrow> take (nat (b_len b)) (drop (nat (b_offset b)) xs))"

lemmas buf_state_defs = buf_wf_def buf_content_def buf_valid_def buf_bptr_def buf_len_def

text \<open>Well-formed buffers in canonical form, with natural numbers for the fields.\<close>

definition buf_of :: "u8 list \<Rightarrow> nat \<Rightarrow> nat \<Rightarrow> buffer" where
  "buf_of xs p l = \<lparr>b_capacity = int (length xs), b_offset = int p, b_len = int l, b_data = Some xs\<rparr>"

lemma buf_of_wf [simp]:
  "buf_wf (buf_of xs p l) \<longleftrightarrow> p + l \<le> length xs \<and> int (length xs) < BUF_SIZE_MAX"
  by (auto simp: buf_of_def buf_wf_def)

lemma buf_of_content [simp]: "buf_content (buf_of xs p l) = take l (drop p xs)"
  by (simp add: buf_of_def buf_content_def)

lemma buf_wf_cases [consumes 1, case_names null block]:
  assumes "buf_wf b"
  obtains "b = clear_buf"
  | xs p l where "b = buf_of xs p l" and "p + l \<le> length xs" and "int (length xs) < BUF_SIZE_MAX"
proof (cases "b_data b")
  case None
  with assms have "b = clear_buf" by (simp add: buf_wf_def clear_buf_def)
  then show thesis by (rule that(1))
next
  case (Some xs)
  with assms have "b = buf_of xs (nat (b_offset b)) (nat (b_len b))"
    and "nat (b_offset b) + nat (b_len b) \<le> length xs" and "int (length xs) < BUF_SIZE_MAX"
    by (auto simp: buf_wf_def buf_of_def)
  then show thesis by (rule that(2))
qed

lemma buf_of_simps [simp]:
  "b_capacity (buf_of xs p l) = int (length xs)" "b_offset (buf_of xs p l) = int p"
  "b_len (buf_of xs p l) = int l" "b_data (buf_of xs p l) = Some xs"
  "buf_valid (buf_of xs p l)" "buf_bptr (buf_of xs p l) = Some (int p)"
  "buf_len (buf_of xs p l) = int l" "buf_defined (buf_of xs p l)"
  by (simp_all add: buf_of_def buf_state_defs buf_defined_def)

lemma clear_buf_simps [simp]:
  "b_capacity clear_buf = 0" "b_offset clear_buf = 0" "b_len clear_buf = 0"
  "b_data clear_buf = None" "\<not> buf_valid clear_buf" "buf_bptr clear_buf = None"
  "buf_len clear_buf = 0" "\<not> buf_defined clear_buf"
  by (simp_all add: clear_buf_def buf_state_defs buf_defined_def)

lemma buf_wf_fields:
  "buf_wf b \<Longrightarrow> 0 \<le> b_offset b \<and> 0 \<le> b_len b \<and> b_offset b + b_len b \<le> b_capacity b
    \<and> b_capacity b < BUF_SIZE_MAX"
  by (cases "b_data b") (auto simp: buf_wf_def BUF_SIZE_MAX_def)

lemma buf_valid_wf: "buf_wf b \<Longrightarrow> buf_valid b \<longleftrightarrow> b_data b \<noteq> None"
  using buf_wf_fields by (auto simp: buf_valid_def)

lemma buf_len_wf [simp]: "buf_wf b \<Longrightarrow> buf_len b = b_len b"
  by (cases "b_data b") (auto simp: buf_state_defs)

lemma length_buf_content [simp]: "buf_wf b \<Longrightarrow> int (length (buf_content b)) = b_len b"
  by (cases "b_data b") (auto simp: buf_state_defs)

lemma buf_content_Nil_iff: "buf_wf b \<Longrightarrow> buf_content b = [] \<longleftrightarrow> b_len b = 0"
  using length_buf_content [of b] by (metis length_0_conv of_nat_eq_0_iff)

lemma buf_data_pos: "buf_wf b \<Longrightarrow> 0 < b_len b \<Longrightarrow> b_data b \<noteq> None"
  by (cases "b_data b") (simp_all add: buf_wf_def)

lemma clear_buf_wf [simp]: "buf_wf clear_buf"
  and clear_buf_content [simp]: "buf_content clear_buf = []"
  by (simp_all add: clear_buf_def buf_wf_def buf_content_def)

lemma bptr_read_wf [simp]:
  assumes "buf_wf b" and "0 \<le> n" and "n \<le> b_len b"
  shows "bptr_read b n = Some (take (nat n) (buf_content b))"
proof (cases "b_data b")
  case None
  with assms show ?thesis by (auto simp: bptr_read_def buf_state_defs)
next
  case (Some xs)
  with assms show ?thesis
    by (auto simp: bptr_read_def buf_state_defs mem_read_Some nat_le_iff min_def)
qed

lemma bptr_read_all [simp]: "buf_wf b \<Longrightarrow> bptr_read b (b_len b) = Some (buf_content b)"
  using buf_wf_fields [of b] length_buf_content [of b]
  by (metis bptr_read_wf nat_int order_refl take_all)

text \<open>
  Signed arithmetic: under the invariant every sum the checks compute stays far below
  \<^verbatim>\<open>INT_MAX\<close>, so the unbounded \<open>int\<close> of the model agrees with the 32-bit \<^verbatim>\<open>int\<close> of the code.
\<close>

lemma buf_arith_in_range:
  assumes "buf_wf b" and "\<bar>n\<bar> \<le> BUF_SIZE_MAX"
  shows "\<bar>b_offset b + b_len b + n\<bar> \<le> INT_MAX" and "\<bar>b_len b + n\<bar> \<le> INT_MAX"
    and "\<bar>b_offset b + (b_len b + n)\<bar> \<le> INT_MAX" and "\<bar>b_capacity b - (b_offset b + b_len b)\<bar> \<le> INT_MAX"
  using assms buf_wf_fields [OF assms(1)] by (auto simp: BUF_SIZE_MAX_def INT_MAX_def)

subsection \<open>Allocation and initialisation\<close>

lemma alloc_buf_Some_iff:
  "alloc_buf sz = Some b \<longleftrightarrow> 0 \<le> sz \<and> sz < BUF_SIZE_MAX
    \<and> b = \<lparr>b_capacity = sz, b_offset = 0, b_len = 0, b_data = Some (replicate (nat sz) 0)\<rparr>"
  by (auto simp: alloc_buf_def buf_size_valid_def)

lemma alloc_buf_wf:
  "alloc_buf sz = Some b \<Longrightarrow> buf_wf b \<and> buf_content b = [] \<and> b_capacity b = sz \<and> b_data b \<noteq> None"
  by (auto simp: alloc_buf_Some_iff buf_wf_def buf_content_def)

lemma alloc_buf_gc_wf:
  "alloc_buf_gc junk sz = Some b \<Longrightarrow> buf_wf b \<and> buf_content b = [] \<and> b_capacity b = sz"
  by (auto simp: alloc_buf_gc_def buf_size_valid_def mem_write_def buf_wf_def buf_content_def Let_def
      split: if_splits)

lemma alloc_buf_gc_total: "0 \<le> sz \<Longrightarrow> sz < BUF_SIZE_MAX \<Longrightarrow> \<exists>b. alloc_buf_gc junk sz = Some b"
  by (auto simp: alloc_buf_gc_def buf_size_valid_def mem_write_def Let_def)

lemma buf_init_wf:
  assumes "buf_wf b"
  shows "buf_wf (snd (buf_init b off))"
  using assms buf_wf_fields [OF assms] by (auto simp: buf_init_def buf_wf_def split: option.splits)

lemma buf_init_True:
  "fst (buf_init b off) \<longleftrightarrow> 0 \<le> off \<and> off \<le> b_capacity b \<and> b_data b \<noteq> None"
  by (auto simp: buf_init_def)

lemma buf_init_content: "fst (buf_init b off) \<Longrightarrow> buf_content (snd (buf_init b off)) = []"
  by (auto simp: buf_init_def buf_content_def split: if_splits option.splits)

lemma clone_buf_wf:
  assumes "buf_wf b"
  shows "\<exists>c. clone_buf junk b = Some c \<and> buf_content c = buf_content b
    \<and> b_capacity c = b_capacity b \<and> b_offset c = b_offset b"
  using assms
proof (cases rule: buf_wf_cases)
  case null
  then show ?thesis by (auto simp: clone_buf_def buf_state_defs Let_def)
next
  case (block xs p l)
  then show ?thesis
    by (auto simp: clone_buf_def Let_def mem_read_Some mem_write_Some buf_content_def
        drop_overwrite_at buf_bptr_def buf_valid_def)
qed

subsection \<open>What the operations do to a well-formed buffer\<close>

text \<open>The three updates of the content; each operation performs one of them or none.\<close>

definition buf_appended :: "buffer \<Rightarrow> u8 list \<Rightarrow> buffer" where
  "buf_appended b ys = b\<lparr>b_len := b_len b + int (length ys),
     b_data := map_option (\<lambda>xs. overwrite xs (nat (b_offset b + b_len b)) ys) (b_data b)\<rparr>"

definition buf_prepended :: "buffer \<Rightarrow> u8 list \<Rightarrow> buffer" where
  "buf_prepended b ys = b\<lparr>b_offset := b_offset b - int (length ys), b_len := b_len b + int (length ys),
     b_data := map_option (\<lambda>xs. overwrite xs (nat (b_offset b - int (length ys))) ys) (b_data b)\<rparr>"

definition buf_consumed :: "buffer \<Rightarrow> nat \<Rightarrow> buffer" where
  "buf_consumed b n = b\<lparr>b_offset := b_offset b + int n, b_len := b_len b - int n\<rparr>"

lemma buf_appended_of:
  "p + l + length ys \<le> length xs \<Longrightarrow>
    buf_appended (buf_of xs p l) ys = buf_of (overwrite xs (p + l) ys) p (l + length ys)"
  by (simp add: buf_appended_def buf_of_def nat_add_distrib)

lemma buf_prepended_of:
  "length ys \<le> p \<Longrightarrow> p + l \<le> length xs \<Longrightarrow>
    buf_prepended (buf_of xs p l) ys = buf_of (overwrite xs (p - length ys) ys) (p - length ys) (l + length ys)"
  by (simp add: buf_prepended_def buf_of_def nat_diff_distrib of_nat_diff)

lemma buf_consumed_of:
  "n \<le> l \<Longrightarrow> buf_consumed (buf_of xs p l) n = buf_of xs (p + n) (l - n)"
  by (simp add: buf_consumed_def buf_of_def of_nat_diff)

lemma buf_appended_fields [simp]:
  "b_offset (buf_appended b ys) = b_offset b" "b_capacity (buf_appended b ys) = b_capacity b"
  "b_len (buf_appended b ys) = b_len b + int (length ys)"
  "b_data (buf_appended b ys) = None \<longleftrightarrow> b_data b = None"
  by (simp_all add: buf_appended_def)

lemma buf_prepended_fields [simp]:
  "b_offset (buf_prepended b ys) = b_offset b - int (length ys)"
  "b_capacity (buf_prepended b ys) = b_capacity b"
  "b_len (buf_prepended b ys) = b_len b + int (length ys)"
  "b_data (buf_prepended b ys) = None \<longleftrightarrow> b_data b = None"
  by (simp_all add: buf_prepended_def)

lemma buf_consumed_fields [simp]:
  "b_offset (buf_consumed b n) = b_offset b + int n" "b_capacity (buf_consumed b n) = b_capacity b"
  "b_len (buf_consumed b n) = b_len b - int n" "b_data (buf_consumed b n) = b_data b"
  by (simp_all add: buf_consumed_def)

lemma buf_safe_wf:
  "buf_wf b \<Longrightarrow> 0 \<le> n \<Longrightarrow>
    buf_safe b n \<longleftrightarrow> b_data b \<noteq> None \<and> b_offset b + b_len b + n \<le> b_capacity b"
  using buf_wf_fields [of b] by (auto simp: buf_safe_def buf_size_valid_def buf_valid_wf)

lemma buf_appended_wf [simp]:
  assumes "buf_wf b" and "buf_safe b (int (length ys))"
  shows "buf_wf (buf_appended b ys)" and "buf_content (buf_appended b ys) = buf_content b @ ys"
proof -
  have "buf_wf (buf_appended b ys) \<and> buf_content (buf_appended b ys) = buf_content b @ ys"
    using assms(1)
  proof (cases rule: buf_wf_cases)
    case null
    with assms show ?thesis by (simp add: buf_safe_def buf_consumed_def clear_buf_def buf_state_defs)
  next
    case (block xs p l)
    with assms show ?thesis
      by (auto simp: buf_appended_of buf_safe_wf drop_overwrite_before)
  qed
  then show "buf_wf (buf_appended b ys)" and "buf_content (buf_appended b ys) = buf_content b @ ys" by auto
qed

lemma buf_prepended_wf [simp]:
  assumes "buf_wf b" and "b_data b \<noteq> None" and "int (length ys) \<le> b_offset b"
  shows "buf_wf (buf_prepended b ys)" and "buf_content (buf_prepended b ys) = ys @ buf_content b"
proof -
  have "buf_wf (buf_prepended b ys) \<and> buf_content (buf_prepended b ys) = ys @ buf_content b"
    using assms(1)
  proof (cases rule: buf_wf_cases)
    case null
    with assms show ?thesis by (simp add: buf_safe_def buf_consumed_def clear_buf_def buf_state_defs)
  next
    case (block xs p l)
    with assms show ?thesis
      by (simp add: buf_prepended_of drop_overwrite_at)
  qed
  then show "buf_wf (buf_prepended b ys)" and "buf_content (buf_prepended b ys) = ys @ buf_content b" by auto
qed

lemma buf_consumed_wf [simp]:
  assumes "buf_wf b" and "int n \<le> b_len b"
  shows "buf_wf (buf_consumed b n)" and "buf_content (buf_consumed b n) = drop n (buf_content b)"
proof -
  have "buf_wf (buf_consumed b n) \<and> buf_content (buf_consumed b n) = drop n (buf_content b)"
    using assms(1)
  proof (cases rule: buf_wf_cases)
    case null
    with assms show ?thesis by (simp add: buf_safe_def buf_consumed_def clear_buf_def buf_state_defs)
  next
    case (block xs p l)
    with assms show ?thesis
      by (simp add: buf_consumed_of drop_take add.commute)
  qed
  then show "buf_wf (buf_consumed b n)" and "buf_content (buf_consumed b n) = drop n (buf_content b)" by auto
qed

lemma buf_write_eq:
  assumes "buf_wf b"
  shows "buf_write b ys =
    Some (if buf_safe b (int (length ys)) then (True, buf_appended b ys) else (False, b))"
  using assms
proof (cases rule: buf_wf_cases)
  case null
  then show ?thesis by (simp add: buf_write_def buf_write_alloc_def buf_safe_def)
next
  case (block xs p l)
  then show ?thesis
    by (auto simp: buf_write_def buf_write_alloc_def buf_safe_wf mem_write_Some buf_appended_def
        nat_add_distrib)
qed

lemma buf_write_prepend_eq:
  assumes "buf_wf b"
  shows "buf_write_prepend b ys =
    Some (if b_data b \<noteq> None \<and> int (length ys) \<le> b_offset b then (True, buf_prepended b ys) else (False, b))"
  using assms
proof (cases rule: buf_wf_cases)
  case null
  then show ?thesis by (simp add: buf_write_prepend_def buf_prepend_def)
next
  case (block xs p l)
  then show ?thesis
    by (auto simp: buf_write_prepend_def buf_prepend_def mem_write_Some buf_prepended_def
        buf_bptr_def buf_valid_def Let_def)
qed

lemma buf_advance_eq:
  assumes "buf_wf b"
  shows "buf_advance b n =
    (if b_data b \<noteq> None \<and> 0 \<le> n \<and> n \<le> b_len b then (True, buf_consumed b (nat n)) else (False, b))"
  using assms by (auto simp: buf_advance_def buf_valid_wf buf_consumed_def)

lemma buf_read_eq:
  assumes "buf_wf b" and "b_data b \<noteq> None"
  shows "buf_read b n =
    Some (if 0 \<le> n \<and> n \<le> b_len b then (Some (take (nat n) (buf_content b)), buf_consumed b (nat n))
          else (None, b))"
  using assms
proof (cases rule: buf_wf_cases)
  case null
  with assms show ?thesis by simp
next
  case (block xs p l)
  then show ?thesis
    by (auto simp: buf_read_def buf_read_alloc_def mem_read_Some buf_consumed_def min_def nat_le_iff)
qed

lemma buf_read_None:
  assumes "buf_wf b" and "b_data b = None" and "0 < n"
  shows "buf_read b n = Some (None, b)"
  using assms by (cases rule: buf_wf_cases) (simp_all add: buf_read_def buf_read_alloc_def)

lemma buf_read_pos:
  assumes "buf_wf b" and "0 < n"
  shows "buf_read b n =
    Some (if n \<le> b_len b then (Some (take (nat n) (buf_content b)), buf_consumed b (nat n)) else (None, b))"
  using assms buf_read_eq [of b n] buf_read_None [of b n] buf_wf_def [of b]
  by (cases "b_data b") auto

lemma buf_peek_u8_eq:
  "buf_wf b \<Longrightarrow> buf_peek_u8 b =
    Some (case buf_content b of [] \<Rightarrow> - 1 | x # _ \<Rightarrow> int (unat x))"
  using length_buf_content [of b]
  by (cases "buf_content b") (auto simp: buf_peek_u8_def)

lemma buf_read_u8_eq:
  assumes "buf_wf b"
  shows "buf_read_u8 b =
    Some (case buf_content b of [] \<Rightarrow> (- 1, b) | x # _ \<Rightarrow> (int (unat x), buf_consumed b 1))"
  using assms length_buf_content [of b] buf_wf_def [of b]
  by (cases "buf_content b")
    (auto simp: buf_read_u8_def buf_peek_u8_eq buf_advance_eq buf_content_def)

lemma buf_copy_eq:
  assumes "buf_wf d" and "buf_wf s"
  shows "buf_copy d s = Some (if buf_safe d (b_len s) then (True, buf_appended d (buf_content s)) else (False, d))"
  using assms by (simp add: buf_copy_def buf_write_eq del: bptr_read_wf)

lemma buf_assign_eq:
  assumes "buf_wf d" and "buf_wf s" and "b_data d \<noteq> None" and "b_capacity s \<le> b_capacity d"
  shows "\<exists>d'. buf_assign d s = Some (True, d') \<and> buf_wf d' \<and> buf_content d' = buf_content s
    \<and> b_offset d' = b_offset s"
proof -
  define e where "e = snd (buf_init d (b_offset s))"
  have s: "0 \<le> b_offset s" "0 \<le> b_len s" "b_offset s + b_len s \<le> b_capacity s"
    using buf_wf_fields [OF assms(2)] by auto
  have init: "buf_init d (b_offset s) = (True, e)"
    using assms s by (simp add: e_def buf_init_def)
  have e: "buf_wf e" "buf_content e = []" "b_offset e = b_offset s" "b_len e = 0"
    "b_data e \<noteq> None" "b_capacity e = b_capacity d"
    using init assms buf_init_wf [OF assms(1)] buf_init_content [of d "b_offset s"]
    by (auto simp: e_def buf_init_def)
  have "buf_safe e (int (length (buf_content s)))"
    using e s assms by (simp add: buf_safe_wf)
  then show ?thesis
    using e s assms init by (simp add: buf_assign_def buf_write_eq del: bptr_read_wf)
qed

subsection \<open>Writing into free room\<close>

text \<open>The free bytes before or behind the content.\<close>

definition has_room :: "bool \<Rightarrow> buffer \<Rightarrow> int \<Rightarrow> bool" where
  "has_room prepend b n \<longleftrightarrow> b_data b \<noteq> None \<and>
     (if prepend then n \<le> b_offset b else b_offset b + b_len b + n \<le> b_capacity b)"

lemma has_room_safe: "buf_wf b \<Longrightarrow> 0 \<le> n \<Longrightarrow> has_room False b n \<Longrightarrow> buf_safe b n"
  by (simp add: has_room_def buf_safe_wf)

lemma buf_write_room:
  assumes "buf_wf b" and "has_room False b (int (length ys))"
  shows "buf_write b ys = Some (True, buf_appended b ys)"
    and "buf_wf (buf_appended b ys)" and "buf_content (buf_appended b ys) = buf_content b @ ys"
    and "has_room False (buf_appended b ys) n \<longleftrightarrow> has_room False b (int (length ys) + n)"
  using assms has_room_safe [OF assms(1) _ assms(2)]
  by (simp_all add: buf_write_eq) (auto simp: has_room_def algebra_simps)

lemma buf_write_prepend_room:
  assumes "buf_wf b" and "has_room True b (int (length ys))"
  shows "buf_write_prepend b ys = Some (True, buf_prepended b ys)"
    and "buf_wf (buf_prepended b ys)" and "buf_content (buf_prepended b ys) = ys @ buf_content b"
    and "has_room True (buf_prepended b ys) n \<longleftrightarrow> has_room True b (int (length ys) + n)"
  using assms by (simp_all add: buf_write_prepend_eq has_room_def) auto

lemma has_room_mono: "has_room pre b n \<Longrightarrow> m \<le> n \<Longrightarrow> has_room pre b m"
  by (auto simp: has_room_def)

end
