(* ===== verification/Circ_List.thy ===== *)
theory Circ_List
  imports Integer_Ops
begin

text \<open>
  The circular list macros of \<^verbatim>\<open>circ_list.h\<close>: a fixed array in which a push moves the head one
  slot backwards and, once the array is full, overwrites the oldest item. Item 0 is the most
  recent one. The byte count \<^verbatim>\<open>x_sizeof\<close>, which only debug output reads, is left out.

  The abstraction \<open>circ_items\<close> lists the items from the most recent to the oldest; a push puts the
  new item in front and keeps at most \<open>x_cap\<close> items. The interface the users of the list rely on is
  the locale \<open>recency_list\<close>, interpreted at the end on the macros.
\<close>

record 'a circ_list =
  x_head :: int
  x_size :: int
  x_cap :: int
  x_list :: "'a list"

definition arr_get :: "'a list \<Rightarrow> int \<Rightarrow> 'a option" where
  "arr_get xs i = (if 0 \<le> i \<and> i < int (length xs) then Some (xs ! nat i) else None)"

definition arr_set :: "'a list \<Rightarrow> int \<Rightarrow> 'a \<Rightarrow> 'a list option" where
  "arr_set xs i v = (if 0 \<le> i \<and> i < int (length xs) then Some (xs[nat i := v]) else None)"

lemma arr_get_nat: "n < length xs \<Longrightarrow> arr_get xs (int n) = Some (xs ! n)"
  and arr_set_nat: "n < length xs \<Longrightarrow> arr_set xs (int n) v = Some (xs[n := v])"
  by (simp_all add: arr_get_def arr_set_def)

definition CIRC_LIST_PUSH :: "'a circ_list \<Rightarrow> 'a \<Rightarrow> 'a circ_list option" where
  "CIRC_LIST_PUSH obj item = do {
     h \<leftarrow> modulo_add (x_head obj) (- 1) (x_cap obj);
     xs \<leftarrow> arr_set (x_list obj) h item;
     Some (obj\<lparr>x_head := h, x_list := xs, x_size := min_int (x_size obj + 1) (x_cap obj)\<rparr>) }"

definition CIRC_LIST_SIZE :: "'a circ_list \<Rightarrow> int" where
  "CIRC_LIST_SIZE obj = x_size obj"

definition CIRC_LIST_INDEX :: "'a circ_list \<Rightarrow> int \<Rightarrow> int option" where
  "CIRC_LIST_INDEX obj index = do {
     i \<leftarrow> index_verify index (x_size obj);
     modulo_add (x_head obj) i (x_cap obj) }"

definition CIRC_LIST_ITEM :: "'a circ_list \<Rightarrow> int \<Rightarrow> 'a option" where
  "CIRC_LIST_ITEM obj index = do { j \<leftarrow> CIRC_LIST_INDEX obj index; arr_get (x_list obj) j }"

definition CIRC_LIST_ITEM_set :: "'a circ_list \<Rightarrow> int \<Rightarrow> 'a \<Rightarrow> 'a circ_list option" where
  \<comment> \<open>the macro as the target of an assignment\<close>
  "CIRC_LIST_ITEM_set obj index v = do {
     j \<leftarrow> CIRC_LIST_INDEX obj index;
     xs \<leftarrow> arr_set (x_list obj) j v;
     Some (obj\<lparr>x_list := xs\<rparr>) }"

definition CIRC_LIST_RESET :: "'a circ_list \<Rightarrow> 'a circ_list" where
  "CIRC_LIST_RESET obj = obj\<lparr>x_head := 0, x_size := 0\<rparr>"

definition CIRC_LIST_ALLOC :: "'a \<Rightarrow> int \<Rightarrow> 'a circ_list" where
  \<comment> \<open>\<open>z\<close> is the item whose bytes are all zero\<close>
  "CIRC_LIST_ALLOC z sz = \<lparr>x_head = 0, x_size = 0, x_cap = sz, x_list = replicate (nat sz) z\<rparr>"

subsection \<open>Invariant and abstraction\<close>

definition circ_wf :: "'a circ_list \<Rightarrow> bool" where
  "circ_wf obj \<longleftrightarrow> 0 < x_cap obj \<and> 0 \<le> x_head obj \<and> x_head obj < x_cap obj
     \<and> 0 \<le> x_size obj \<and> x_size obj \<le> x_cap obj \<and> int (length (x_list obj)) = x_cap obj"

definition circ_items :: "'a circ_list \<Rightarrow> 'a list" where
  "circ_items obj =
     map (\<lambda>i. x_list obj ! nat ((x_head obj + int i) mod x_cap obj)) [0..<nat (x_size obj)]"

lemma length_circ_items [simp]: "length (circ_items obj) = nat (x_size obj)"
  by (simp add: circ_items_def)

lemma circ_items_nth:
  "i < nat (x_size obj) \<Longrightarrow>
    circ_items obj ! i = x_list obj ! nat ((x_head obj + int i) mod x_cap obj)"
  by (simp add: circ_items_def)

lemma circ_slot_range:
  "circ_wf obj \<Longrightarrow> 0 \<le> (x_head obj + i) mod x_cap obj
    \<and> (x_head obj + i) mod x_cap obj < int (length (x_list obj))"
  by (simp add: circ_wf_def)

lemma circ_slot_inj:
  assumes "circ_wf obj" and "i < nat (x_cap obj)" and "j < nat (x_cap obj)"
    and "nat ((x_head obj + int i) mod x_cap obj) = nat ((x_head obj + int j) mod x_cap obj)"
  shows "i = j"
proof -
  have "(x_head obj + int i) mod x_cap obj = (x_head obj + int j) mod x_cap obj"
    using assms(4) circ_slot_range [OF assms(1)] by (simp add: eq_nat_nat_iff)
  then have "x_cap obj dvd int i - int j"
    by (metis add_diff_cancel_left mod_eq_dvd_iff)
  moreover have "\<bar>int i - int j\<bar> < x_cap obj" using assms by linarith
  ultimately show ?thesis
    using zdvd_imp_le [of "x_cap obj" "\<bar>int i - int j\<bar>"] by (cases "i = j") auto
qed

lemma CIRC_LIST_ALLOC_wf:
  "0 < sz \<Longrightarrow> circ_wf (CIRC_LIST_ALLOC z sz) \<and> circ_items (CIRC_LIST_ALLOC z sz) = []"
  by (simp add: CIRC_LIST_ALLOC_def circ_wf_def circ_items_def)

lemma CIRC_LIST_RESET_wf:
  "circ_wf obj \<Longrightarrow> circ_wf (CIRC_LIST_RESET obj) \<and> circ_items (CIRC_LIST_RESET obj) = []
    \<and> x_cap (CIRC_LIST_RESET obj) = x_cap obj"
  by (simp add: CIRC_LIST_RESET_def circ_wf_def circ_items_def)

lemma CIRC_LIST_INDEX_eq:
  assumes "circ_wf obj" and "0 \<le> i" and "i < x_size obj"
  shows "CIRC_LIST_INDEX obj i = Some ((x_head obj + i) mod x_cap obj)"
  using assms modulo_add_eq [of "x_head obj" "x_cap obj" i]
  by (simp add: CIRC_LIST_INDEX_def index_verify_def circ_wf_def)

lemma CIRC_LIST_ITEM_eq:
  assumes "circ_wf obj" and "0 \<le> i" and "i < x_size obj"
  shows "CIRC_LIST_ITEM obj i = Some (circ_items obj ! nat i)"
  using assms circ_slot_range [OF assms(1), of i]
  by (simp add: CIRC_LIST_ITEM_def CIRC_LIST_INDEX_eq arr_get_def circ_items_nth nat_less_iff)

lemma CIRC_LIST_ITEM_nat:
  "circ_wf obj \<Longrightarrow> n < length (circ_items obj) \<Longrightarrow>
    CIRC_LIST_ITEM obj (int n) = Some (circ_items obj ! n)"
  by (auto simp: CIRC_LIST_ITEM_eq circ_wf_def)

lemma CIRC_LIST_ITEM_out: "i < 0 \<or> x_size obj \<le> i \<Longrightarrow> CIRC_LIST_ITEM obj i = None"
  by (auto simp: CIRC_LIST_ITEM_def CIRC_LIST_INDEX_def index_verify_def)

lemma CIRC_LIST_ITEM_set_eq:
  assumes "circ_wf obj" and "0 \<le> i" and "i < x_size obj"
  shows "\<exists>obj'. CIRC_LIST_ITEM_set obj i v = Some obj' \<and> circ_wf obj'
    \<and> circ_items obj' = (circ_items obj)[nat i := v] \<and> x_cap obj' = x_cap obj"
proof -
  let ?slot = "\<lambda>j. nat ((x_head obj + int j) mod x_cap obj)"
  define obj' where "obj' = obj\<lparr>x_list := (x_list obj)[?slot (nat i) := v]\<rparr>"
  have set: "CIRC_LIST_ITEM_set obj i v = Some obj'"
    using assms circ_slot_range [OF assms(1), of i]
    by (simp add: CIRC_LIST_ITEM_set_def CIRC_LIST_INDEX_eq arr_set_def obj'_def)
  have "circ_items obj' = (circ_items obj)[nat i := v]"
  proof (rule nth_equalityI)
    show "length (circ_items obj') = length ((circ_items obj)[nat i := v])" by (simp add: obj'_def)
    fix j assume "j < length (circ_items obj')"
    then have j: "j < nat (x_size obj)" by (simp add: obj'_def)
    have "?slot (nat i) < length (x_list obj)"
      using circ_slot_range [OF assms(1), of "int (nat i)"] by (simp add: nat_less_iff)
    moreover have "j < nat (x_cap obj)" "nat i < nat (x_cap obj)"
      using assms j by (auto simp: circ_wf_def)
    ultimately have cap: "j < nat (x_cap obj)" "nat i < nat (x_cap obj)"
      "?slot (nat i) < length (x_list obj)" by auto
    show "circ_items obj' ! j = (circ_items obj)[nat i := v] ! j"
      using j cap assms circ_slot_inj [OF assms(1), of "nat i" j]
      by (auto simp: obj'_def circ_items_nth nth_list_update nat_less_iff)
  qed
  moreover have "circ_wf obj'" using assms by (simp add: obj'_def circ_wf_def)
  ultimately show ?thesis using set by (simp add: obj'_def)
qed

lemma CIRC_LIST_ITEM_set_nat:
  "circ_wf obj \<Longrightarrow> n < length (circ_items obj) \<Longrightarrow>
    \<exists>obj'. CIRC_LIST_ITEM_set obj (int n) v = Some obj' \<and> circ_wf obj'
      \<and> circ_items obj' = (circ_items obj)[n := v] \<and> x_cap obj' = x_cap obj"
  using CIRC_LIST_ITEM_set_eq [of obj "int n" v] by (auto simp: circ_wf_def)

lemma CIRC_LIST_PUSH_eq:
  assumes "circ_wf obj"
  shows "\<exists>obj'. CIRC_LIST_PUSH obj item = Some obj' \<and> circ_wf obj'
    \<and> circ_items obj' = take (nat (x_cap obj)) (item # circ_items obj) \<and> x_cap obj' = x_cap obj"
proof -
  define h where "h = (x_head obj - 1) mod x_cap obj"
  define obj' where "obj' = obj\<lparr>x_head := h, x_list := (x_list obj)[nat h := item],
    x_size := min (x_size obj + 1) (x_cap obj)\<rparr>"
  note wf = assms [unfolded circ_wf_def]
  have h: "0 \<le> h" "h < x_cap obj" using wf by (simp_all add: h_def)
  have push: "CIRC_LIST_PUSH obj item = Some obj'"
    using wf h modulo_add_eq [of "x_head obj" "x_cap obj" "- 1"]
    by (simp add: CIRC_LIST_PUSH_def arr_set_def obj'_def flip: h_def)
  have wf': "circ_wf obj'" using wf h by (simp add: obj'_def circ_wf_def)
  have shift: "(h + int (Suc j)) mod x_cap obj = (x_head obj + int j) mod x_cap obj" for j
    by (simp add: h_def mod_add_left_eq)
  have "circ_items obj' = take (nat (x_cap obj)) (item # circ_items obj)"
  proof (rule nth_equalityI)
    show "length (circ_items obj') = length (take (nat (x_cap obj)) (item # circ_items obj))"
      using wf by (auto simp: obj'_def min_def)
    fix i assume "i < length (circ_items obj')"
    then have i: "i < nat (min (x_size obj + 1) (x_cap obj))" by (simp add: obj'_def)
    have hd: "nat ((h + int i) mod x_cap obj) = nat h \<Longrightarrow> i = 0"
      using circ_slot_inj [OF wf', of i 0] i wf h by (simp add: obj'_def)
    show "circ_items obj' ! i = take (nat (x_cap obj)) (item # circ_items obj) ! i"
    proof (cases i)
      case 0
      then show ?thesis using i wf h by (simp add: obj'_def circ_items_nth nat_less_iff)
    next
      case (Suc j)
      then have "nat h \<noteq> nat ((h + int i) mod x_cap obj)" using hd by auto
      then have "circ_items obj' ! i = x_list obj ! nat ((h + int i) mod x_cap obj)"
        using i by (simp add: obj'_def circ_items_nth)
      then have "circ_items obj' ! i = x_list obj ! nat ((x_head obj + int j) mod x_cap obj)"
        by (simp only: Suc shift)
      then show ?thesis using i Suc wf by (simp add: circ_items_nth)
    qed
  qed
  then show ?thesis using push wf' by (simp add: obj'_def)
qed

subsection \<open>The interface\<close>

locale recency_list =
  fixes inv :: "'l \<Rightarrow> bool"
    and items :: "'l \<Rightarrow> 'a list"
    and cap :: "'l \<Rightarrow> nat"
    and push :: "'l \<Rightarrow> 'a \<Rightarrow> 'l option"
    and get :: "'l \<Rightarrow> int \<Rightarrow> 'a option"
    and put :: "'l \<Rightarrow> int \<Rightarrow> 'a \<Rightarrow> 'l option"
  assumes items_le_cap: "inv l \<Longrightarrow> length (items l) \<le> cap l"
    and push_law: "inv l \<Longrightarrow> \<exists>l'. push l x = Some l' \<and> inv l'
      \<and> items l' = take (cap l) (x # items l) \<and> cap l' = cap l"
    and get_law: "inv l \<Longrightarrow> 0 \<le> i \<Longrightarrow> i < int (length (items l)) \<Longrightarrow> get l i = Some (items l ! nat i)"
    and put_law: "inv l \<Longrightarrow> 0 \<le> i \<Longrightarrow> i < int (length (items l)) \<Longrightarrow>
      \<exists>l'. put l i x = Some l' \<and> inv l' \<and> items l' = (items l)[nat i := x] \<and> cap l' = cap l"
begin

lemma push_hd: "inv l \<Longrightarrow> 0 < cap l \<Longrightarrow> push l x = Some l' \<Longrightarrow> get l' 0 = Some x"
  using push_law [of l x] get_law [of l' 0] by (cases "cap l") auto

lemma get_put:
  assumes "inv l" and "0 \<le> i" and "i < int (length (items l))" and "put l i x = Some l'"
    and "0 \<le> j" and "j < int (length (items l))"
  shows "get l' j = Some (if i = j then x else items l ! nat j)"
  using put_law [OF assms(1-3), of x] get_law [of l' j] assms by (auto simp: nth_list_update)

end

interpretation circ: recency_list circ_wf circ_items "\<lambda>l. nat (x_cap l)"
  CIRC_LIST_PUSH CIRC_LIST_ITEM CIRC_LIST_ITEM_set
proof unfold_locales
  fix l :: "'a circ_list" and x :: 'a and i :: int
  assume wf: "circ_wf l"
  show "length (circ_items l) \<le> nat (x_cap l)" using wf by (auto simp: circ_wf_def)
  show "\<exists>l'. CIRC_LIST_PUSH l x = Some l' \<and> circ_wf l'
      \<and> circ_items l' = take (nat (x_cap l)) (x # circ_items l) \<and> nat (x_cap l') = nat (x_cap l)"
    using CIRC_LIST_PUSH_eq [OF wf, of x] by auto
  assume i: "0 \<le> i" "i < int (length (circ_items l))"
  then show "CIRC_LIST_ITEM l i = Some (circ_items l ! nat i)"
    using wf by (simp add: CIRC_LIST_ITEM_eq circ_wf_def)
  show "\<exists>l'. CIRC_LIST_ITEM_set l i x = Some l' \<and> circ_wf l'
      \<and> circ_items l' = (circ_items l)[nat i := x] \<and> nat (x_cap l') = nat (x_cap l)"
    using CIRC_LIST_ITEM_set_eq [OF wf i(1), of x] i wf by (auto simp: circ_wf_def)
qed

declare length_circ_items [simp del]

end
