(* ===== verification/Replay_Filter.thy ===== *)
theory Replay_Filter
  imports Prelude
begin

text \<open>
  The contract of a component that lets each packet through at most once, and what follows from it
  for whole runs. A filter has a state \<open>'s\<close>, sees packets \<open>'p\<close> in environments \<open>'e\<close> (the time of
  arrival), and says which packets its state covers, that is, refuses from now on. The contract is
  on one step; the theorems are on sequences of steps.

  The provider is the packet-id window (theory \<open>Packet_Id\<close>).
\<close>

fun filter_run :: "('e \<Rightarrow> 's \<Rightarrow> 'p \<Rightarrow> (bool \<times> 's) option) \<Rightarrow> 's \<Rightarrow> ('e \<times> 'p) list \<Rightarrow> ('p list \<times> 's) option" where
  "filter_run step s [] = Some ([], s)"
| "filter_run step s ((e, p) # es) = do {
     (ok, s') \<leftarrow> step e s p;
     (acc, s'') \<leftarrow> filter_run step s' es;
     Some (if ok then p # acc else acc, s'') }"

locale replay_filter =
  fixes step :: "'e \<Rightarrow> 's \<Rightarrow> 'p \<Rightarrow> (bool \<times> 's) option"
    and inv :: "'s \<Rightarrow> bool"
    and covered :: "'s \<Rightarrow> 'p \<Rightarrow> bool"
    and env :: "'e \<Rightarrow> bool"
  assumes step_law: "inv s \<Longrightarrow> env e \<Longrightarrow>
    \<exists>ok s'. step e s p = Some (ok, s') \<and> inv s' \<and> (\<forall>q. covered s q \<longrightarrow> covered s' q)
      \<and> (ok \<longrightarrow> \<not> covered s p \<and> covered s' p)"
begin

lemma run_at_most_once:
  assumes "inv s" and "\<forall>(e, p) \<in> set es. env e"
  shows "\<exists>acc s'. filter_run step s es = Some (acc, s') \<and> inv s' \<and> distinct acc
    \<and> (\<forall>q. covered s q \<longrightarrow> covered s' q) \<and> (\<forall>p \<in> set acc. \<not> covered s p \<and> covered s' p)"
  using assms
proof (induction es arbitrary: s)
  case Nil
  then show ?case by simp
next
  case (Cons x es)
  obtain e p where x: "x = (e, p)" by (cases x)
  have e: "env e" using Cons.prems(2) by (simp add: x)
  obtain ok s1 where s1: "step e s p = Some (ok, s1)" "inv s1"
    "\<forall>q. covered s q \<longrightarrow> covered s1 q" "ok \<longrightarrow> \<not> covered s p \<and> covered s1 p"
    using step_law [OF Cons.prems(1) e, of p] by blast
  obtain acc s2 where s2: "filter_run step s1 es = Some (acc, s2)" "inv s2" "distinct acc"
    "\<forall>q. covered s1 q \<longrightarrow> covered s2 q" "\<forall>p \<in> set acc. \<not> covered s1 p \<and> covered s2 p"
    using Cons.IH [OF s1(2)] Cons.prems(2) by auto
  show ?case using x s1 s2 by auto
qed

end

end
