(* ===== verification/Packet_Id.thy ===== *)
theory Packet_Id
  imports Buffer Circ_List Replay_Filter
begin

text \<open>
  Packet identifiers and replay protection: \<^verbatim>\<open>packet_id.h\<close>, \<^verbatim>\<open>packet_id.c\<close> and the receive path of
  \<^verbatim>\<open>crypto_check_replay\<close> in \<^verbatim>\<open>crypto.c\<close>.

  The sender numbers its packets (\<open>packet_id_send\<close>); the receiver keeps the highest time and
  number seen and, where reordering is allowed, a circular list with one entry for each of the last
  \<open>seq_backtrack\<close> numbers: unseen (0), expired (1), or the time of reception
  (\<open>packet_id_rec\<close>). The theory models every function that reads or writes this state,
  including the persistence of the state in a file, whose system calls are arguments.

  The main results: what the receiver accepts is exactly what an abstract window over sets of
  numbers accepts, no packet is accepted twice in any interleaving of receptions and expiries, the
  sender never reuses a number, and the wire formats are read back as they were written.
\<close>

definition SEQ_UNSEEN :: time_t where
  "SEQ_UNSEEN = 0"

definition SEQ_EXPIRED :: time_t where
  "SEQ_EXPIRED = 1"

definition PACKET_ID_MAX :: u64 where
  "PACKET_ID_MAX = 0xFFFFFFFF"

definition PACKET_ID_EPOCH_MAX :: u64 where
  "PACKET_ID_EPOCH_MAX = 0x0000ffffffffffff"

definition PACKET_ID_MASK :: u64 where
  "PACKET_ID_MASK = 0x0000ffffffffffff"

definition PACKET_ID_WRAP_TRIGGER :: u64 where
  "PACKET_ID_WRAP_TRIGGER = 0xFF000000"

definition MIN_SEQ_BACKTRACK :: int where
  "MIN_SEQ_BACKTRACK = 0"

definition MAX_SEQ_BACKTRACK :: int where
  "MAX_SEQ_BACKTRACK = 65536"

definition MIN_TIME_BACKTRACK :: int where
  "MIN_TIME_BACKTRACK = 0"

definition MAX_TIME_BACKTRACK :: int where
  "MAX_TIME_BACKTRACK = 600"

definition SEQ_REAP_INTERVAL :: int where
  "SEQ_REAP_INTERVAL = 5"

record packet_id_rec =
  r_last_reap :: time_t
  r_time :: time_t
  r_id :: u64
  r_seq_backtrack :: u64
  r_time_backtrack :: int
  r_max_backtrack_stat :: u64
  r_initialized :: bool
  r_seq_list :: "time_t circ_list option"
  r_name :: "string option"
  r_unit :: int

record packet_id_persist =
  pp_filename :: "string option"
  pp_fd :: int
  pp_time :: time_t
  pp_id :: u32
  pp_time_last_written :: time_t
  pp_id_last_written :: u32

record packet_id_persist_file_image =
  im_time :: time_t
  im_id :: u32

record packet_id_send =
  s_id :: u64
  s_time :: time_t

record packet_id_net =
  n_id :: u64
  n_time :: time_t

record packet_id =
  p_send :: packet_id_send
  p_rec :: packet_id_rec

subsection \<open>Set-up\<close>

definition cleared_rec :: packet_id_rec where
  \<comment> \<open>the structure after \<^verbatim>\<open>CLEAR\<close>\<close>
  "cleared_rec = \<lparr>r_last_reap = 0, r_time = 0, r_id = 0, r_seq_backtrack = 0, r_time_backtrack = 0,
     r_max_backtrack_stat = 0, r_initialized = False, r_seq_list = None, r_name = None, r_unit = 0\<rparr>"

definition cleared_packet_id :: packet_id where
  "cleared_packet_id = \<lparr>p_send = \<lparr>s_id = 0, s_time = 0\<rparr>, p_rec = cleared_rec\<rparr>"

definition packet_id_init_recv ::
  "packet_id_rec \<Rightarrow> int \<Rightarrow> int \<Rightarrow> string option \<Rightarrow> int \<Rightarrow> packet_id_rec option" where
  "packet_id_init_recv rec seq_backtrack time_backtrack name unit = do {
     let r = rec\<lparr>r_name := name, r_unit := unit\<rparr>;
     r' \<leftarrow> (if seq_backtrack \<noteq> 0
            then do {
              assertion (MIN_SEQ_BACKTRACK \<le> seq_backtrack \<and> seq_backtrack \<le> MAX_SEQ_BACKTRACK);
              assertion (MIN_TIME_BACKTRACK \<le> time_backtrack \<and> time_backtrack \<le> MAX_TIME_BACKTRACK);
              Some (r\<lparr>r_seq_list := Some (CIRC_LIST_ALLOC 0 seq_backtrack),
                      r_seq_backtrack := of_int seq_backtrack,
                      r_time_backtrack := time_backtrack\<rparr>) }
            else Some r);
     Some (r'\<lparr>r_initialized := True\<rparr>) }"

definition packet_id_init :: "int \<Rightarrow> int \<Rightarrow> string option \<Rightarrow> int \<Rightarrow> packet_id option" where
  "packet_id_init seq_backtrack time_backtrack name unit = do {
     r \<leftarrow> packet_id_init_recv (p_rec cleared_packet_id) seq_backtrack time_backtrack name unit;
     Some (cleared_packet_id\<lparr>p_rec := r\<rparr>) }"

definition packet_id_move_recv :: "packet_id_rec \<Rightarrow> packet_id_rec \<Rightarrow> (packet_id_rec \<times> packet_id_rec) option" where
  "packet_id_move_recv dest src = do {
     let d = src;
     s \<leftarrow> packet_id_init_recv cleared_rec (sint (ucast (r_seq_backtrack d) :: u32)) (r_time_backtrack d)
           (r_name d) (r_unit d);
     Some (d, s) }"

definition packet_id_free :: "packet_id \<Rightarrow> packet_id" where
  "packet_id_free p = cleared_packet_id"

definition packet_id_initialized :: "packet_id \<Rightarrow> bool" where
  "packet_id_initialized pid = r_initialized (p_rec pid)"

subsection \<open>The receiving side\<close>

text \<open>
  The loop that fills the list up to the new number. The C variable \<^verbatim>\<open>id\<close> grows to \<open>target\<close>, so
  the distance between the two is a measure.
\<close>

function seq_push_to :: "u64 \<Rightarrow> u64 \<Rightarrow> time_t circ_list \<Rightarrow> (u64 \<times> time_t circ_list) option" where
  "seq_push_to target n sl =
     (if n < target
      then do { sl' \<leftarrow> CIRC_LIST_PUSH sl SEQ_UNSEEN; seq_push_to target (n + 1) sl' }
      else Some (n, sl))"
  by pat_completeness auto
termination
proof (relation "measure (\<lambda>(target, n, sl). unat target - unat n)")
  show "((target, n + 1, sl'), target, n, sl) \<in> measure (\<lambda>(target, n, sl). unat target - unat n)"
    if "n < target" for target n :: u64 and sl sl' :: "time_t circ_list"
    using that unat_Suc_less [OF that] by (simp add: word_less_nat_alt)
qed simp

declare seq_push_to.simps [simp del]

definition packet_id_add :: "time_t \<Rightarrow> packet_id_rec \<Rightarrow> packet_id_net \<Rightarrow> packet_id_rec option" where
  "packet_id_add now p pin =
     (case r_seq_list p of
        Some sl \<Rightarrow>
          let (n1, t1, sl1) =
                (if CIRC_LIST_SIZE sl = 0 \<or> n_time pin > r_time p
                    \<or> (n_id pin \<ge> r_seq_backtrack p \<and> n_id pin - r_seq_backtrack p > r_id p)
                 then (if n_id pin > r_seq_backtrack p then n_id pin - r_seq_backtrack p else 0,
                       n_time pin, CIRC_LIST_RESET sl)
                 else (r_id p, r_time p, sl))
          in do {
            (n2, sl2) \<leftarrow> seq_push_to (n_id pin) n1 sl1;
            let diff = n2 - n_id pin;
            sl3 \<leftarrow> (if sint diff < CIRC_LIST_SIZE sl2 \<and> now > SEQ_EXPIRED
                    then CIRC_LIST_ITEM_set sl2 (sint (ucast diff :: u32)) now else Some sl2);
            Some (p\<lparr>r_id := n2, r_time := t1, r_seq_list := Some sl3\<rparr>) }
      | None \<Rightarrow> Some (p\<lparr>r_time := n_time pin, r_id := n_id pin\<rparr>))"

text \<open>The loop over the indices of the list, with the flag \<^verbatim>\<open>expire\<close>.\<close>

fun reap_loop :: "time_t \<Rightarrow> int \<Rightarrow> int list \<Rightarrow> bool \<Rightarrow> time_t circ_list \<Rightarrow> time_t circ_list option" where
  "reap_loop local_now time_backtrack [] expire sl = Some sl"
| "reap_loop local_now time_backtrack (i # idx) expire sl = do {
     t \<leftarrow> CIRC_LIST_ITEM sl i;
     if t = SEQ_EXPIRED then Some sl
     else let expire' = (expire \<or> (t \<noteq> 0 \<and> t + time_backtrack < local_now))
          in if expire'
             then do { sl' \<leftarrow> CIRC_LIST_ITEM_set sl i SEQ_EXPIRED;
                       reap_loop local_now time_backtrack idx expire' sl' }
             else reap_loop local_now time_backtrack idx expire' sl }"

definition packet_id_reap :: "time_t \<Rightarrow> packet_id_rec \<Rightarrow> packet_id_rec option" where
  "packet_id_reap now p = do {
     p' \<leftarrow> (if r_time_backtrack p \<noteq> 0
            then do {
              sl \<leftarrow> r_seq_list p;
              sl' \<leftarrow> reap_loop now (r_time_backtrack p) (map int [0..<nat (CIRC_LIST_SIZE sl)]) False sl;
              Some (p\<lparr>r_seq_list := Some sl'\<rparr>) }
            else Some p);
     Some (p'\<lparr>r_last_reap := now\<rparr>) }"

definition packet_id_reap_test :: "time_t \<Rightarrow> packet_id_rec \<Rightarrow> packet_id_rec option" where
  "packet_id_reap_test now p =
     (if r_last_reap p + SEQ_REAP_INTERVAL \<le> now then packet_id_reap now p else Some p)"

definition packet_id_test :: "packet_id_rec \<Rightarrow> packet_id_net \<Rightarrow> (bool \<times> packet_id_rec) option" where
  "packet_id_test p pin = do {
     assertion (r_initialized p);
     if n_id pin = 0 then Some (False, p)
     else if r_seq_backtrack p \<noteq> 0 then
       (if n_time pin = r_time p then
          (if n_id pin > r_id p then Some (True, p)
           else let diff = r_id p - n_id pin;
                    p' = (if diff > r_max_backtrack_stat p then p\<lparr>r_max_backtrack_stat := diff\<rparr> else p)
                in do {
                  sl \<leftarrow> r_seq_list p';
                  if diff \<ge> ucast (of_int (CIRC_LIST_SIZE sl) :: u32) then Some (False, p')
                  else do {
                    v \<leftarrow> CIRC_LIST_ITEM sl (sint (ucast diff :: u32));
                    Some (if v = 0 then (True, p') else (False, p')) } })
        else if n_time pin < r_time p then Some (False, p)
        else Some (True, p))
     else
       (if n_time pin = r_time p then Some (r_id p = 0 \<or> n_id pin = r_id p + 1, p)
        else if n_time pin < r_time p then Some (False, p)
        else Some (n_id pin = 1, p)) }"

text \<open>
  The receive path of \<^verbatim>\<open>crypto_check_replay\<close> on one receive structure: expire, test, and record an
  accepted packet.
\<close>

definition replay_check :: "time_t \<Rightarrow> packet_id_rec \<Rightarrow> packet_id_net \<Rightarrow> (bool \<times> packet_id_rec) option" where
  "replay_check now recv pin = do {
     r1 \<leftarrow> packet_id_reap_test now recv;
     (ok, r2) \<leftarrow> packet_id_test r1 pin;
     if ok then do { r3 \<leftarrow> packet_id_add now r2 pin; Some (True, r3) }
     else Some (False, r2) }"

subsection \<open>The wire format\<close>

definition packet_id_size :: "bool \<Rightarrow> int" where
  "packet_id_size long_form = 4 + (if long_form then 4 else 0)"

definition packet_id_read :: "buffer \<Rightarrow> bool \<Rightarrow> (bool \<times> packet_id_net \<times> buffer) option" where
  "packet_id_read buf long_form = do {
     (r, b) \<leftarrow> buf_read buf 4;
     case r of
       None \<Rightarrow> Some (False, \<lparr>n_id = 0, n_time = 0\<rparr>, b)
     | Some bs \<Rightarrow>
         (let pin = \<lparr>n_id = ucast (be_u32 bs), n_time = 0\<rparr>
          in if long_form
             then do {
               (r', b') \<leftarrow> buf_read b 4;
               case r' of
                 None \<Rightarrow> Some (False, pin, b')
               | Some ts \<Rightarrow> Some (True, pin\<lparr>n_time := int (unat (be_u32 ts))\<rparr>, b') }
             else Some (True, pin, b)) }"

definition packet_id_send_update :: "time_t \<Rightarrow> packet_id_send \<Rightarrow> bool \<Rightarrow> bool \<times> packet_id_send" where
  "packet_id_send_update now p long_form =
     (let p1 = (if s_time p = 0 then p\<lparr>s_time := now\<rparr> else p)
      in if s_id p1 = PACKET_ID_MAX
         then (if \<not> long_form \<or> now \<le> s_time p1 then (False, p1)
               else let p2 = p1\<lparr>s_time := now, s_id := 0\<rparr> in (True, p2\<lparr>s_id := s_id p2 + 1\<rparr>))
         else (True, p1\<lparr>s_id := s_id p1 + 1\<rparr>))"

definition packet_id_send_update_epoch :: "time_t \<Rightarrow> packet_id_send \<Rightarrow> bool \<times> packet_id_send" where
  "packet_id_send_update_epoch now p =
     (let p1 = (if s_time p = 0 then p\<lparr>s_time := now\<rparr> else p)
      in if s_id p1 = PACKET_ID_EPOCH_MAX then (False, p1)
         else (True, p1\<lparr>s_id := s_id p1 + 1\<rparr>))"

definition packet_id_write ::
  "time_t \<Rightarrow> packet_id_send \<Rightarrow> buffer \<Rightarrow> bool \<Rightarrow> bool \<Rightarrow> (bool \<times> packet_id_send \<times> buffer) option" where
  "packet_id_write now p buf long_form prepend =
     (case packet_id_send_update now p long_form of
        (False, p') \<Rightarrow> Some (False, p', buf)
      | (True, p') \<Rightarrow>
          let net_id = u32_be (ucast (s_id p')); net_time = u32_be (of_int (s_time p'))
          in if prepend
             then do {
               (ok, b) \<leftarrow> (if long_form then buf_write_prepend buf net_time else Some (True, buf));
               if \<not> ok then Some (False, p', b)
               else do { (ok2, b2) \<leftarrow> buf_write_prepend b net_id; Some (ok2, p', b2) } }
             else do {
               (ok, b) \<leftarrow> buf_write buf net_id;
               if \<not> ok then Some (False, p', b)
               else if long_form
                 then do { (ok2, b2) \<leftarrow> buf_write b net_time; Some (ok2, p', b2) }
                 else Some (True, p', b) })"

definition packet_id_read_epoch :: "packet_id_net \<Rightarrow> buffer \<Rightarrow> (u16 \<times> packet_id_net \<times> buffer) option" where
  "packet_id_read_epoch pin buf = do {
     (r, b) \<leftarrow> buf_read buf 8;
     case r of
       None \<Rightarrow> Some (0, pin, b)
     | Some bs \<Rightarrow> let n = be_u64 bs
         in Some (ucast (drop_bit 48 n), pin\<lparr>n_id := n AND PACKET_ID_MASK\<rparr>, b) }"

definition packet_id_write_epoch ::
  "time_t \<Rightarrow> packet_id_send \<Rightarrow> u16 \<Rightarrow> buffer \<Rightarrow> (bool \<times> packet_id_send \<times> buffer) option" where
  "packet_id_write_epoch now p epoch buf =
     (case packet_id_send_update_epoch now p of
        (False, p') \<Rightarrow> Some (False, p', buf)
      | (True, p') \<Rightarrow> do {
          let net_id = push_bit 48 (ucast epoch :: u64) OR s_id p';
          (ok, b) \<leftarrow> buf_write buf (u64_be net_id);
          Some (ok, p', b) })"

definition reset_packet_id_send :: "packet_id_send \<Rightarrow> packet_id_send" where
  "reset_packet_id_send p = p\<lparr>s_time := 0, s_id := 0\<rparr>"

definition packet_id_close_to_wrapping :: "packet_id_send \<Rightarrow> bool" where
  "packet_id_close_to_wrapping p \<longleftrightarrow> s_id p \<ge> PACKET_ID_WRAP_TRIGGER"

subsection \<open>Persistence\<close>

text \<open>
  The system calls are arguments: the descriptor that \<^verbatim>\<open>platform_open\<close> returns, whether the lock was
  obtained (a failure is fatal), the image that \<^verbatim>\<open>read\<close> delivered in full, if it did, and whether
  \<^verbatim>\<open>lseek\<close> and \<^verbatim>\<open>write\<close> succeeded.
\<close>

definition packet_id_persist_init :: "packet_id_persist \<Rightarrow> packet_id_persist" where
  "packet_id_persist_init p = p\<lparr>pp_filename := None, pp_fd := - 1, pp_time := 0,
     pp_time_last_written := 0, pp_id := 0, pp_id_last_written := 0\<rparr>"

definition packet_id_persist_enabled :: "packet_id_persist \<Rightarrow> bool" where
  "packet_id_persist_enabled p \<longleftrightarrow> pp_fd p \<ge> 0"

definition packet_id_persist_close :: "packet_id_persist \<Rightarrow> packet_id_persist" where
  "packet_id_persist_close p =
     (if packet_id_persist_enabled p then packet_id_persist_init p else p)"

definition packet_id_persist_load ::
  "packet_id_persist \<Rightarrow> string \<Rightarrow> int \<Rightarrow> bool \<Rightarrow> packet_id_persist_file_image option \<Rightarrow>
    packet_id_persist option" where
  "packet_id_persist_load p filename open_fd locked img =
     (if \<not> packet_id_persist_enabled p
      then let p1 = p\<lparr>pp_fd := open_fd\<rparr>
           in if open_fd = - 1 then Some p1
              else do {
                assertion locked;
                let p2 = p1\<lparr>pp_filename := Some filename\<rparr>;
                Some (case img of
                        None \<Rightarrow> p2
                      | Some im \<Rightarrow> p2\<lparr>pp_time := im_time im, pp_time_last_written := im_time im,
                          pp_id := im_id im, pp_id_last_written := im_id im\<rparr>) }
      else Some p)"

definition packet_id_persist_save ::
  "packet_id_persist \<Rightarrow> bool \<Rightarrow> bool \<Rightarrow> packet_id_persist \<times> packet_id_persist_file_image option" where
  \<comment> \<open>the second result is the image written to the file\<close>
  "packet_id_persist_save p seek_ok write_ok =
     (if packet_id_persist_enabled p \<and> pp_time p \<noteq> 0
         \<and> (pp_time p \<noteq> pp_time_last_written p \<or> pp_id p \<noteq> pp_id_last_written p)
      then if seek_ok \<and> write_ok
           then (p\<lparr>pp_time_last_written := pp_time p, pp_id_last_written := pp_id p\<rparr>,
                 Some \<lparr>im_time = pp_time p, im_id = pp_id p\<rparr>)
           else (p, None)
      else (p, None))"

definition packet_id_persist_save_obj :: "packet_id_persist \<Rightarrow> packet_id \<Rightarrow> packet_id_persist" where
  "packet_id_persist_save_obj p pid =
     (if packet_id_persist_enabled p \<and> r_time (p_rec pid) \<noteq> 0
      then p\<lparr>pp_time := r_time (p_rec pid), pp_id := ucast (r_id (p_rec pid))\<rparr> else p)"

definition packet_id_persist_load_obj :: "packet_id_persist \<Rightarrow> packet_id \<Rightarrow> packet_id" where
  "packet_id_persist_load_obj p pid =
     (if packet_id_persist_enabled p \<and> pp_time p \<noteq> 0
      then pid\<lparr>p_rec := (p_rec pid)\<lparr>r_time := pp_time p, r_id := ucast (pp_id p)\<rparr>\<rparr> else pid)"

subsection \<open>The state invariant and the packets that are no longer accepted\<close>

text \<open>The quantities of the code as natural numbers.\<close>

definition rec_window :: "packet_id_rec \<Rightarrow> nat" where
  "rec_window p = unat (r_seq_backtrack p)"

definition rec_high :: "packet_id_rec \<Rightarrow> nat" where
  "rec_high p = unat (r_id p)"

definition net_num :: "packet_id_net \<Rightarrow> nat" where
  "net_num q = unat (n_id q)"

text \<open>
  The list holds one entry for each of the last \<open>seq_backtrack\<close> numbers up to \<open>r_id\<close>; a structure
  without a list (TCP) has no time limit either.
\<close>

definition rec_inv :: "packet_id_rec \<Rightarrow> bool" where
  "rec_inv p \<longleftrightarrow> r_initialized p \<and>
     (case r_seq_list p of
        None \<Rightarrow> r_seq_backtrack p = 0 \<and> r_time_backtrack p = 0
      | Some sl \<Rightarrow> circ_wf sl \<and> x_cap sl = int (rec_window p) \<and> rec_window p \<le> 65536
          \<and> x_size sl = int (min (rec_window p) (rec_high p)))"

definition rec_covered :: "packet_id_rec \<Rightarrow> packet_id_net \<Rightarrow> bool" where
  "rec_covered p q \<longleftrightarrow> net_num q = 0 \<or> n_time q < r_time p
     \<or> (n_time q = r_time p \<and> net_num q \<le> rec_high p \<and>
        (case r_seq_list p of
           None \<Rightarrow> True
         | Some sl \<Rightarrow> length (circ_items sl) \<le> rec_high p - net_num q
             \<or> circ_items sl ! (rec_high p - net_num q) \<noteq> 0))"

lemma rec_fields_stat [simp]:
  "rec_window (p\<lparr>r_max_backtrack_stat := m\<rparr>) = rec_window p"
  "rec_high (p\<lparr>r_max_backtrack_stat := m\<rparr>) = rec_high p"
  "rec_window (p\<lparr>r_last_reap := m'\<rparr>) = rec_window p"
  "rec_high (p\<lparr>r_last_reap := m'\<rparr>) = rec_high p"
  "rec_window (p\<lparr>r_seq_list := l\<rparr>) = rec_window p"
  "rec_high (p\<lparr>r_seq_list := l\<rparr>) = rec_high p"
  by (simp_all add: rec_window_def rec_high_def)

lemma rec_inv_stat [simp]:
  "rec_inv (p\<lparr>r_max_backtrack_stat := m\<rparr>) = rec_inv p"
  "rec_inv (p\<lparr>r_last_reap := m'\<rparr>) = rec_inv p"
  "rec_covered (p\<lparr>r_max_backtrack_stat := m\<rparr>) q = rec_covered p q"
  "rec_covered (p\<lparr>r_last_reap := m'\<rparr>) q = rec_covered p q"
  by (auto simp: rec_inv_def rec_covered_def split: option.split)

lemma rec_inv_list:
  assumes "rec_inv p" and "r_seq_list p = Some sl"
  shows "circ_wf sl" and "x_cap sl = int (rec_window p)"
    and "0 < rec_window p" and "rec_window p \<le> 65536"
    and "length (circ_items sl) = min (rec_window p) (rec_high p)"
    and "x_size sl = int (length (circ_items sl))" and "r_seq_backtrack p \<noteq> 0"
proof -
  show w: "0 < rec_window p" using assms by (simp add: rec_inv_def circ_wf_def)
  then show "r_seq_backtrack p \<noteq> 0" by (auto simp: rec_window_def)
qed (use assms in \<open>auto simp: rec_inv_def length_circ_items\<close>)

lemma small_word_casts:
  fixes d :: u64
  assumes "unat d < 65536"
  shows "sint d = int (unat d)" and "sint (ucast d :: u32) = int (unat d)"
proof -
  have d: "d = of_nat (unat d)" by simp
  then have "ucast d = (of_nat (unat d) :: u32)" by (metis of_nat_unat)
  then show "sint (ucast d :: u32) = int (unat d)"
    using assms sint_of_nat_small [of "unat d", where ?'a = 32] by (simp only:) simp
  show "sint d = int (unat d)" using assms sint_of_nat_small [of "unat d", where ?'a = 64] by simp
qed

lemma packet_id_test_spec:
  assumes "rec_inv p"
  shows "\<exists>m. packet_id_test p q =
    Some (\<not> rec_covered p q \<and> (r_seq_list p = None \<longrightarrow>
        (if n_time q = r_time p then r_id p = 0 \<or> n_id q = r_id p + 1 else n_id q = 1)),
      p\<lparr>r_max_backtrack_stat := m\<rparr>)"
proof (cases "r_seq_list p")
  case None
  have succ: "\<not> unat (n_id q) \<le> unat (r_id p)" if "n_id q = r_id p + 1" "n_id q \<noteq> 0"
    using that unatSuc [of "r_id p"] by (simp add: add.commute)
  have zero: "\<not> unat (n_id q) \<le> unat (r_id p)" if "r_id p = 0" "n_id q \<noteq> 0"
    using that by (simp add: unat_eq_zero)
  have stat: "p\<lparr>r_max_backtrack_stat := r_max_backtrack_stat p\<rparr> = p" by simp
  have "packet_id_test p q = Some (\<not> rec_covered p q \<and>
      (if n_time q = r_time p then r_id p = 0 \<or> n_id q = r_id p + 1 else n_id q = 1), p)"
  proof (cases "n_id q = 0")
    case True
    then show ?thesis using assms by (simp add: packet_id_test_def rec_covered_def rec_inv_def net_num_def)
  next
    case False
    then have cov: "n_time q = r_time p \<Longrightarrow> rec_covered p q \<longleftrightarrow> unat (n_id q) \<le> unat (r_id p)"
      "n_time q < r_time p \<Longrightarrow> rec_covered p q" "r_time p < n_time q \<Longrightarrow> \<not> rec_covered p q"
      using None by (simp_all add: rec_covered_def net_num_def rec_high_def unat_eq_zero)
    have fresh: "r_id p = 0 \<or> n_id q = r_id p + 1 \<Longrightarrow> \<not> unat (n_id q) \<le> unat (r_id p)"
      using succ zero False by blast
    have init: "r_initialized p" "r_seq_backtrack p = 0" using None assms by (simp_all add: rec_inv_def)
    show ?thesis
    proof (cases "n_time q" "r_time p" rule: linorder_cases)
      case equal
      then have "packet_id_test p q = Some (r_id p = 0 \<or> n_id q = r_id p + 1, p)"
        using False init by (simp add: packet_id_test_def)
      moreover have "(\<not> rec_covered p q \<and> (r_id p = 0 \<or> n_id q = r_id p + 1))
          = (r_id p = 0 \<or> n_id q = r_id p + 1)" using cov(1) fresh equal by blast
      ultimately show ?thesis using equal by simp
    qed (use False init cov in \<open>auto simp: packet_id_test_def\<close>)
  qed
  then show ?thesis
    using None stat by (intro exI [of _ "r_max_backtrack_stat p"]) simp
next
  case (Some sl)
  note inv = rec_inv_list [OF assms Some]
  define d where "d = r_id p - n_id q"
  let ?p = "if d > r_max_backtrack_stat p then p\<lparr>r_max_backtrack_stat := d\<rparr> else p"
  have sz: "unat (ucast (of_int (x_size sl) :: u32) :: u64) = length (circ_items sl)"
  proof -
    have "length (circ_items sl) < 65537" using inv by simp
    moreover have "(of_int (x_size sl) :: u32) = of_nat (length (circ_items sl))"
      by (simp add: inv(6))
    ultimately show ?thesis
      by (simp add: unsigned_ucast_eq unat_of_nat take_bit_nat_eq_self)
  qed
  have d: "unat d = rec_high p - net_num q" if "\<not> r_id p < n_id q"
    using that by (simp add: d_def rec_high_def net_num_def unat_diff_le)
  have item: "CIRC_LIST_ITEM sl (sint (ucast d :: u32)) = Some (circ_items sl ! unat d)"
    if "unat d < length (circ_items sl)"
  proof -
    have "unat d < 65536" using that inv by simp
    then show ?thesis using that inv(1) by (simp only: small_word_casts CIRC_LIST_ITEM_nat)
  qed
  have "packet_id_test p q = Some (\<not> rec_covered p q, if n_id q \<noteq> 0 \<and> n_time q = r_time p \<and> \<not> r_id p < n_id q then ?p else p)"
  proof (cases "n_id q = 0")
    case True
    then show ?thesis using assms by (simp add: packet_id_test_def rec_covered_def rec_inv_def net_num_def)
  next
    case False
    then have nz: "net_num q \<noteq> 0" by (simp add: net_num_def unat_eq_zero)
    have init: "r_initialized p" "r_seq_backtrack p \<noteq> 0"
      using assms inv by (simp_all add: rec_inv_def)
    show ?thesis
    proof (cases "n_time q = r_time p \<and> \<not> r_id p < n_id q")
      case True
      then have le: "net_num q \<le> rec_high p" by (simp add: net_num_def rec_high_def word_le_nat_alt not_less)
      have "packet_id_test p q = (if length (circ_items sl) \<le> unat d then Some (False, ?p)
          else Some (circ_items sl ! unat d = 0, ?p))"
        using True False init Some item
        by (simp add: packet_id_test_def CIRC_LIST_SIZE_def word_le_nat_alt sz flip: d_def)
      then show ?thesis
        using True False nz le Some d by (simp add: rec_covered_def)
    next
      case False
      then have "packet_id_test p q = Some (r_time p \<le> n_time q, p)"
        using \<open>n_id q \<noteq> 0\<close> init by (auto simp: packet_id_test_def)
      then show ?thesis
        using False nz by (auto simp: rec_covered_def net_num_def rec_high_def word_less_nat_alt)
    qed
  qed
  then show ?thesis
    using Some
    by (intro exI [of _ "if n_id q \<noteq> 0 \<and> n_time q = r_time p \<and> \<not> r_id p < n_id q \<and> d > r_max_backtrack_stat p
        then d else r_max_backtrack_stat p"]) simp
qed


lemma take_replicate_Cons:
  "take c (replicate m z @ take c (z # xs)) = take c (replicate (Suc m) z @ xs)"
proof (cases c)
  case (Suc c')
  then show ?thesis
    by (simp add: replicate_app_Cons_same take_replicate min_def)
qed simp

lemma seq_push_to_done: "\<not> n < t \<Longrightarrow> seq_push_to t n sl = Some (n, sl)"
  by (subst seq_push_to.simps) simp

lemma seq_push_to_eq:
  assumes "circ_wf sl" and "n \<le> t"
  shows "\<exists>sl'. seq_push_to t n sl = Some (t, sl') \<and> circ_wf sl' \<and> x_cap sl' = x_cap sl
    \<and> circ_items sl' = take (nat (x_cap sl)) (replicate (unat t - unat n) 0 @ circ_items sl)"
  using assms
proof (induction t n sl rule: seq_push_to.induct)
  case (1 t n sl)
  show ?case
  proof (cases "n < t")
    case False
    then have "n = t" using "1.prems" by simp
    then show ?thesis
      using "1.prems" circ.items_le_cap [of sl] by (simp add: seq_push_to_done)
  next
    case True
    obtain sl1 where sl1: "CIRC_LIST_PUSH sl SEQ_UNSEEN = Some sl1" "circ_wf sl1"
      "circ_items sl1 = take (nat (x_cap sl)) (SEQ_UNSEEN # circ_items sl)" "x_cap sl1 = x_cap sl"
      using CIRC_LIST_PUSH_eq [OF "1.prems"(1)] by blast
    have u: "unat (n + 1) = Suc (unat n)" using True by (rule unat_Suc_less)
    then have "n + 1 \<le> t" using True by (simp add: word_le_nat_alt word_less_nat_alt)
    then obtain sl' where sl': "seq_push_to t (n + 1) sl1 = Some (t, sl')" "circ_wf sl'"
      "x_cap sl' = x_cap sl1"
      "circ_items sl' = take (nat (x_cap sl1)) (replicate (unat t - unat (n + 1)) 0 @ circ_items sl1)"
      using "1.IH" [OF True sl1(1,2)] by blast
    have "Suc (unat t - unat (n + 1)) = unat t - unat n"
      using True u by (simp add: word_less_nat_alt)
    then have "circ_items sl' = take (nat (x_cap sl)) (replicate (unat t - unat n) 0 @ circ_items sl)"
      using sl'(4) sl1 by (simp only: SEQ_UNSEEN_def take_replicate_Cons)
    moreover have "seq_push_to t n sl = Some (t, sl')"
      using True sl1 sl' by (subst seq_push_to.simps) simp
    ultimately show ?thesis using sl' sl1 by auto
  qed
qed

text \<open>The list after an accepted packet, as a function of the list before it.\<close>

definition window_add :: "time_t \<Rightarrow> nat \<Rightarrow> bool \<Rightarrow> nat \<Rightarrow> nat \<Rightarrow> time_t list \<Rightarrow> time_t list" where
  "window_add now w newtime hi k xs =
     (if newtime then (replicate (min w k) 0)[0 := now]
      else if hi < k then (take w (replicate (k - hi) 0 @ xs))[0 := now]
      else xs[hi - k := now])"

lemma window_add_fresh:
  assumes "length xs = min w hi" and "0 < w" and "0 < k" and "xs = [] \<or> newtime \<or> w + hi < k"
  shows "window_add now w newtime hi k xs = (replicate (min w k) 0)[0 := now]"
  using assms by (auto simp: window_add_def min_def split: if_splits)

lemma packet_id_add_fresh:
  assumes inv: "rec_inv p" and sl: "r_seq_list p = Some sl" and now: "1 < now" and k: "0 < net_num q"
    and fresh: "CIRC_LIST_SIZE sl = 0 \<or> n_time q > r_time p
      \<or> (n_id q \<ge> r_seq_backtrack p \<and> n_id q - r_seq_backtrack p > r_id p)"
  shows "\<exists>sl'. packet_id_add now p q =
      Some (p\<lparr>r_id := n_id q, r_time := n_time q, r_seq_list := Some sl'\<rparr>)
    \<and> circ_wf sl' \<and> x_cap sl' = x_cap sl
    \<and> circ_items sl' = (replicate (min (rec_window p) (net_num q)) 0)[0 := now]"
proof -
  note l = rec_inv_list [OF inv sl]
  define n1 where "n1 = (if n_id q > r_seq_backtrack p then n_id q - r_seq_backtrack p else 0)"
  have n1: "n1 \<le> n_id q" "unat n1 = net_num q - rec_window p"
    by (auto simp: n1_def net_num_def rec_window_def word_le_nat_alt word_less_nat_alt unat_diff_le)
  have reset: "circ_wf (CIRC_LIST_RESET sl)" "circ_items (CIRC_LIST_RESET sl) = []"
    "x_cap (CIRC_LIST_RESET sl) = x_cap sl"
    using CIRC_LIST_RESET_wf [OF l(1)] by auto
  obtain sl2 where sl2: "seq_push_to (n_id q) n1 (CIRC_LIST_RESET sl) = Some (n_id q, sl2)"
    "circ_wf sl2" "x_cap sl2 = x_cap sl"
    "circ_items sl2 = replicate (min (rec_window p) (net_num q)) 0"
    using seq_push_to_eq [OF reset(1) n1(1)] n1(2) reset l(2)
    by (auto simp: take_replicate min_def net_num_def)
  have pos: "0 < length (circ_items sl2)" using sl2 l k by simp
  obtain sl3 where sl3: "CIRC_LIST_ITEM_set sl2 0 now = Some sl3" "circ_wf sl3"
    "circ_items sl3 = (circ_items sl2)[0 := now]" "x_cap sl3 = x_cap sl"
    using CIRC_LIST_ITEM_set_nat [OF sl2(2) pos, of now] sl2 by auto
  have "0 < CIRC_LIST_SIZE sl2" using pos by (simp add: CIRC_LIST_SIZE_def length_circ_items)
  then have "packet_id_add now p q =
      Some (p\<lparr>r_id := n_id q, r_time := n_time q, r_seq_list := Some sl3\<rparr>)"
    using sl fresh sl2 sl3 now
    by (simp add: packet_id_add_def SEQ_EXPIRED_def flip: n1_def)
  then show ?thesis using sl2 sl3 by auto
qed

lemma packet_id_add_same:
  assumes inv: "rec_inv p" and sl: "r_seq_list p = Some sl" and now: "1 < now" and k: "0 < net_num q"
    and t: "n_time q = r_time p" and acc: "\<not> rec_covered p q"
    and old: "\<not> (CIRC_LIST_SIZE sl = 0 \<or> n_time q > r_time p
      \<or> (n_id q \<ge> r_seq_backtrack p \<and> n_id q - r_seq_backtrack p > r_id p))"
  shows "\<exists>sl'. packet_id_add now p q =
      Some (p\<lparr>r_id := (if r_id p < n_id q then n_id q else r_id p), r_time := n_time q, r_seq_list := Some sl'\<rparr>)
    \<and> circ_wf sl' \<and> x_cap sl' = x_cap sl
    \<and> circ_items sl' = window_add now (rec_window p) False (rec_high p) (net_num q) (circ_items sl)"
proof -
  note l = rec_inv_list [OF inv sl]
  define n2 where "n2 = (if r_id p < n_id q then n_id q else r_id p)"
  define d where "d = n2 - n_id q"
  obtain sl2 where sl2: "seq_push_to (n_id q) (r_id p) sl = Some (n2, sl2)" "circ_wf sl2"
    "x_cap sl2 = x_cap sl"
    "circ_items sl2 = (if rec_high p < net_num q
       then take (rec_window p) (replicate (net_num q - rec_high p) 0 @ circ_items sl) else circ_items sl)"
  proof (cases "r_id p < n_id q")
    case True
    then have "rec_high p < net_num q" by (simp add: rec_high_def net_num_def word_less_nat_alt)
    then show thesis
      using that seq_push_to_eq [OF l(1) less_imp_le [OF True]] True l(2)
      by (auto simp: n2_def net_num_def rec_high_def)
  next
    case False
    then have "\<not> rec_high p < net_num q" by (simp add: rec_high_def net_num_def word_less_nat_alt)
    then show thesis using that seq_push_to_done [OF False] l False by (auto simp: n2_def)
  qed
  have d: "unat d = (if rec_high p < net_num q then 0 else rec_high p - net_num q)"
    by (auto simp: d_def n2_def rec_high_def net_num_def word_less_nat_alt unat_diff_le word_le_nat_alt)
  have pos: "unat d < length (circ_items sl2)"
    using d sl2(4) l acc k t sl by (auto simp: rec_covered_def)
  have len: "length (circ_items sl2) \<le> 65536"
    using circ.items_le_cap [OF sl2(2)] sl2(3) l by simp
  then have cast: "sint d = int (unat d)" "sint (ucast d :: u32) = int (unat d)"
    using pos by (simp_all only: small_word_casts)
  obtain sl3 where sl3: "CIRC_LIST_ITEM_set sl2 (int (unat d)) now = Some sl3" "circ_wf sl3"
    "circ_items sl3 = (circ_items sl2)[unat d := now]" "x_cap sl3 = x_cap sl"
    using CIRC_LIST_ITEM_set_nat [OF sl2(2) pos, of now] sl2 by auto
  have "sint d < CIRC_LIST_SIZE sl2"
    using pos unfolding cast CIRC_LIST_SIZE_def length_circ_items by linarith
  then have "packet_id_add now p q =
      Some (p\<lparr>r_id := n2, r_time := n_time q, r_seq_list := Some sl3\<rparr>)"
    unfolding packet_id_add_def sl option.case if_not_P [OF old]
    using sl2(1) sl3(1) now t by (simp add: SEQ_EXPIRED_def cast(2) flip: d_def)
  moreover have "circ_items sl3 =
      window_add now (rec_window p) False (rec_high p) (net_num q) (circ_items sl)"
    using sl3(3) sl2(4) d by (simp add: window_add_def)
  ultimately show ?thesis using sl3 by (auto simp: n2_def)
qed

lemma packet_id_add_window:
  assumes inv: "rec_inv p" and sl: "r_seq_list p = Some sl" and now: "1 < now"
    and acc: "\<not> rec_covered p q"
  shows "\<exists>sl'. packet_id_add now p q =
      Some (p\<lparr>r_id := (if r_time p < n_time q \<or> r_id p < n_id q then n_id q else r_id p),
              r_time := n_time q, r_seq_list := Some sl'\<rparr>)
    \<and> circ_wf sl' \<and> x_cap sl' = x_cap sl
    \<and> circ_items sl' =
        window_add now (rec_window p) (r_time p < n_time q) (rec_high p) (net_num q) (circ_items sl)"
proof -
  note l = rec_inv_list [OF inv sl]
  have k: "0 < net_num q" and t: "r_time p \<le> n_time q"
    using acc by (auto simp: rec_covered_def)
  let ?jump = "n_id q \<ge> r_seq_backtrack p \<and> n_id q - r_seq_backtrack p > r_id p"
  show ?thesis
  proof (cases "CIRC_LIST_SIZE sl = 0 \<or> n_time q > r_time p \<or> ?jump")
    case True
    have jump: "rec_window p + rec_high p < net_num q" if ?jump
      using that by (auto simp: rec_window_def rec_high_def net_num_def word_less_nat_alt
          word_le_nat_alt unat_diff_le)
    have empty: "circ_items sl = [] \<and> rec_high p = 0" if "CIRC_LIST_SIZE sl = 0"
      using that l by (auto simp: CIRC_LIST_SIZE_def)
    have "circ_items sl = [] \<or> r_time p < n_time q \<or> rec_window p + rec_high p < net_num q"
      using True jump empty by auto
    then have "window_add now (rec_window p) (r_time p < n_time q) (rec_high p) (net_num q) (circ_items sl)
        = (replicate (min (rec_window p) (net_num q)) 0)[0 := now]"
      using l k by (intro window_add_fresh) auto
    moreover have "r_time p < n_time q \<or> r_id p < n_id q"
      using True jump empty k by (auto simp: rec_high_def net_num_def word_less_nat_alt)
    ultimately show ?thesis using packet_id_add_fresh [OF inv sl now k True] by simp
  next
    case False
    then have "n_time q = r_time p" using t by auto
    then show ?thesis using packet_id_add_same [OF inv sl now k _ acc False] by simp
  qed
qed

subsection \<open>Expiry\<close>

lemma reap_loop_ok:
  assumes "circ_wf sl" and "\<forall>i \<in> set idx. 0 \<le> i \<and> i < x_size sl"
  shows "\<exists>sl'. reap_loop now tb idx expire sl = Some sl' \<and> circ_wf sl' \<and> x_cap sl' = x_cap sl
    \<and> x_size sl' = x_size sl
    \<and> (\<forall>j < length (circ_items sl). circ_items sl ! j \<noteq> 0 \<longrightarrow> circ_items sl' ! j \<noteq> 0)"
  using assms
proof (induction idx arbitrary: expire sl)
  case Nil
  then show ?case by simp
next
  case (Cons i idx)
  define n where "n = nat i"
  have n: "i = int n" "n < length (circ_items sl)"
    using Cons.prems by (auto simp: n_def length_circ_items)
  have item: "CIRC_LIST_ITEM sl i = Some (circ_items sl ! n)"
    using CIRC_LIST_ITEM_nat [OF Cons.prems(1) n(2)] n(1) by simp
  obtain sl1 where sl1: "CIRC_LIST_ITEM_set sl i SEQ_EXPIRED = Some sl1" "circ_wf sl1"
    "circ_items sl1 = (circ_items sl)[n := SEQ_EXPIRED]" "x_cap sl1 = x_cap sl"
    using CIRC_LIST_ITEM_set_nat [OF Cons.prems(1) n(2)] n(1) by blast
  have size1: "x_size sl1 = x_size sl"
    using arg_cong [OF sl1(3), of length] sl1(2) Cons.prems(1)
    by (simp add: length_circ_items circ_wf_def eq_nat_nat_iff)
  have keep1: "\<forall>j < length (circ_items sl). circ_items sl ! j \<noteq> 0 \<longrightarrow> circ_items sl1 ! j \<noteq> 0"
    using n(2) by (auto simp: sl1(3) nth_list_update SEQ_EXPIRED_def)
  have rest: "\<exists>sl'. reap_loop now tb idx e sl0 = Some sl' \<and> circ_wf sl' \<and> x_cap sl' = x_cap sl0
      \<and> x_size sl' = x_size sl0
      \<and> (\<forall>j < length (circ_items sl0). circ_items sl0 ! j \<noteq> 0 \<longrightarrow> circ_items sl' ! j \<noteq> 0)"
    if "circ_wf sl0" "x_size sl0 = x_size sl" for e sl0
    using Cons.prems that by (intro Cons.IH) auto
  show ?case
  proof (cases "circ_items sl ! n = SEQ_EXPIRED")
    case True
    then show ?thesis using item Cons.prems by simp
  next
    case False
    let ?e = "expire \<or> (circ_items sl ! n \<noteq> 0 \<and> circ_items sl ! n + tb < now)"
    show ?thesis
    proof (cases ?e)
      case True
      obtain sl' where "reap_loop now tb idx ?e sl1 = Some sl'" "circ_wf sl'" "x_cap sl' = x_cap sl1"
        "x_size sl' = x_size sl1"
        "\<forall>j < length (circ_items sl1). circ_items sl1 ! j \<noteq> 0 \<longrightarrow> circ_items sl' ! j \<noteq> 0"
        using rest [OF sl1(2) size1, of ?e] by blast
      then show ?thesis
        using True False item sl1 size1 keep1 by (auto simp: Let_def)
    next
      case e: False
      then show ?thesis using False item rest [of sl ?e] Cons.prems by (auto simp: Let_def)
    qed
  qed
qed

lemma packet_id_reap_ok:
  assumes "rec_inv p"
  shows "\<exists>p'. packet_id_reap now p = Some p' \<and> rec_inv p' \<and> r_time p' = r_time p \<and> r_id p' = r_id p
    \<and> r_seq_backtrack p' = r_seq_backtrack p \<and> (r_seq_list p' = None \<longleftrightarrow> r_seq_list p = None)
    \<and> (\<forall>q. rec_covered p q \<longrightarrow> rec_covered p' q)"
proof (cases "r_time_backtrack p = 0")
  case True
  then show ?thesis using assms by (auto simp: packet_id_reap_def)
next
  case False
  then obtain sl where sl: "r_seq_list p = Some sl"
    using assms by (auto simp: rec_inv_def split: option.splits)
  note l = rec_inv_list [OF assms sl]
  obtain sl' where sl': "reap_loop now (r_time_backtrack p) (map int [0..<nat (CIRC_LIST_SIZE sl)]) False sl = Some sl'"
    "circ_wf sl'" "x_cap sl' = x_cap sl" "x_size sl' = x_size sl"
    "\<forall>j < length (circ_items sl). circ_items sl ! j \<noteq> 0 \<longrightarrow> circ_items sl' ! j \<noteq> 0"
  proof -
    have "\<forall>i \<in> set (map int [0..<nat (CIRC_LIST_SIZE sl)]). 0 \<le> i \<and> i < x_size sl"
      by (auto simp: CIRC_LIST_SIZE_def)
    from reap_loop_ok [OF l(1) this] show thesis using that by blast
  qed
  have len: "length (circ_items sl') = length (circ_items sl)" using sl' by (simp add: length_circ_items)
  define p' where "p' = p\<lparr>r_seq_list := Some sl', r_last_reap := now\<rparr>"
  have "rec_inv p'" using assms sl sl' by (simp add: p'_def rec_inv_def)
  moreover have "rec_covered p' q" if "rec_covered p q" for q
    using that sl sl' len by (auto simp: p'_def rec_covered_def not_le)
  ultimately show ?thesis using False sl sl' by (auto simp: packet_id_reap_def p'_def)
qed

subsection \<open>The window as sets\<close>

text \<open>
  The specification of the window: the time and the highest number seen, and the set of numbers
  of the window that are taken.
\<close>

record awin =
  aw_time :: time_t
  aw_hi :: nat
  aw_seen :: "nat set"

definition awin_accepts :: "nat \<Rightarrow> awin \<Rightarrow> packet_id_net \<Rightarrow> bool" where
  "awin_accepts w a q \<longleftrightarrow> net_num q \<noteq> 0 \<and>
     (aw_time a < n_time q \<or>
      (n_time q = aw_time a \<and>
        (aw_hi a < net_num q \<or> (aw_hi a - net_num q < w \<and> net_num q \<notin> aw_seen a))))"

definition awin_add :: "nat \<Rightarrow> awin \<Rightarrow> packet_id_net \<Rightarrow> awin" where
  "awin_add w a q =
     (let k = net_num q
      in if aw_time a < n_time q then \<lparr>aw_time = n_time q, aw_hi = k, aw_seen = {k}\<rparr>
         else let hi = max (aw_hi a) k
              in \<lparr>aw_time = aw_time a, aw_hi = hi, aw_seen = {j \<in> insert k (aw_seen a). hi - j < w}\<rparr>)"

definition rec_abs :: "packet_id_rec \<Rightarrow> awin" where
  "rec_abs p = \<lparr>aw_time = r_time p, aw_hi = rec_high p,
     aw_seen = {k. 0 < k \<and> k \<le> rec_high p \<and>
       (case r_seq_list p of None \<Rightarrow> False
        | Some sl \<Rightarrow> rec_high p - k < length (circ_items sl) \<and> circ_items sl ! (rec_high p - k) \<noteq> 0)}\<rparr>"

lemma rec_covered_awin:
  assumes "rec_inv p" and "r_seq_list p = Some sl"
  shows "awin_accepts (rec_window p) (rec_abs p) q \<longleftrightarrow> \<not> rec_covered p q"
  using rec_inv_list [OF assms] assms(2)
  by (auto simp: awin_accepts_def rec_abs_def rec_covered_def)

lemma window_add_length:
  "length xs = min w hi \<Longrightarrow> 0 < k \<Longrightarrow> length (window_add now w nt hi k xs) = min w (if nt \<or> hi < k then k else hi)"
  by (auto simp: window_add_def)

lemma window_add_nth:
  assumes "length xs = min w hi" and "0 < k" and "0 < w" and "hi < k \<or> hi - k < w \<or> nt" and "now \<noteq> 0"
    and "hi' = (if nt \<or> hi < k then k else hi)" and "0 < j" and "j \<le> hi'" and "hi' - j < w"
  shows "window_add now w nt hi k xs ! (hi' - j) \<noteq> 0 \<longleftrightarrow>
    j = k \<or> (\<not> nt \<and> j \<le> hi \<and> xs ! (hi - j) \<noteq> 0)"
proof -
  consider "nt" | "\<not> nt" "hi < k" | "\<not> nt" "k \<le> hi" by linarith
  then show ?thesis
  proof cases
    case 1
    with assms show ?thesis by (auto simp: window_add_def nth_list_update)
  next
    case 2
    then have hi': "hi' = k" using assms(6) by simp
    define ys where "ys = take w (replicate (k - hi) 0 @ xs)"
    have len: "k - j < length ys" using 2 assms hi' by (auto simp: ys_def)
    have nth: "ys ! (k - j) = (if hi < j then 0 else xs ! (hi - j))"
      using 2 assms hi' by (auto simp: ys_def nth_append)
    have "window_add now w nt hi k xs = ys[0 := now]"
      using 2 by (simp add: window_add_def ys_def)
    then have "window_add now w nt hi k xs ! (hi' - j) = (if j = k then now else ys ! (k - j))"
      using len hi' assms by (auto simp: nth_list_update)
    then show ?thesis using nth 2 assms hi' by auto
  next
    case 3
    with assms show ?thesis by (auto simp: window_add_def nth_list_update)
  qed
qed

lemma packet_id_add_refines:
  assumes inv: "rec_inv p" and sl: "r_seq_list p = Some sl" and now: "1 < now"
    and acc: "awin_accepts (rec_window p) (rec_abs p) q"
  shows "\<exists>p'. packet_id_add now p q = Some p' \<and> rec_inv p' \<and> rec_window p' = rec_window p
    \<and> r_seq_list p' \<noteq> None \<and> rec_abs p' = awin_add (rec_window p) (rec_abs p) q"
proof -
  note l = rec_inv_list [OF inv sl]
  let ?w = "rec_window p" and ?hi = "rec_high p" and ?k = "net_num q" and ?nt = "r_time p < n_time q"
  let ?hi' = "if ?nt \<or> ?hi < ?k then ?k else ?hi"
  have k: "0 < ?k" "r_time p \<le> n_time q" using acc by (auto simp: awin_accepts_def rec_abs_def)
  have win: "?hi < ?k \<or> ?hi - ?k < ?w \<or> ?nt" using acc by (auto simp: awin_accepts_def rec_abs_def)
  have "\<not> rec_covered p q" using acc rec_covered_awin [OF inv sl] by simp
  then obtain sl' where add: "packet_id_add now p q =
      Some (p\<lparr>r_id := (if ?nt \<or> r_id p < n_id q then n_id q else r_id p),
              r_time := n_time q, r_seq_list := Some sl'\<rparr>)"
    and sl': "circ_wf sl'" "x_cap sl' = x_cap sl"
      "circ_items sl' = window_add now ?w ?nt ?hi ?k (circ_items sl)"
    using packet_id_add_window [OF inv sl now] by blast
  define p' where "p' = p\<lparr>r_id := (if ?nt \<or> r_id p < n_id q then n_id q else r_id p),
      r_time := n_time q, r_seq_list := Some sl'\<rparr>"
  have hi': "rec_high p' = ?hi'" "rec_window p' = ?w"
    by (auto simp: p'_def rec_high_def net_num_def rec_window_def word_less_nat_alt)
  have len: "length (circ_items sl') = min ?w ?hi'"
    using window_add_length [OF l(5) k(1)] sl'(3) by simp
  then have "x_size sl' = int (min ?w ?hi')"
    using sl'(1) unfolding length_circ_items circ_wf_def by linarith
  then have inv': "rec_inv p'"
    using inv sl sl' hi' l by (simp add: rec_inv_def p'_def)
  have seen: "circ_items sl' ! (?hi' - j) \<noteq> 0 \<longleftrightarrow>
      j = ?k \<or> (\<not> ?nt \<and> j \<le> ?hi \<and> circ_items sl ! (?hi - j) \<noteq> 0)"
    if "0 < j" "j \<le> ?hi'" "?hi' - j < ?w" for j
    using window_add_nth [OF l(5) k(1) l(3) win _ refl that, of now] now sl'(3) by simp
  have "rec_abs p' = awin_add ?w (rec_abs p) q"
  proof (cases ?nt)
    case True
    have "{j. 0 < j \<and> j \<le> ?k \<and> ?k - j < min ?w ?k \<and> circ_items sl' ! (?k - j) \<noteq> 0} = {?k}"
      using seen seen [of ?k] True k(1) l(3) by (auto simp: min_def split: if_splits)
    then show ?thesis
      using True len hi' by (simp add: rec_abs_def awin_add_def Let_def) (simp add: p'_def)
  next
    case False
    then have t: "n_time q = r_time p" using k by simp
    let ?h = "max ?hi ?k"
    have h: "?hi' = ?h" using False by simp
    have "j \<in> aw_seen (rec_abs p') \<longleftrightarrow> 0 < j \<and> j \<le> ?h \<and> ?h - j < ?w
        \<and> (j = ?k \<or> (j \<le> ?hi \<and> circ_items sl ! (?hi - j) \<noteq> 0))" for j
    proof -
      have "j \<in> aw_seen (rec_abs p') \<longleftrightarrow>
          0 < j \<and> j \<le> ?h \<and> ?h - j < min ?w ?h \<and> circ_items sl' ! (?h - j) \<noteq> 0"
        using len hi'(1) unfolding h by (simp add: rec_abs_def p'_def)
      then show ?thesis using seen [of j] False unfolding h by auto
    qed
    moreover have "j \<in> aw_seen (awin_add ?w (rec_abs p) q) \<longleftrightarrow> 0 < j \<and> j \<le> ?h \<and> ?h - j < ?w
        \<and> (j = ?k \<or> (j \<le> ?hi \<and> circ_items sl ! (?hi - j) \<noteq> 0))" for j
      using False t k(1) sl l(5) by (auto simp: awin_add_def rec_abs_def Let_def)
    ultimately have "aw_seen (rec_abs p') = aw_seen (awin_add ?w (rec_abs p) q)" by blast
    moreover have "aw_time (rec_abs p') = aw_time (awin_add ?w (rec_abs p) q)"
      "aw_hi (rec_abs p') = aw_hi (awin_add ?w (rec_abs p) q)"
      using False t hi'(1) unfolding h by (auto simp: rec_abs_def awin_add_def Let_def p'_def)
    ultimately show ?thesis by simp
  qed
  then show ?thesis using add inv' hi' by (auto simp: p'_def)
qed

lemma awin_add_covers:
  assumes "awin_accepts w a q" and "0 < w"
  shows "\<not> awin_accepts w (awin_add w a q) q"
    and "awin_accepts w (awin_add w a q) r \<Longrightarrow> awin_accepts w a r"
  using assms by (auto simp: awin_accepts_def awin_add_def Let_def split: if_splits)

subsection \<open>One reception\<close>

lemma packet_id_reap_test_ok:
  assumes "rec_inv p"
  shows "\<exists>p'. packet_id_reap_test now p = Some p' \<and> rec_inv p' \<and> r_time p' = r_time p \<and> r_id p' = r_id p
    \<and> r_seq_backtrack p' = r_seq_backtrack p \<and> (r_seq_list p' = None \<longleftrightarrow> r_seq_list p = None)
    \<and> (\<forall>q. rec_covered p q \<longrightarrow> rec_covered p' q)"
  using packet_id_reap_ok [OF assms, of now] assms by (auto simp: packet_id_reap_test_def)

lemma packet_id_add_covers:
  assumes inv: "rec_inv p" and now: "1 < now" and test: "packet_id_test p q = Some (True, p1)"
  shows "\<exists>p'. packet_id_add now p1 q = Some p' \<and> rec_inv p' \<and> rec_covered p' q
    \<and> (\<forall>r. rec_covered p r \<longrightarrow> rec_covered p' r)"
proof -
  obtain m where p1: "p1 = p\<lparr>r_max_backtrack_stat := m\<rparr>" and acc: "\<not> rec_covered p q"
    and tcp: "r_seq_list p = None \<longrightarrow>
      (if n_time q = r_time p then r_id p = 0 \<or> n_id q = r_id p + 1 else n_id q = 1)"
    using packet_id_test_spec [OF inv, of q] test by auto
  have inv1: "rec_inv p1" and cov1: "rec_covered p1 r = rec_covered p r" for r
    using inv by (simp_all add: p1)
  show ?thesis
  proof (cases "r_seq_list p1")
    case None
    define p' where "p' = p1\<lparr>r_time := n_time q, r_id := n_id q\<rparr>"
    have "packet_id_add now p1 q = Some p'" using None by (simp add: packet_id_add_def p'_def)
    moreover have "rec_inv p'" using inv1 None by (simp add: p'_def rec_inv_def)
    moreover have "rec_covered p' q" using None by (simp add: p'_def rec_covered_def rec_high_def net_num_def)
    moreover have "rec_covered p' r" if "rec_covered p r" for r
      using that acc None p1 by (auto simp: p'_def rec_covered_def rec_high_def net_num_def)
    ultimately show ?thesis by blast
  next
    case (Some sl)
    have a: "awin_accepts (rec_window p1) (rec_abs p1) q"
      using rec_covered_awin [OF inv1 Some] acc cov1 by simp
    obtain p' where p': "packet_id_add now p1 q = Some p'" "rec_inv p'" "rec_window p' = rec_window p1"
      "r_seq_list p' \<noteq> None" "rec_abs p' = awin_add (rec_window p1) (rec_abs p1) q"
      using packet_id_add_refines [OF inv1 Some now a] by blast
    obtain sl' where sl': "r_seq_list p' = Some sl'" using p'(4) by auto
    have cov': "rec_covered p' r \<longleftrightarrow> \<not> awin_accepts (rec_window p1) (awin_add (rec_window p1) (rec_abs p1) q) r" for r
      using rec_covered_awin [OF p'(2) sl', of r] p' by simp
    have "rec_covered p' q" using awin_add_covers(1) [OF a] rec_inv_list(3) [OF inv1 Some] cov' by simp
    moreover have "rec_covered p' r" if "rec_covered p r" for r
      using that awin_add_covers(2) [OF a, of r] rec_inv_list(3) [OF inv1 Some] cov' cov1
        rec_covered_awin [OF inv1 Some, of r] by blast
    ultimately show ?thesis using p' by blast
  qed
qed

lemma replay_check_step:
  assumes "rec_inv p" and "1 < now"
  shows "\<exists>ok p'. replay_check now p q = Some (ok, p') \<and> rec_inv p' \<and> (\<forall>r. rec_covered p r \<longrightarrow> rec_covered p' r)
    \<and> (ok \<longrightarrow> \<not> rec_covered p q \<and> rec_covered p' q)"
proof -
  obtain p1 where p1: "packet_id_reap_test now p = Some p1" "rec_inv p1"
    "\<forall>r. rec_covered p r \<longrightarrow> rec_covered p1 r"
    using packet_id_reap_test_ok [OF assms(1)] by blast
  obtain ok m where t: "packet_id_test p1 q = Some (ok, p1\<lparr>r_max_backtrack_stat := m\<rparr>)"
    "ok \<longrightarrow> \<not> rec_covered p1 q"
    using packet_id_test_spec [OF p1(2), of q] by auto
  show ?thesis
  proof (cases ok)
    case True
    then have "packet_id_test p1 q = Some (True, p1\<lparr>r_max_backtrack_stat := m\<rparr>)" using t(1) by simp
    from packet_id_add_covers [OF p1(2) assms(2) this]
    obtain p2 where "packet_id_add now (p1\<lparr>r_max_backtrack_stat := m\<rparr>) q = Some p2" "rec_inv p2"
      "rec_covered p2 q" "\<forall>r. rec_covered p1 r \<longrightarrow> rec_covered p2 r"
      by blast
    then show ?thesis using p1 t True by (auto simp: replay_check_def)
  next
    case False
    then show ?thesis using p1 t by (auto simp: replay_check_def)
  qed
qed

interpretation pid: replay_filter replay_check rec_inv rec_covered "\<lambda>now. 1 < now"
  by unfold_locales (rule replay_check_step)

lemma packet_id_init_inv:
  assumes "0 \<le> sb" and "sb \<le> MAX_SEQ_BACKTRACK" and "0 \<le> tb" and "tb \<le> MAX_TIME_BACKTRACK"
  shows "\<exists>p. packet_id_init sb tb name unit = Some p \<and> rec_inv (p_rec p)
    \<and> (\<forall>q. rec_covered (p_rec p) q \<longleftrightarrow> n_id q = 0 \<or> n_time q < 0)"
proof (cases "sb = 0")
  case True
  then show ?thesis
    by (auto simp: packet_id_init_def packet_id_init_recv_def cleared_packet_id_def cleared_rec_def
        rec_inv_def rec_covered_def rec_high_def net_num_def unat_eq_zero)
next
  case False
  let ?sl = "CIRC_LIST_ALLOC (0 :: time_t) sb"
  let ?r = "\<lparr>r_last_reap = 0, r_time = 0, r_id = 0, r_seq_backtrack = of_int sb, r_time_backtrack = tb,
     r_max_backtrack_stat = 0, r_initialized = True, r_seq_list = Some ?sl, r_name = name, r_unit = unit\<rparr>"
  have w: "rec_window ?r = nat sb"
    using assms by (simp add: rec_window_def unat_eq_nat_uint uint_word_of_int_eq take_bit_int_eq_self MAX_SEQ_BACKTRACK_def)
  have h: "rec_high ?r = 0" by (simp add: rec_high_def)
  have sl: "circ_wf ?sl" "circ_items ?sl = []" "x_cap ?sl = sb" "x_size ?sl = 0"
    using False assms CIRC_LIST_ALLOC_wf [of sb "0 :: time_t"] by (simp_all add: CIRC_LIST_ALLOC_def MAX_SEQ_BACKTRACK_def)
  have "packet_id_init sb tb name unit = Some (cleared_packet_id\<lparr>p_rec := ?r\<rparr>)"
    using False assms
    by (simp add: packet_id_init_def packet_id_init_recv_def cleared_packet_id_def cleared_rec_def
        assertion_def MIN_SEQ_BACKTRACK_def MIN_TIME_BACKTRACK_def)
  moreover have "rec_inv ?r" unfolding rec_inv_def using w h sl assms by (simp add: MAX_SEQ_BACKTRACK_def)
  moreover have "rec_covered ?r q \<longleftrightarrow> n_id q = 0 \<or> n_time q < 0" for q
    unfolding rec_covered_def using h sl by (auto simp: net_num_def unat_eq_zero)
  ultimately show ?thesis by (simp add: cleared_packet_id_def)
qed
end
