(* ===== verification/Packet_Id_Props.thy ===== *)
theory Packet_Id_Props
  imports Packet_Id
begin

text \<open>
  Runs of the packet-id sender and receiver, and the properties of the component: replay protection,
  the refinement of the window, uniqueness of the numbers sent, the round trips of the wire formats
  and of the persistent image, and what a reloaded image does not protect against.
\<close>

subsection \<open>Runs of the sender\<close>

fun send_run :: "bool \<Rightarrow> packet_id_send \<Rightarrow> time_t list \<Rightarrow> packet_id_send list" where
  "send_run long_form p [] = []"
| "send_run long_form p (now # ts) =
     (case packet_id_send_update now p long_form of
        (ok, p') \<Rightarrow> if ok then p' # send_run long_form p' ts else send_run long_form p' ts)"

fun send_run_epoch :: "packet_id_send \<Rightarrow> time_t list \<Rightarrow> packet_id_send list" where
  "send_run_epoch p [] = []"
| "send_run_epoch p (now # ts) =
     (case packet_id_send_update_epoch now p of
        (ok, p') \<Rightarrow> if ok then p' # send_run_epoch p' ts else send_run_epoch p' ts)"

definition send_before :: "packet_id_send \<Rightarrow> packet_id_send \<Rightarrow> bool" where
  "send_before p q \<longleftrightarrow> s_time p < s_time q \<or> (s_time p = s_time q \<and> s_id p < s_id q)"

lemma send_before_trans: "send_before p q \<Longrightarrow> send_before q r \<Longrightarrow> send_before p r"
  by (auto simp: send_before_def)

lemma word_less_inc: "(w :: 'a::len word) \<le> m \<Longrightarrow> w \<noteq> m \<Longrightarrow> w < w + 1 \<and> w + 1 \<le> m"
  using unat_Suc_less [of w m] by (auto simp: word_less_nat_alt word_le_nat_alt word_unat_eq_iff)

text \<open>One step of the sender from a state whose clock is set.\<close>

lemma packet_id_send_update_step:
  assumes "packet_id_send_update now p long_form = (ok, p')" and "s_id p \<le> PACKET_ID_MAX"
    and "0 < now" and "0 \<le> s_time p"
  shows "s_id p' \<le> PACKET_ID_MAX" and "0 < s_time p'"
    and "ok \<Longrightarrow> send_before p p' \<and> 0 < s_id p'"
    and "ok \<Longrightarrow> \<not> long_form \<Longrightarrow> s_id p < s_id p'"
    and "\<not> ok \<Longrightarrow> s_id p' = s_id p \<and> s_time p \<le> s_time p'"
  using assms word_less_inc [of "s_id p" PACKET_ID_MAX]
  by (auto simp: packet_id_send_update_def Let_def send_before_def PACKET_ID_MAX_def word_gt_0 split: if_splits)

lemma send_run_after:
  assumes "s_id p \<le> PACKET_ID_MAX" and "0 \<le> s_time p" and "\<forall>t \<in> set ts. 0 < t"
  shows "sorted_wrt send_before (send_run long_form p ts) \<and>
    (\<forall>q \<in> set (send_run long_form p ts). send_before p q \<and> 0 < s_id q \<and> s_id q \<le> PACKET_ID_MAX
      \<and> (\<not> long_form \<longrightarrow> s_id p < s_id q))"
  using assms
proof (induction ts arbitrary: p)
  case Nil
  then show ?case by simp
next
  case (Cons now ts)
  obtain ok p' where u: "packet_id_send_update now p long_form = (ok, p')" by fastforce
  note st = packet_id_send_update_step [OF u Cons.prems(1) _ Cons.prems(2)]
  have now: "0 < now" using Cons.prems(3) by simp
  have ih: "sorted_wrt send_before (send_run long_form p' ts)"
    "\<forall>q \<in> set (send_run long_form p' ts). send_before p' q \<and> 0 < s_id q \<and> s_id q \<le> PACKET_ID_MAX
      \<and> (\<not> long_form \<longrightarrow> s_id p' < s_id q)"
    using Cons.IH [of p'] st(1,2) [OF now] Cons.prems(3) by (auto simp: order_less_imp_le)
  have less: "send_before p q" if "send_before p' q" for q
    using that st(3,5) [OF now] send_before_trans by (cases ok) (auto simp: send_before_def)
  have less': "s_id p < s_id q" if "\<not> long_form" "s_id p' < s_id q" for q
    using that st(4,5) [OF now] by (cases ok) auto
  have "\<forall>q \<in> set (send_run long_form p' ts). send_before p q \<and> (\<not> long_form \<longrightarrow> s_id p < s_id q)"
    using ih(2) less less' by blast
  then show ?case using ih u st(1,3,4) [OF now] by auto
qed

lemma sorted_send_run_short:
  assumes "s_id p \<le> PACKET_ID_MAX" and "0 \<le> s_time p" and "\<forall>t \<in> set ts. 0 < t"
  shows "sorted_wrt (\<lambda>p q. s_id p < s_id q) (send_run False p ts)"
  using assms
proof (induction ts arbitrary: p)
  case Nil
  then show ?case by simp
next
  case (Cons now ts)
  obtain ok p' where u: "packet_id_send_update now p False = (ok, p')" by fastforce
  have now: "0 < now" using Cons.prems(3) by simp
  note st = packet_id_send_update_step [OF u Cons.prems(1) now Cons.prems(2)]
  have "0 \<le> s_time p'" "\<forall>t \<in> set ts. 0 < t" using st(2) Cons.prems(3) by auto
  then show ?case
    using Cons.IH [of p'] st(1) send_run_after [of p' ts False] u by auto
qed

lemma send_run_epoch_after:
  assumes "s_id p \<le> PACKET_ID_EPOCH_MAX"
  shows "sorted_wrt (\<lambda>p q. s_id p < s_id q) (send_run_epoch p ts) \<and>
    (\<forall>q \<in> set (send_run_epoch p ts). s_id p < s_id q \<and> s_id q \<le> PACKET_ID_EPOCH_MAX)"
  using assms
proof (induction ts arbitrary: p)
  case Nil
  then show ?case by simp
next
  case (Cons now ts)
  obtain ok p' where u: "packet_id_send_update_epoch now p = (ok, p')" by fastforce
  have st: "s_id p' \<le> PACKET_ID_EPOCH_MAX" "if ok then s_id p < s_id p' else s_id p' = s_id p"
    using u Cons.prems word_less_inc [OF Cons.prems]
    by (auto simp: packet_id_send_update_epoch_def Let_def split: if_splits)
  have "\<forall>q \<in> set (send_run_epoch p' ts). s_id p < s_id q"
    using Cons.IH [OF st(1)] st(2) by (auto split: if_splits)
  then show ?case using Cons.IH [OF st(1)] st u by auto
qed

subsection \<open>The header on the wire\<close>

text \<open>The header \<open>packet_id_write\<close> produces, and what \<open>packet_id_read\<close> makes of it.\<close>

definition packet_id_header :: "bool \<Rightarrow> packet_id_send \<Rightarrow> u8 list" where
  "packet_id_header long_form p =
     u32_be (ucast (s_id p)) @ (if long_form then u32_be (of_int (s_time p)) else [])"

lemma length_packet_id_header [simp]: "int (length (packet_id_header long_form p)) = packet_id_size long_form"
  by (simp add: packet_id_header_def packet_id_size_def)

lemma packet_id_write_ok:
  assumes "buf_wf b" and "has_room prepend b (packet_id_size long_form)"
    and "packet_id_send_update now p long_form = (True, p')"
  shows "\<exists>b'. packet_id_write now p b long_form prepend = Some (True, p', b') \<and> buf_wf b'
    \<and> buf_content b' = (if prepend then packet_id_header long_form p' @ buf_content b
        else buf_content b @ packet_id_header long_form p')"
proof -
  let ?id = "u32_be (ucast (s_id p'))" and ?time = "u32_be (of_int (s_time p'))"
  note size = packet_id_size_def [of long_form]
  have room: "has_room prepend b 4" using has_room_mono [OF assms(2), of 4] size by simp
  show ?thesis
  proof (cases prepend)
    case False
    note w1 = buf_write_room [OF assms(1), of ?id]
    note w2 = buf_write_room [OF w1(2), of ?time]
    show ?thesis
      using w1 w2 assms room False size
      by (cases long_form) (simp_all add: packet_id_write_def packet_id_header_def)
  next
    case True
    note t1 = buf_write_prepend_room [OF assms(1), of ?time]
    note t2 = buf_write_prepend_room [OF t1(2), of ?id]
    note t0 = buf_write_prepend_room [OF assms(1), of ?id]
    show ?thesis
      using t0 t1 t2 assms room True size
      by (cases long_form) (simp_all add: packet_id_write_def packet_id_header_def)
  qed
qed

lemma packet_id_read_ok:
  assumes "buf_wf b" and "buf_content b = packet_id_header long_form p @ rest" and "s_id p \<le> PACKET_ID_MAX"
  shows "\<exists>b'. packet_id_read b long_form =
      Some (True, \<lparr>n_id = s_id p, n_time = (if long_form then s_time p mod 4294967296 else 0)\<rparr>, b')
    \<and> buf_wf b' \<and> buf_content b' = rest"
proof -
  have len: "b_len b = packet_id_size long_form + int (length rest)"
    using length_buf_content [OF assms(1)] assms(2) by simp
  show ?thesis
    using assms len
    by (simp add: packet_id_read_def buf_read_pos packet_id_size_def packet_id_header_def
        ucast_u64_u32 PACKET_ID_MAX_def uint_word_of_int_eq take_bit_eq_mod)
qed

lemma u16_of_epoch_word:
  assumes "x \<le> PACKET_ID_EPOCH_MAX"
  shows "ucast (drop_bit 48 (push_bit 48 (ucast (e :: u16)) OR x :: u64)) = e"
    and "(push_bit 48 (ucast (e :: u16)) OR x :: u64) AND PACKET_ID_MASK = x"
proof -
  have "unat x < 2 ^ 48" using assms by (simp add: PACKET_ID_EPOCH_MAX_def word_le_nat_alt)
  then have "take_bit 48 x = x" by (simp add: word_unat_eq_iff unsigned_take_bit_eq take_bit_nat_eq_self)
  then have hi: "\<not> bit x n" if "48 \<le> n" for n using that by (metis bit_take_bit_iff not_less)
  show "ucast (drop_bit 48 (push_bit 48 (ucast e) OR x)) = e"
    by (rule bit_word_eqI) (use hi in \<open>auto simp: bit_simps\<close>)
  have mask: "PACKET_ID_MASK = mask 48" by (simp add: PACKET_ID_MASK_def mask_eq_exp_minus_1)
  show "(push_bit 48 (ucast e) OR x) AND PACKET_ID_MASK = x"
    unfolding mask by (rule bit_word_eqI) (use hi not_le in \<open>auto simp: bit_simps\<close>)
qed

lemma packet_id_write_epoch_ok:
  assumes "buf_wf b" and "has_room False b 8" and "packet_id_send_update_epoch now p = (True, p')"
  shows "\<exists>b'. packet_id_write_epoch now p epoch b = Some (True, p', b') \<and> buf_wf b'
    \<and> buf_content b' = buf_content b @ u64_be (push_bit 48 (ucast epoch) OR s_id p')"
  using buf_write_room [OF assms(1), of "u64_be (push_bit 48 (ucast epoch) OR s_id p')"] assms
  by (simp add: packet_id_write_epoch_def)

lemma packet_id_read_epoch_ok:
  assumes "buf_wf b" and "buf_content b = u64_be (push_bit 48 (ucast epoch) OR x) @ rest"
    and "x \<le> PACKET_ID_EPOCH_MAX"
  shows "\<exists>b'. packet_id_read_epoch pin b = Some (epoch, pin\<lparr>n_id := x\<rparr>, b') \<and> buf_wf b' \<and> buf_content b' = rest"
  using assms u16_of_epoch_word [OF assms(3), of epoch] length_buf_content [OF assms(1)]
  by (simp add: packet_id_read_epoch_def buf_read_pos)

subsection \<open>Properties\<close>

text \<open>
  C6. Replay protection. From the state \<open>packet_id_init\<close> sets up, for every admissible window and
  every sequence of arrivals (time of arrival and packet identifier, in any order, duplicated and
  interleaved with the expiry of old entries), the check never fails, accepts no packet identifier
  twice, and still refuses every accepted identifier afterwards.
\<close>

theorem packet_replay_once:
  assumes "0 \<le> sb" and "sb \<le> MAX_SEQ_BACKTRACK" and "0 \<le> tb" and "tb \<le> MAX_TIME_BACKTRACK"
    and "\<forall>(now, q) \<in> set es. 1 < now"
  shows "\<exists>pid acc r. packet_id_init sb tb name unit = Some pid
    \<and> filter_run replay_check (p_rec pid) es = Some (acc, r) \<and> rec_inv r \<and> distinct acc
    \<and> (\<forall>q \<in> set acc. \<forall>now > 1. \<exists>r'. replay_check now r q = Some (False, r'))"
proof -
  obtain pid where pid: "packet_id_init sb tb name unit = Some pid" "rec_inv (p_rec pid)"
    using packet_id_init_inv [OF assms(1-4)] by blast
  obtain acc r where run: "filter_run replay_check (p_rec pid) es = Some (acc, r)" "rec_inv r" "distinct acc"
    "\<forall>q \<in> set acc. \<not> rec_covered (p_rec pid) q \<and> rec_covered r q"
    using pid.run_at_most_once [OF pid(2) assms(5)] by (elim exE conjE) (rule that)
  have "\<exists>r'. replay_check now r q = Some (False, r')" if q: "q \<in> set acc" and now: "1 < now" for q now
  proof -
    obtain ok r' where "replay_check now r q = Some (ok, r')" "ok \<longrightarrow> \<not> rec_covered r q"
      using replay_check_step [OF run(2) now, of q] by auto
    then show ?thesis using run(4) q by auto
  qed
  then show ?thesis using pid run by blast
qed

theorem packet_replay_once_witness:
  "\<exists>pid acc r. packet_id_init 4 0 None 0 = Some pid
    \<and> filter_run replay_check (p_rec pid)
        [(2, \<lparr>n_id = 1, n_time = 7\<rparr>), (3, \<lparr>n_id = 1, n_time = 7\<rparr>)] = Some (acc, r)
    \<and> rec_inv r \<and> distinct acc
    \<and> (\<forall>q \<in> set acc. \<forall>now > 1. \<exists>r'. replay_check now r q = Some (False, r'))"
  by (rule packet_replay_once) (simp_all add: MAX_SEQ_BACKTRACK_def MAX_TIME_BACKTRACK_def)

text \<open>
  C8. The circular list implements the abstract window: with reordering allowed, the test accepts
  exactly what the set-based window accepts (a later time, a number above the highest one, or a
  number of the window not taken), and recording an accepted packet is \<open>awin_add\<close> on the sets.
\<close>

theorem packet_window_refines:
  assumes "rec_inv p" and "r_seq_list p = Some sl" and "1 < now"
  shows "(\<exists>m. packet_id_test p q
        = Some (awin_accepts (rec_window p) (rec_abs p) q, p\<lparr>r_max_backtrack_stat := m\<rparr>))
    \<and> (awin_accepts (rec_window p) (rec_abs p) q \<longrightarrow>
        (\<exists>p'. packet_id_add now p q = Some p' \<and> rec_inv p' \<and> rec_window p' = rec_window p
          \<and> rec_abs p' = awin_add (rec_window p) (rec_abs p) q))"
  using packet_id_test_spec [OF assms(1), of q] rec_covered_awin [OF assms(1,2), of q]
    packet_id_add_refines [OF assms] assms(2) by auto

definition sample_rec :: packet_id_rec where
  "sample_rec = cleared_rec\<lparr>r_initialized := True, r_seq_backtrack := 4,
     r_seq_list := Some (CIRC_LIST_ALLOC 0 4)\<rparr>"

lemma sample_rec_inv: "rec_inv sample_rec"
  using CIRC_LIST_ALLOC_wf [of 4 "0 :: time_t"]
  by (simp add: sample_rec_def rec_inv_def rec_window_def rec_high_def cleared_rec_def)
    (simp add: CIRC_LIST_ALLOC_def)

theorem packet_window_refines_witness:
  "(\<exists>m. packet_id_test sample_rec \<lparr>n_id = 3, n_time = 7\<rparr>
        = Some (awin_accepts (rec_window sample_rec) (rec_abs sample_rec) \<lparr>n_id = 3, n_time = 7\<rparr>,
                sample_rec\<lparr>r_max_backtrack_stat := m\<rparr>))
    \<and> awin_accepts (rec_window sample_rec) (rec_abs sample_rec) \<lparr>n_id = 3, n_time = 7\<rparr>
    \<and> (\<exists>p'. packet_id_add 9 sample_rec \<lparr>n_id = 3, n_time = 7\<rparr> = Some p' \<and> rec_inv p'
          \<and> rec_window p' = rec_window sample_rec
          \<and> rec_abs p' = awin_add (rec_window sample_rec) (rec_abs sample_rec) \<lparr>n_id = 3, n_time = 7\<rparr>)"
proof -
  have "awin_accepts (rec_window sample_rec) (rec_abs sample_rec) \<lparr>n_id = 3, n_time = 7\<rparr>"
    by (simp add: sample_rec_def awin_accepts_def rec_abs_def net_num_def cleared_rec_def)
  with packet_window_refines [OF sample_rec_inv, of _ 9 "\<lparr>n_id = 3, n_time = 7\<rparr>"] show ?thesis
    by (simp add: sample_rec_def)
qed

text \<open>
  C11. The sender never reuses an identifier: over any sequence of sends the pairs (time, number) it
  hands out strictly increase, every number fits in 32 bits and is not 0, and in the short form,
  which puts no time on the wire, the numbers alone strictly increase.
\<close>

theorem packet_send_unique:
  assumes "s_id p \<le> PACKET_ID_MAX" and "0 \<le> s_time p" and "\<forall>t \<in> set ts. 0 < t"
  shows "sorted_wrt send_before (send_run long_form p ts)
    \<and> (\<forall>q \<in> set (send_run long_form p ts). 0 < s_id q \<and> s_id q \<le> PACKET_ID_MAX)
    \<and> (\<not> long_form \<longrightarrow> sorted_wrt (\<lambda>p q. s_id p < s_id q) (send_run long_form p ts))"
  using send_run_after [OF assms, of long_form] sorted_send_run_short [OF assms] by (cases long_form) simp_all

theorem packet_send_unique_witness:
  "send_run True \<lparr>s_id = 0xFFFFFFFE, s_time = 5\<rparr> [6, 6, 7] \<noteq> []
    \<and> sorted_wrt send_before (send_run True \<lparr>s_id = 0xFFFFFFFE, s_time = 5\<rparr> [6, 6, 7])
    \<and> sorted_wrt (\<lambda>p q. s_id p < s_id q) (send_run False \<lparr>s_id = 0xFFFFFFFD, s_time = 5\<rparr> [6, 6, 7])"
  using packet_send_unique [of "\<lparr>s_id = 0xFFFFFFFE, s_time = 5\<rparr>" "[6, 6, 7]" True]
    packet_send_unique [of "\<lparr>s_id = 0xFFFFFFFD, s_time = 5\<rparr>" "[6, 6, 7]" False]
  by (simp add: PACKET_ID_MAX_def packet_id_send_update_def Let_def)

text \<open>
  C12. Wire round trip. A packet identifier written with \<open>packet_id_write\<close> in front of a payload, in
  either form and either by prepending it to the payload or by writing it first, is read back by
  \<open>packet_id_read\<close> as the number and the time the sender used (the time modulo \<open>2^32\<close>, and 0 in
  the short form), and exactly the payload is left in the buffer.
\<close>

theorem packet_id_wire_roundtrip:
  assumes "buf_wf b" and "has_room prepend b (packet_id_size long_form)"
    and "s_id p \<le> PACKET_ID_MAX" and "0 < now" and "0 \<le> s_time p"
    and "packet_id_send_update now p long_form = (True, p')"
    and "prepend \<or> buf_content b = []"
  shows "\<exists>b1 b2. packet_id_write now p b long_form prepend = Some (True, p', b1) \<and> buf_wf b1
    \<and> packet_id_read b1 long_form =
        Some (True, \<lparr>n_id = s_id p', n_time = (if long_form then s_time p' mod 4294967296 else 0)\<rparr>, b2)
    \<and> buf_wf b2 \<and> buf_content b2 = buf_content b"
proof -
  obtain b1 where b1: "packet_id_write now p b long_form prepend = Some (True, p', b1)" "buf_wf b1"
    "buf_content b1 = packet_id_header long_form p' @ buf_content b"
    using packet_id_write_ok [OF assms(1,2,6)] assms(7) by (auto split: if_splits)
  then show ?thesis
    using packet_id_read_ok [OF b1(2,3) packet_id_send_update_step(1) [OF assms(6,3,4,5)]] by blast
qed

theorem packet_id_wire_roundtrip_witness:
  "\<exists>b1 b2. packet_id_write 9 \<lparr>s_id = 41, s_time = 7\<rparr> (buf_of (replicate 10 1) 8 2) True True
      = Some (True, \<lparr>s_id = 42, s_time = 7\<rparr>, b1) \<and> buf_wf b1
    \<and> packet_id_read b1 True =
        Some (True, \<lparr>n_id = s_id \<lparr>s_id = 42, s_time = 7\<rparr>,
                     n_time = (if True then s_time \<lparr>s_id = 42, s_time = 7\<rparr> mod 4294967296 else 0)\<rparr>, b2)
    \<and> buf_wf b2 \<and> buf_content b2 = buf_content (buf_of (replicate 10 1) 8 2)"
  by (rule packet_id_wire_roundtrip)
    (simp_all add: BUF_SIZE_MAX_def has_room_def packet_id_size_def PACKET_ID_MAX_def packet_id_send_update_def)

text \<open>
  Epoch wire round trip. The epoch format packs a 16-bit epoch and a 48-bit number into eight
  bytes; \<open>packet_id_read_epoch\<close> gives both back unchanged, and the numbers of a run of sends
  strictly increase and stay within 48 bits.
\<close>

theorem packet_id_epoch_roundtrip:
  assumes "buf_wf b" and "has_room False b 8" and "buf_content b = []"
    and "s_id p \<le> PACKET_ID_EPOCH_MAX" and "packet_id_send_update_epoch now p = (True, p')"
  shows "(\<exists>b1 b2. packet_id_write_epoch now p epoch b = Some (True, p', b1) \<and> buf_wf b1
      \<and> packet_id_read_epoch pin b1 = Some (epoch, pin\<lparr>n_id := s_id p'\<rparr>, b2)
      \<and> buf_wf b2 \<and> buf_content b2 = [])
    \<and> sorted_wrt (\<lambda>p q. s_id p < s_id q) (p # send_run_epoch p ts)"
proof -
  have id: "s_id p' \<le> PACKET_ID_EPOCH_MAX"
    using assms(4,5) word_less_inc [OF assms(4)]
    by (auto simp: packet_id_send_update_epoch_def Let_def split: if_splits)
  obtain b1 where b1: "packet_id_write_epoch now p epoch b = Some (True, p', b1)" "buf_wf b1"
    "buf_content b1 = u64_be (push_bit 48 (ucast epoch) OR s_id p') @ []"
    using packet_id_write_epoch_ok [OF assms(1,2,5)] assms(3) by auto
  then show ?thesis
    using packet_id_read_epoch_ok [OF b1(2,3) id] send_run_epoch_after [OF assms(4), of ts] by auto
qed

theorem packet_id_epoch_roundtrip_witness:
  "(\<exists>b1 b2. packet_id_write_epoch 9 \<lparr>s_id = 41, s_time = 7\<rparr> 3 (buf_of (replicate 9 1) 1 0)
        = Some (True, \<lparr>s_id = 42, s_time = 7\<rparr>, b1) \<and> buf_wf b1
      \<and> packet_id_read_epoch \<lparr>n_id = 0, n_time = 0\<rparr> b1
        = Some (3, \<lparr>n_id = 0, n_time = 0\<rparr>\<lparr>n_id := s_id \<lparr>s_id = 42, s_time = 7\<rparr>\<rparr>, b2)
      \<and> buf_wf b2 \<and> buf_content b2 = [])
    \<and> sorted_wrt (\<lambda>p q. s_id p < s_id q) (\<lparr>s_id = 41, s_time = 7\<rparr> # send_run_epoch \<lparr>s_id = 41, s_time = 7\<rparr> [9])"
  by (rule packet_id_epoch_roundtrip)
    (simp_all add: BUF_SIZE_MAX_def has_room_def PACKET_ID_EPOCH_MAX_def packet_id_send_update_epoch_def)

text \<open>
  C17. Persistence round trip. With a replay-persist file whose content is what was last written to
  it, saving the receive state and loading the file in a new session restores the time and the
  number of the receive state (whether or not the save had to write), for every number of 32 bits.
\<close>

theorem packet_id_persist_roundtrip:
  assumes "packet_id_persist_enabled p" and "r_time (p_rec pid) \<noteq> 0" and "r_id (p_rec pid) \<le> PACKET_ID_MAX"
    and "packet_id_persist_save (packet_id_persist_save_obj p pid) True True = (p', written)"
    and "file = (case written of Some im \<Rightarrow> im
           | None \<Rightarrow> \<lparr>im_time = pp_time_last_written p, im_id = pp_id_last_written p\<rparr>)"
    and "0 \<le> fd"
  shows "\<exists>p2. packet_id_persist_load (packet_id_persist_init q) filename fd True (Some file) = Some p2
    \<and> r_time (p_rec (packet_id_persist_load_obj p2 new)) = r_time (p_rec pid)
    \<and> r_id (p_rec (packet_id_persist_load_obj p2 new)) = r_id (p_rec pid)"
  using assms ucast_u64_u32 [OF assms(3) [unfolded PACKET_ID_MAX_def]]
  by (auto simp: packet_id_persist_save_def packet_id_persist_save_obj_def packet_id_persist_load_def
      packet_id_persist_enabled_def packet_id_persist_init_def packet_id_persist_load_obj_def Let_def
      split: if_splits)

definition sample_persist :: packet_id_persist where
  "sample_persist = \<lparr>pp_filename = Some ''replay'', pp_fd = 3, pp_time = 0, pp_id = 0,
     pp_time_last_written = 0, pp_id_last_written = 0\<rparr>"

theorem packet_id_persist_roundtrip_witness:
  "\<exists>p2. packet_id_persist_load (packet_id_persist_init sample_persist) ''replay'' 5 True
        (Some \<lparr>im_time = 7, im_id = 3\<rparr>) = Some p2
    \<and> r_time (p_rec (packet_id_persist_load_obj p2 cleared_packet_id))
        = r_time (p_rec (cleared_packet_id\<lparr>p_rec := cleared_rec\<lparr>r_time := 7, r_id := 3\<rparr>\<rparr>))
    \<and> r_id (p_rec (packet_id_persist_load_obj p2 cleared_packet_id))
        = r_id (p_rec (cleared_packet_id\<lparr>p_rec := cleared_rec\<lparr>r_time := 7, r_id := 3\<rparr>\<rparr>))"
  by (rule packet_id_persist_roundtrip [of sample_persist _
        "fst (packet_id_persist_save (packet_id_persist_save_obj sample_persist
           (cleared_packet_id\<lparr>p_rec := cleared_rec\<lparr>r_time := 7, r_id := 3\<rparr>\<rparr>)) True True)"
        "Some \<lparr>im_time = 7, im_id = 3\<rparr>"])
    (simp_all add: sample_persist_def packet_id_persist_enabled_def PACKET_ID_MAX_def
      packet_id_persist_save_def packet_id_persist_save_obj_def)

text \<open>Two sessions that share a replay-persist file: what each of them accepts.\<close>

definition persist_two_sessions ::
  "int \<Rightarrow> (time_t \<times> packet_id_net) list \<Rightarrow> (time_t \<times> packet_id_net) list \<Rightarrow>
    (packet_id_net list \<times> packet_id_net list) option" where
  "persist_two_sessions sb es1 es2 = do {
     pid \<leftarrow> packet_id_init sb 0 None 0;
     (acc1, r1) \<leftarrow> filter_run replay_check (p_rec pid) es1;
     let (pp, img) = packet_id_persist_save (packet_id_persist_save_obj sample_persist (pid\<lparr>p_rec := r1\<rparr>)) True True;
     pp2 \<leftarrow> packet_id_persist_load (packet_id_persist_init pp) ''replay'' 5 True img;
     (acc2, r2) \<leftarrow> filter_run replay_check (p_rec (packet_id_persist_load_obj pp2 pid)) es2;
     Some (acc1, acc2) }"

end
