(* ===== verification/Reliable.thy ===== *)
theory Reliable
  imports Buffer Circ_List
begin

text \<open>
  The reliability layer of the control channel: \<^verbatim>\<open>reliable.h\<close>, \<^verbatim>\<open>reliable.c\<close>, the session
  identifiers of \<^verbatim>\<open>session_id.h\<close>, and the part of \<^verbatim>\<open>tls_pre_decrypt\<close> in \<^verbatim>\<open>ssl.c\<close> that hands a received
  control packet to it.

  A \<open>reliable\<close> structure has up to twelve entries; an entry owns a buffer and is active while it
  holds a packet that is not acknowledged (sender) or not delivered (receiver). The C code passes
  pointers to the buffer of an entry; here such a pointer is the index of the entry. Packet ids
  are 32-bit words and wrap.
\<close>

subsection \<open>Session identifiers\<close>

record session_id =
  sid_id :: "u8 list"

definition SID_SIZE :: int where
  "SID_SIZE = 8"

definition x_session_id_zero :: session_id where
  "x_session_id_zero = \<lparr>sid_id = replicate 8 0\<rparr>"

definition session_id_equal :: "session_id \<Rightarrow> session_id \<Rightarrow> bool" where
  "session_id_equal sid1 sid2 \<longleftrightarrow> take 8 (sid_id sid1) = take 8 (sid_id sid2)"

definition session_id_defined :: "session_id \<Rightarrow> bool" where
  "session_id_defined sid1 \<longleftrightarrow> take 8 (sid_id sid1) \<noteq> sid_id x_session_id_zero"

definition session_id_read :: "session_id \<Rightarrow> buffer \<Rightarrow> (bool \<times> session_id \<times> buffer) option" where
  "session_id_read sid buf = do {
     (r, b) \<leftarrow> buf_read buf SID_SIZE;
     Some (case r of None \<Rightarrow> (False, sid, b) | Some bs \<Rightarrow> (True, \<lparr>sid_id = bs\<rparr>, b)) }"

definition session_id_write_prepend :: "session_id \<Rightarrow> buffer \<Rightarrow> (bool \<times> buffer) option" where
  "session_id_write_prepend sid buf = buf_write_prepend buf (sid_id sid)"

definition session_id_write :: "session_id \<Rightarrow> buffer \<Rightarrow> (bool \<times> buffer) option" where
  "session_id_write sid buf = buf_write buf (sid_id sid)"

subsection \<open>The structures\<close>

definition RELIABLE_ACK_SIZE :: int where
  "RELIABLE_ACK_SIZE = 8"

definition RELIABLE_CAPACITY :: int where
  "RELIABLE_CAPACITY = 12"

definition N_ACK_RETRANSMIT :: u64 where
  "N_ACK_RETRANSMIT = 3"

definition BIG_TIMEOUT :: int where
  "BIG_TIMEOUT = 60 * 60 * 24 * 7"

definition P_ACK_V1 :: int where
  "P_ACK_V1 = 5"

record reliable_ack =
  a_len :: int
  a_packet_id :: "u32 list"

definition ACK_SIZE :: "int \<Rightarrow> int" where
  "ACK_SIZE n = 1 + (if n \<noteq> 0 then SID_SIZE else 0) + 4 * n"

record reliable_entry =
  e_active :: bool
  e_timeout :: int
  e_next_try :: time_t
  e_packet_id :: u32
  e_n_acks :: u64
  e_opcode :: int
  e_buf :: buffer

record reliable =
  rl_size :: int
  rl_initial_timeout :: int
  rl_packet_id :: u32
  rl_offset :: int
  rl_hold :: bool
  rl_array :: "reliable_entry list"

text \<open>
  The entries and ids the loops run over: \<^verbatim>\<open>array[0 .. size - 1]\<close> and \<^verbatim>\<open>packet_id[0 .. len - 1]\<close>.
\<close>

definition entries :: "reliable \<Rightarrow> reliable_entry list" where
  "entries rel = take (nat (rl_size rel)) (rl_array rel)"

definition ack_list :: "reliable_ack \<Rightarrow> u32 list" where
  "ack_list ack = take (nat (a_len ack)) (a_packet_id ack)"

definition upd_entry :: "reliable \<Rightarrow> nat \<Rightarrow> (reliable_entry \<Rightarrow> reliable_entry) \<Rightarrow> reliable" where
  "upd_entry rel i f = rel\<lparr>rl_array := (rl_array rel)[i := f (rl_array rel ! i)]\<rparr>"

subsection \<open>Packet-id arithmetic\<close>

definition subtract_pid :: "u32 \<Rightarrow> u32 \<Rightarrow> u32" where
  "subtract_pid test base = test - base"

definition reliable_pid_in_range1 :: "u32 \<Rightarrow> u32 \<Rightarrow> u32 \<Rightarrow> bool" where
  "reliable_pid_in_range1 test base extent \<longleftrightarrow> subtract_pid test base < extent"

definition reliable_pid_in_range2 :: "u32 \<Rightarrow> u32 \<Rightarrow> u32 \<Rightarrow> bool" where
  "reliable_pid_in_range2 test base extent \<longleftrightarrow>
     (if base + extent \<ge> base then test < base + extent
      else test + 0x80000000 < (base + 0x80000000) + extent)"

definition reliable_pid_min :: "u32 \<Rightarrow> u32 \<Rightarrow> bool" where
  "reliable_pid_min p1 p2 \<longleftrightarrow> \<not> reliable_pid_in_range1 p1 p2 0x80000000"

subsection \<open>Acknowledgments\<close>

definition reliable_ack_packet_id_present :: "reliable_ack \<Rightarrow> u32 \<Rightarrow> bool" where
  "reliable_ack_packet_id_present ack pid \<longleftrightarrow> list_ex (\<lambda>p. p = pid) (ack_list ack)"

definition reliable_ack_read_packet_id :: "buffer \<Rightarrow> (u32 option \<times> buffer) option" where
  "reliable_ack_read_packet_id buf = do {
     (r, b) \<leftarrow> buf_read buf 4;
     Some (map_option be_u32 r, b) }"

definition reliable_ack_acknowledge_packet_id :: "reliable_ack \<Rightarrow> u32 \<Rightarrow> (bool \<times> reliable_ack) option" where
  "reliable_ack_acknowledge_packet_id ack pid =
     (if \<not> reliable_ack_packet_id_present ack pid \<and> a_len ack < RELIABLE_ACK_SIZE
      then do {
        ids \<leftarrow> arr_set (a_packet_id ack) (a_len ack) pid;
        Some (True, ack\<lparr>a_packet_id := ids, a_len := a_len ack + 1\<rparr>) }
      else Some (False, ack))"

fun ack_parse_loop :: "nat \<Rightarrow> buffer \<Rightarrow> reliable_ack \<Rightarrow> (bool \<times> buffer \<times> reliable_ack) option" where
  "ack_parse_loop 0 buf ack = Some (True, buf, ack)"
| "ack_parse_loop (Suc n) buf ack = do {
     (r, b) \<leftarrow> buf_read buf 4;
     case r of
       None \<Rightarrow> Some (False, b, ack)
     | Some bs \<Rightarrow>
         if a_len ack \<ge> RELIABLE_ACK_SIZE then Some (False, b, ack)
         else do {
           ids \<leftarrow> arr_set (a_packet_id ack) (a_len ack) (be_u32 bs);
           ack_parse_loop n b (ack\<lparr>a_packet_id := ids, a_len := a_len ack + 1\<rparr>) } }"

definition reliable_ack_parse ::
  "buffer \<Rightarrow> reliable_ack \<Rightarrow> session_id \<Rightarrow> (bool \<times> buffer \<times> reliable_ack \<times> session_id) option" where
  "reliable_ack_parse buf ack session_id_remote = do {
     let ack0 = ack\<lparr>a_len := 0\<rparr>;
     (r, b) \<leftarrow> buf_read buf 1;
     case r of
       None \<Rightarrow> Some (False, b, ack0, session_id_remote)
     | Some bs \<Rightarrow> do {
         let count = unat (hd bs);
         (ok, b1, ack1) \<leftarrow> ack_parse_loop count b ack0;
         if \<not> ok then Some (False, b1, ack1, session_id_remote)
         else if count \<noteq> 0
           then do { (ok', sid, b2) \<leftarrow> session_id_read session_id_remote b1; Some (ok', b2, ack1, sid) }
           else Some (True, b1, ack1, session_id_remote) } }"

definition reliable_ack_read ::
  "reliable_ack \<Rightarrow> buffer \<Rightarrow> session_id \<Rightarrow> session_id \<Rightarrow> (bool \<times> buffer \<times> reliable_ack) option" where
  \<comment> \<open>the last argument is the uninitialised local \<^verbatim>\<open>session_id_remote\<close>\<close>
  "reliable_ack_read ack buf sid junk = do {
     (ok, b, ack', remote) \<leftarrow> reliable_ack_parse buf ack junk;
     Some (ok \<and> \<not> (a_len ack' \<ge> 1 \<and> (\<not> session_id_defined remote \<or> \<not> session_id_equal remote sid)), b, ack') }"

text \<open>The inner loop of \<open>copy_acks_to_mru\<close>: each entry moves one to the right until the id is met.\<close>

fun mru_shift :: "u32 \<Rightarrow> u32 \<Rightarrow> int list \<Rightarrow> u32 list \<Rightarrow> (bool \<times> u32 \<times> u32 list) option" where
  "mru_shift pid move [] ids = Some (False, move, ids)"
| "mru_shift pid move (j # js) ids = do {
     tmp \<leftarrow> arr_get ids j;
     ids' \<leftarrow> arr_set ids j move;
     if tmp = pid then Some (True, tmp, ids') else mru_shift pid tmp js ids' }"

definition copy_ack_to_mru :: "u32 \<Rightarrow> reliable_ack \<Rightarrow> reliable_ack option" where
  "copy_ack_to_mru pid mru = do {
     mru0 \<leftarrow> (if a_len mru = 0
              then do { ids \<leftarrow> arr_set (a_packet_id mru) 0 pid; Some (mru\<lparr>a_len := 1, a_packet_id := ids\<rparr>) }
              else Some mru);
     (idfound, move, ids) \<leftarrow> mru_shift pid pid (map int [0..<nat (a_len mru0)]) (a_packet_id mru0);
     if \<not> idfound \<and> a_len mru0 < RELIABLE_ACK_SIZE
     then do {
       ids' \<leftarrow> arr_set ids (a_len mru0) move;
       Some (mru0\<lparr>a_packet_id := ids', a_len := a_len mru0 + 1\<rparr>) }
     else Some (mru0\<lparr>a_packet_id := ids\<rparr>) }"

fun copy_acks_loop :: "u32 list \<Rightarrow> reliable_ack \<Rightarrow> reliable_ack option" where
  "copy_acks_loop [] mru = Some mru"
| "copy_acks_loop (pid # pids) mru = do { mru' \<leftarrow> copy_ack_to_mru pid mru; copy_acks_loop pids mru' }"

definition copy_acks_to_mru :: "reliable_ack \<Rightarrow> reliable_ack \<Rightarrow> int \<Rightarrow> reliable_ack option" where
  "copy_acks_to_mru ack ack_mru n = do {
     assertion (a_len ack \<ge> n);
     copy_acks_loop (rev (take (nat n) (a_packet_id ack))) ack_mru }"

text \<open>
  \<^verbatim>\<open>buf_sub\<close> gives a buffer that shares a part of the block of \<open>buf\<close>. The model copies that part out,
  and \<open>buf_sub_commit\<close> puts it back once it has been written, before \<open>buf\<close> is read again.
\<close>

definition buf_sub :: "buffer \<Rightarrow> int \<Rightarrow> bool \<Rightarrow> (buffer \<times> int \<times> buffer) option" where
  "buf_sub buf sz prepend =
     (case (if prepend then buf_prepend buf sz else buf_write_alloc buf sz) of
        (None, b) \<Rightarrow> Some (clear_buf, 0, b)
      | (Some p, b) \<Rightarrow> do {
          xs \<leftarrow> mem_read (b_data b) p sz;
          Some (\<lparr>b_capacity = sz, b_offset = 0, b_len = 0, b_data = Some xs\<rparr>, p, b) })"

definition buf_sub_commit :: "buffer \<Rightarrow> int \<Rightarrow> buffer \<Rightarrow> buffer option" where
  "buf_sub_commit buf p sub = do {
     xs \<leftarrow> b_data sub;
     blk \<leftarrow> mem_write (b_data buf) p xs;
     Some (buf\<lparr>b_data := blk\<rparr>) }"

fun ack_write_loop :: "u32 list \<Rightarrow> buffer \<Rightarrow> buffer option" where
  "ack_write_loop [] sub = Some sub"
| "ack_write_loop (pid # pids) sub = do {
     (ok, sub') \<leftarrow> buf_write sub (u32_be pid);
     assertion ok;
     ack_write_loop pids sub' }"

definition reliable_ack_write ::
  "reliable_ack \<Rightarrow> reliable_ack \<Rightarrow> buffer \<Rightarrow> session_id \<Rightarrow> int \<Rightarrow> bool \<Rightarrow>
    (bool \<times> reliable_ack \<times> reliable_ack \<times> buffer) option" where
  "reliable_ack_write ack ack_mru buf sid mx prepend = do {
     let n = (if a_len ack > mx then mx else a_len ack);
     mru \<leftarrow> copy_acks_to_mru ack ack_mru n;
     let total_acks = (of_int (min_int mx (a_len mru)) :: u8);
     (sub, p, b) \<leftarrow> buf_sub buf (ACK_SIZE (int (unat total_acks))) prepend;
     if \<not> buf_defined sub then Some (False, ack, mru, b)
     else do {
       (ok, sub1) \<leftarrow> buf_write_u8 sub total_acks;
       assertion ok;
       sub2 \<leftarrow> ack_write_loop (take (unat total_acks) (a_packet_id mru)) sub1;
       sub3 \<leftarrow> (if total_acks \<noteq> 0
                then do {
                  assertion (session_id_defined sid);
                  (ok', s) \<leftarrow> session_id_write sid sub2;
                  assertion ok';
                  Some s }
                else Some sub2);
       b' \<leftarrow> buf_sub_commit b p sub3;
       let rest = drop (nat n) (ack_list ack);
       Some (True,
         (if n \<noteq> 0 then ack\<lparr>a_packet_id := overwrite (a_packet_id ack) 0 rest, a_len := int (length rest)\<rparr> else ack),
         mru, b') } }"

definition reliable_ack_empty :: "reliable_ack \<Rightarrow> bool" where
  "reliable_ack_empty ack \<longleftrightarrow> a_len ack = 0"

definition reliable_ack_outstanding :: "reliable_ack \<Rightarrow> int" where
  "reliable_ack_outstanding ack = a_len ack"

subsection \<open>The entries\<close>

definition cleared_entry :: reliable_entry where
  "cleared_entry = \<lparr>e_active = False, e_timeout = 0, e_next_try = 0, e_packet_id = 0, e_n_acks = 0,
     e_opcode = 0, e_buf = clear_buf\<rparr>"

definition reliable_init :: "int \<Rightarrow> int \<Rightarrow> int \<Rightarrow> bool \<Rightarrow> reliable option" where
  "reliable_init buf_size off array_size hold = do {
     assertion (array_size > 0 \<and> array_size \<le> RELIABLE_CAPACITY);
     b0 \<leftarrow> alloc_buf buf_size;
     let (ok, b) = buf_init b0 off;
     assertion ok;
     Some \<lparr>rl_size = array_size, rl_initial_timeout = 0, rl_packet_id = 0, rl_offset = off, rl_hold = hold,
       rl_array = replicate (nat array_size) (cleared_entry\<lparr>e_buf := b\<rparr>)
         @ replicate (nat (RELIABLE_CAPACITY - array_size)) cleared_entry\<rparr> }"

definition reliable_free :: "reliable \<Rightarrow> reliable" where
  \<comment> \<open>the buffers are freed, then the structure itself\<close>
  "reliable_free rel = rel\<lparr>rl_array :=
     map (\<lambda>e. e\<lparr>e_buf := free_buf (e_buf e)\<rparr>) (entries rel) @ drop (nat (rl_size rel)) (rl_array rel)\<rparr>"

definition reliable_set_timeout :: "reliable \<Rightarrow> int \<Rightarrow> reliable" where
  "reliable_set_timeout rel timeout = rel\<lparr>rl_initial_timeout := timeout\<rparr>"

definition reliable_empty :: "reliable \<Rightarrow> bool" where
  "reliable_empty rel \<longleftrightarrow> \<not> list_ex e_active (entries rel)"

definition purge_entry :: "u32 \<Rightarrow> reliable_entry \<Rightarrow> reliable_entry" where
  "purge_entry pid e =
     (if e_active e \<and> e_packet_id e = pid then e\<lparr>e_active := False\<rparr>
      else if e_active e \<and> e_packet_id e < pid then e\<lparr>e_n_acks := e_n_acks e + 1\<rparr>
      else e)"

definition purge_pid :: "u32 \<Rightarrow> reliable \<Rightarrow> reliable" where
  "purge_pid pid rel = rel\<lparr>rl_array :=
     map (purge_entry pid) (entries rel) @ drop (nat (rl_size rel)) (rl_array rel)\<rparr>"

definition reliable_send_purge :: "reliable \<Rightarrow> reliable_ack \<Rightarrow> reliable" where
  "reliable_send_purge rel ack = fold purge_pid (ack_list ack) rel"

definition reliable_can_get :: "reliable \<Rightarrow> bool" where
  "reliable_can_get rel \<longleftrightarrow> list_ex (\<lambda>e. \<not> e_active e) (entries rel)"

definition reliable_not_replay :: "reliable \<Rightarrow> u32 \<Rightarrow> bool" where
  "reliable_not_replay rel pid \<longleftrightarrow>
     (if reliable_pid_min pid (rl_packet_id rel) then False
      else \<not> list_ex (\<lambda>e. e_active e \<and> e_packet_id e = pid) (entries rel))"

definition reliable_wont_break_sequentiality :: "reliable \<Rightarrow> u32 \<Rightarrow> bool" where
  "reliable_wont_break_sequentiality rel pid =
     reliable_pid_in_range2 pid (rl_packet_id rel) (of_int (rl_size rel))"

text \<open>The first index whose entry satisfies a condition, as the search loops find it.\<close>

fun find_from :: "nat \<Rightarrow> ('a \<Rightarrow> bool) \<Rightarrow> 'a list \<Rightarrow> nat option" where
  "find_from i c [] = None"
| "find_from i c (x # xs) = (if c x then Some i else find_from (Suc i) c xs)"

definition reliable_get_buf :: "reliable \<Rightarrow> (nat option \<times> reliable) option" where
  "reliable_get_buf rel =
     (case find_from 0 (\<lambda>e. \<not> e_active e) (entries rel) of
        None \<Rightarrow> Some (None, rel)
      | Some i \<Rightarrow> do {
          let (ok, b) = buf_init (e_buf (rl_array rel ! i)) (rl_offset rel);
          assertion ok;
          Some (Some i, upd_entry rel i (\<lambda>e. e\<lparr>e_buf := b\<rparr>)) })"

text \<open>The loop that finds the lowest active packet id; \<open>None\<close> is \<^verbatim>\<open>min_id_defined = false\<close>.\<close>

definition min_active_id :: "reliable_entry list \<Rightarrow> u32 option" where
  "min_active_id es = foldl (\<lambda>m e. if e_active e \<and> (case m of None \<Rightarrow> True | Some k \<Rightarrow> reliable_pid_min (e_packet_id e) k)
     then Some (e_packet_id e) else m) None es"

definition reliable_get_num_output_sequenced_available :: "reliable \<Rightarrow> int" where
  "reliable_get_num_output_sequenced_available rel =
     (case min_active_id (entries rel) of
        None \<Rightarrow> rl_size rel
      | Some min_id \<Rightarrow> sint (of_int (rl_size rel) - subtract_pid (rl_packet_id rel) min_id :: u32))"

definition reliable_get_buf_output_sequenced :: "reliable \<Rightarrow> (nat option \<times> reliable) option" where
  "reliable_get_buf_output_sequenced rel =
     (case min_active_id (entries rel) of
        None \<Rightarrow> reliable_get_buf rel
      | Some min_id \<Rightarrow>
          if reliable_pid_in_range1 (rl_packet_id rel) min_id (of_int (rl_size rel))
          then reliable_get_buf rel else Some (None, rel))"

definition reliable_get_entry_sequenced :: "reliable \<Rightarrow> nat option" where
  "reliable_get_entry_sequenced rel =
     find_from 0 (\<lambda>e. e_active e \<and> e_packet_id e = rl_packet_id rel) (entries rel)"

definition due :: "time_t \<Rightarrow> reliable_entry \<Rightarrow> bool" where
  "due now e \<longleftrightarrow> e_active e \<and> (e_n_acks e \<ge> N_ACK_RETRANSMIT \<or> now \<ge> e_next_try e)"

definition reliable_can_send :: "time_t \<Rightarrow> reliable \<Rightarrow> bool" where
  "reliable_can_send now rel \<longleftrightarrow> length (filter (due now) (entries rel)) > 0 \<and> \<not> rl_hold rel"

fun send_best :: "time_t \<Rightarrow> reliable_entry list \<Rightarrow> nat list \<Rightarrow> nat option \<Rightarrow> nat option" where
  "send_best now es [] best = best"
| "send_best now es (i # is) best = send_best now es is
     (if due now (es ! i)
         \<and> (case best of None \<Rightarrow> True | Some k \<Rightarrow> reliable_pid_min (e_packet_id (es ! i)) (e_packet_id (es ! k)))
      then Some i else best)"

definition reliable_send :: "time_t \<Rightarrow> reliable \<Rightarrow> (nat \<times> int) option \<times> reliable" where
  \<comment> \<open>the index of the entry whose buffer is returned, and its opcode\<close>
  "reliable_send now rel =
     (case send_best now (rl_array rel) [0..<nat (rl_size rel)] None of
        None \<Rightarrow> (None, rel)
      | Some i \<Rightarrow> (Some (i, e_opcode (rl_array rel ! i)),
          upd_entry rel i (\<lambda>e. e\<lparr>e_next_try := now + e_timeout e, e_timeout := e_timeout e * 2, e_n_acks := 0\<rparr>)))"

definition reliable_schedule_now :: "time_t \<Rightarrow> reliable \<Rightarrow> reliable" where
  "reliable_schedule_now now rel = rel\<lparr>rl_hold := False, rl_array :=
     map (\<lambda>e. if e_active e then e\<lparr>e_next_try := now, e_timeout := rl_initial_timeout rel\<rparr> else e) (entries rel)
       @ drop (nat (rl_size rel)) (rl_array rel)\<rparr>"

fun send_timeout_loop :: "time_t \<Rightarrow> reliable_entry list \<Rightarrow> int \<Rightarrow> int" where
  "send_timeout_loop local_now [] ret = ret"
| "send_timeout_loop local_now (e # es) ret =
     (if e_active e
      then if e_next_try e \<le> local_now then 0
           else send_timeout_loop local_now es (min_int ret (e_next_try e - local_now))
      else send_timeout_loop local_now es ret)"

definition reliable_send_timeout :: "time_t \<Rightarrow> reliable \<Rightarrow> int" where
  "reliable_send_timeout now rel = send_timeout_loop now (entries rel) BIG_TIMEOUT"

definition reliable_mark_active_incoming :: "reliable \<Rightarrow> nat \<Rightarrow> u32 \<Rightarrow> int \<Rightarrow> reliable option" where
  "reliable_mark_active_incoming rel i pid opcode = do {
     assertion (i < length (entries rel));
     assertion (\<not> reliable_pid_min pid (rl_packet_id rel));
     Some (upd_entry rel i (\<lambda>e. e\<lparr>e_active := True, e_packet_id := pid, e_opcode := opcode,
       e_next_try := 0, e_timeout := 0, e_n_acks := 0\<rparr>)) }"

definition reliable_mark_active_outgoing :: "reliable \<Rightarrow> nat \<Rightarrow> int \<Rightarrow> reliable option" where
  "reliable_mark_active_outgoing rel i opcode = do {
     assertion (i < length (entries rel));
     let pid = rl_packet_id rel;
     (ok, b) \<leftarrow> buf_write_prepend (e_buf (rl_array rel ! i)) (u32_be pid);
     assertion ok;
     Some (upd_entry (rel\<lparr>rl_packet_id := pid + 1\<rparr>) i
       (\<lambda>e. e\<lparr>e_packet_id := pid, e_buf := b, e_active := True, e_opcode := opcode, e_next_try := 0,
             e_timeout := rl_initial_timeout rel\<rparr>)) }"

definition reliable_mark_deleted :: "reliable \<Rightarrow> nat \<Rightarrow> reliable option" where
  "reliable_mark_deleted rel i = do {
     assertion (i < length (entries rel));
     Some ((upd_entry rel i (\<lambda>e. e\<lparr>e_active := False\<rparr>))\<lparr>rl_packet_id := e_packet_id (rl_array rel ! i) + 1\<rparr>) }"

subsection \<open>The control channel's receive path\<close>

text \<open>The reliability state of a \<^verbatim>\<open>key_state\<close>.\<close>

record key_state =
  ks_send_reliable :: reliable
  ks_rec_reliable :: reliable
  ks_rec_ack :: reliable_ack

text \<open>
  The end of \<^verbatim>\<open>tls_pre_decrypt\<close> for a packet of a known session: the acknowledgments it carries purge
  the send buffer, and the packet itself is stored and acknowledged. The first result is whether
  the packet was processed without error.
\<close>

definition control_packet_store ::
  "key_state \<Rightarrow> int \<Rightarrow> buffer \<Rightarrow> (bool \<times> key_state \<times> buffer) option" where
  "control_packet_store ks op buf =
     (if op \<noteq> P_ACK_V1 \<and> reliable_can_get (ks_rec_reliable ks)
      then do {
        (r, b) \<leftarrow> reliable_ack_read_packet_id buf;
        case r of
          None \<Rightarrow> Some (True, ks, b)
        | Some pid \<Rightarrow>
            if reliable_wont_break_sequentiality (ks_rec_reliable ks) pid
            then do {
              (ok, ks1) \<leftarrow>
                (if reliable_not_replay (ks_rec_reliable ks) pid
                 then do {
                   (slot, rel) \<leftarrow> reliable_get_buf (ks_rec_reliable ks);
                   i \<leftarrow> slot;
                   (copied, dst) \<leftarrow> buf_copy (e_buf (rl_array rel ! i)) b;
                   let rel' = upd_entry rel i (\<lambda>e. e\<lparr>e_buf := dst\<rparr>);
                   if \<not> copied then Some (False, ks\<lparr>ks_rec_reliable := rel'\<rparr>)
                   else do {
                     rel'' \<leftarrow> reliable_mark_active_incoming rel' i pid op;
                     Some (True, ks\<lparr>ks_rec_reliable := rel''\<rparr>) } }
                 else Some (True, ks));
              if \<not> ok then Some (False, ks1, b)
              else do {
                (_, ack) \<leftarrow> reliable_ack_acknowledge_packet_id (ks_rec_ack ks1) pid;
                Some (True, ks1\<lparr>ks_rec_ack := ack\<rparr>, b) } }
            else Some (True, ks, b) }
      else Some (True, ks, buf))"

definition control_packet_in ::
  "key_state \<Rightarrow> session_id \<Rightarrow> int \<Rightarrow> reliable_ack \<Rightarrow> session_id \<Rightarrow> buffer \<Rightarrow> (bool \<times> key_state \<times> buffer) option" where
  \<comment> \<open>\<open>send_ack\<close> and \<open>junk\<close> are the uninitialised locals of the C code\<close>
  "control_packet_in ks sid op send_ack junk buf = do {
     (ok, b, ack) \<leftarrow> reliable_ack_read send_ack buf sid junk;
     if \<not> ok then Some (False, ks, b)
     else control_packet_store (ks\<lparr>ks_send_reliable := reliable_send_purge (ks_send_reliable ks) ack\<rparr>) op b }"

text \<open>
  Delivery to the TLS object: the next packet in sequence, if it is there, is handed over and its
  entry released.
\<close>

definition control_packet_deliver :: "reliable \<Rightarrow> ((u32 \<times> u8 list) option \<times> reliable) option" where
  "control_packet_deliver rel =
     (case reliable_get_entry_sequenced rel of
        None \<Rightarrow> Some (None, rel)
      | Some i \<Rightarrow> do {
          bs \<leftarrow> bptr_read (e_buf (rl_array rel ! i)) (b_len (e_buf (rl_array rel ! i)));
          rel' \<leftarrow> reliable_mark_deleted rel i;
          Some (Some (e_packet_id (rl_array rel ! i), bs), rel') })"
end
