(* ===== verification/Ordered_Delivery.thy ===== *)
theory Ordered_Delivery
  imports Prelude
begin

text \<open>
  The contract of a receiver that puts the packets of a lossy, duplicating and reordering channel
  back in order, and what it gives for whole runs. The receiver has a state \<open>'s\<close> with the number
  \<open>next_no s\<close> of the next packet to deliver; \<open>put\<close> takes a packet from the channel, \<open>get\<close> delivers
  the next packet if it has arrived. The channel is honest: a packet it delivers under number \<open>n\<close>
  carries what the peer sent as number \<open>n\<close>, that is, \<open>sent n\<close>. \<open>limit\<close> is the number up to which
  the arithmetic of the receiver is trusted.
\<close>

datatype 'p receiver_action = Arrive 'p | Deliver

fun receiver_run :: "('s \<Rightarrow> 'p \<Rightarrow> 's option) \<Rightarrow> ('s \<Rightarrow> ('d option \<times> 's) option) \<Rightarrow> 's \<Rightarrow>
    'p receiver_action list \<Rightarrow> ('d list \<times> 's) option" where
  "receiver_run put get s [] = Some ([], s)"
| "receiver_run put get s (Arrive p # acts) = do { s' \<leftarrow> put s p; receiver_run put get s' acts }"
| "receiver_run put get s (Deliver # acts) = do {
     (d, s') \<leftarrow> get s;
     (ds, s'') \<leftarrow> receiver_run put get s' acts;
     Some (case d of None \<Rightarrow> ds | Some x \<Rightarrow> x # ds, s'') }"

locale ordered_receiver =
  fixes put :: "'s \<Rightarrow> 'p \<Rightarrow> 's option"
    and get :: "'s \<Rightarrow> ('d option \<times> 's) option"
    and inv :: "'s \<Rightarrow> bool"
    and honest :: "'p \<Rightarrow> bool"
    and next_no :: "'s \<Rightarrow> nat"
    and sent :: "nat \<Rightarrow> 'd"
    and limit :: nat
  assumes put_law: "inv s \<Longrightarrow> honest p \<Longrightarrow> next_no s \<le> limit \<Longrightarrow>
      \<exists>s'. put s p = Some s' \<and> inv s' \<and> next_no s' = next_no s"
    and get_law: "inv s \<Longrightarrow> next_no s \<le> limit \<Longrightarrow>
      \<exists>d s'. get s = Some (d, s') \<and> inv s' \<and>
        (d = None \<and> next_no s' = next_no s \<or> d = Some (sent (next_no s)) \<and> next_no s' = Suc (next_no s))"
begin

lemma run_in_order:
  assumes "inv s" and "\<forall>p. Arrive p \<in> set acts \<longrightarrow> honest p" and "next_no s + length acts \<le> limit"
  shows "\<exists>ds s'. receiver_run put get s acts = Some (ds, s') \<and> inv s'
    \<and> ds = map sent [next_no s..<next_no s'] \<and> next_no s \<le> next_no s' \<and> next_no s' \<le> next_no s + length acts"
  using assms
proof (induction acts arbitrary: s)
  case Nil
  then show ?case by simp
next
  case (Cons a acts)
  show ?case
  proof (cases a)
    case (Arrive p)
    then obtain s1 where s1: "put s p = Some s1" "inv s1" "next_no s1 = next_no s"
      using put_law [of s p] Cons.prems by auto
    obtain ds s' where "receiver_run put get s1 acts = Some (ds, s')" "inv s'"
      "ds = map sent [next_no s1..<next_no s']" "next_no s1 \<le> next_no s'" "next_no s' \<le> next_no s1 + length acts"
      using Cons.IH [of s1] s1 Cons.prems by auto
    then show ?thesis using s1 Arrive by simp
  next
    case Deliver
    then obtain d s1 where s1: "get s = Some (d, s1)" "inv s1"
      "d = None \<and> next_no s1 = next_no s \<or> d = Some (sent (next_no s)) \<and> next_no s1 = Suc (next_no s)"
      using get_law [of s] Cons.prems by auto
    obtain ds s' where ih: "receiver_run put get s1 acts = Some (ds, s')" "inv s'"
      "ds = map sent [next_no s1..<next_no s']" "next_no s1 \<le> next_no s'" "next_no s' \<le> next_no s1 + length acts"
      using Cons.IH [of s1] s1 Cons.prems by auto
    have "(case d of None \<Rightarrow> ds | Some x \<Rightarrow> x # ds) = map sent [next_no s..<next_no s']"
      using s1(3) ih(3,4) by (auto simp: upt_conv_Cons)
    then show ?thesis using s1 ih Deliver by auto
  qed
qed

end

end
