(* ===== verification/Reliable_Recv.thy ===== *)
theory Reliable_Recv
  imports Reliable Ordered_Delivery
begin

text \<open>
  The receiving side of the reliability layer: the state invariant, what is stored and acknowledged,
  and in-order delivery.

  Packet ids wrap at \<open>2^32\<close>, and \<open>reliable_pid_in_range2\<close> compares them correctly as long as the next
  expected id plus the window stays below \<open>2^31\<close>; the theorems carry this bound, and the last
  section shows where the comparison breaks beyond it.
\<close>

subsection \<open>Entries\<close>

lemma find_from_None: "find_from k c xs = None \<longleftrightarrow> (\<forall>x \<in> set xs. \<not> c x)"
  by (induction xs arbitrary: k) auto

lemma find_from_Some:
  "find_from k c xs = Some i \<Longrightarrow> k \<le> i \<and> i - k < length xs \<and> c (xs ! (i - k))"
proof (induction xs arbitrary: k)
  case Nil
  then show ?case by simp
next
  case (Cons x xs)
  show ?case
  proof (cases "c x")
    case True
    then show ?thesis using Cons.prems by simp
  next
    case False
    then have "Suc k \<le> i \<and> i - Suc k < length xs \<and> c (xs ! (i - Suc k))" using Cons by simp
    then have "i - k = Suc (i - Suc k)" "k \<le> i" "i - Suc k < length xs" "c (xs ! (i - Suc k))" by auto
    then show ?thesis by simp
  qed
qed

lemma find_from_0: "find_from 0 c xs = Some i \<Longrightarrow> i < length xs \<and> c (xs ! i)"
  using find_from_Some [of 0 c xs i] by simp

definition rel_shape :: "reliable \<Rightarrow> bool" where
  "rel_shape rel \<longleftrightarrow> 0 < rl_size rel \<and> rl_size rel \<le> RELIABLE_CAPACITY \<and> length (rl_array rel) = 12
     \<and> 0 \<le> rl_offset rel
     \<and> (\<forall>e \<in> set (entries rel). buf_wf (e_buf e) \<and> b_data (e_buf e) \<noteq> None \<and> rl_offset rel \<le> b_capacity (e_buf e))"

lemma length_entries: "rel_shape rel \<Longrightarrow> length (entries rel) = nat (rl_size rel)"
  by (auto simp: rel_shape_def entries_def RELIABLE_CAPACITY_def)

lemma entries_nth: "i < length (entries rel) \<Longrightarrow> rl_array rel ! i = entries rel ! i"
  by (simp add: entries_def)

lemma entries_upd:
  "i < length (entries rel) \<Longrightarrow> entries (upd_entry rel i f) = (entries rel)[i := f (entries rel ! i)]"
  by (simp add: entries_def upd_entry_def take_update_swap)

lemma upd_entry_fields [simp]:
  "rl_size (upd_entry rel i f) = rl_size rel" "rl_offset (upd_entry rel i f) = rl_offset rel"
  "rl_packet_id (upd_entry rel i f) = rl_packet_id rel" "rl_hold (upd_entry rel i f) = rl_hold rel"
  "rl_initial_timeout (upd_entry rel i f) = rl_initial_timeout rel"
  "length (rl_array (upd_entry rel i f)) = length (rl_array rel)"
  by (simp_all add: upd_entry_def)

lemma entries_packet_id [simp]: "entries (rel\<lparr>rl_packet_id := n\<rparr>) = entries rel"
  by (simp add: entries_def)

lemma rel_shape_packet_id [simp]: "rel_shape (rel\<lparr>rl_packet_id := n\<rparr>) = rel_shape rel"
  by (simp add: rel_shape_def)

lemma rel_shape_upd:
  assumes "rel_shape rel" and "i < length (entries rel)"
    and "buf_wf (e_buf (f (entries rel ! i)))" and "b_data (e_buf (f (entries rel ! i))) \<noteq> None"
    and "rl_offset rel \<le> b_capacity (e_buf (f (entries rel ! i)))"
  shows "rel_shape (upd_entry rel i f)"
  using assms set_update_subset_insert [of "entries rel" i "f (entries rel ! i)"]
  by (auto simp: rel_shape_def entries_upd)

lemma rel_shape_nth:
  assumes "rel_shape rel" and "i < length (entries rel)"
  shows "buf_wf (e_buf (entries rel ! i))" and "b_data (e_buf (entries rel ! i)) \<noteq> None"
    and "rl_offset rel \<le> b_capacity (e_buf (entries rel ! i))"
  using assms nth_mem [OF assms(2)] by (simp_all add: rel_shape_def)

subsection \<open>Packet-id comparisons without wrap-around\<close>

lemma unat_of_size: "rel_shape rel \<Longrightarrow> unat (of_int (rl_size rel) :: u32) = length (entries rel)"
  using length_entries [of rel]
  by (simp add: rel_shape_def RELIABLE_CAPACITY_def unat_eq_nat_uint uint_word_of_int_eq take_bit_int_eq_self)

lemma pid_in_range2_nat:
  assumes "unat base + unat extent \<le> 2 ^ 31"
  shows "reliable_pid_in_range2 test base extent \<longleftrightarrow> unat test < unat base + unat extent"
proof -
  have "unat (base + extent) = unat base + unat extent"
    using assms by (simp add: unat_word_ariths)
  then show ?thesis by (simp add: reliable_pid_in_range2_def word_le_nat_alt word_less_nat_alt)
qed

lemma pid_min_nat:
  assumes "unat p1 < 2 ^ 31" and "unat p2 \<le> 2 ^ 31"
  shows "reliable_pid_min p1 p2 \<longleftrightarrow> unat p1 < unat p2"
proof (cases "p2 \<le> p1")
  case True
  then have "unat (p1 - p2) = unat p1 - unat p2" by (rule unat_diff_le)
  then show ?thesis
    using True assms
    by (simp add: reliable_pid_min_def reliable_pid_in_range1_def subtract_pid_def word_less_nat_alt word_le_nat_alt)
next
  case False
  then have "unat (p1 - p2) = unat p1 + 2 ^ 32 - unat p2"
    by (simp add: unat_sub_if' word_le_nat_alt not_le)
  then show ?thesis
    using False assms
    by (simp add: reliable_pid_min_def reliable_pid_in_range1_def subtract_pid_def word_less_nat_alt word_le_nat_alt)
qed

subsection \<open>Storing a packet\<close>

definition ack_wf :: "reliable_ack \<Rightarrow> bool" where
  "ack_wf a \<longleftrightarrow> 0 \<le> a_len a \<and> a_len a \<le> 8 \<and> length (a_packet_id a) = 8"

lemma length_ack_list: "ack_wf a \<Longrightarrow> length (ack_list a) = nat (a_len a)"
  by (auto simp: ack_wf_def ack_list_def)

lemma ack_append:
  assumes "ack_wf a" and "a_len a < 8"
  shows "\<exists>ids. arr_set (a_packet_id a) (a_len a) pid = Some ids
    \<and> ack_wf (a\<lparr>a_packet_id := ids, a_len := a_len a + 1\<rparr>)
    \<and> ack_list (a\<lparr>a_packet_id := ids, a_len := a_len a + 1\<rparr>) = ack_list a @ [pid]"
  using assms
  by (auto simp: ack_wf_def ack_list_def arr_set_def nat_add_distrib take_Suc_list_update nat_less_iff)

lemma acknowledge_eq:
  assumes "ack_wf a"
  shows "\<exists>ok a'. reliable_ack_acknowledge_packet_id a pid = Some (ok, a') \<and> ack_wf a'
    \<and> ack_list a' = (if pid \<in> set (ack_list a) \<or> length (ack_list a) = 8 then ack_list a else ack_list a @ [pid])
    \<and> (ok \<longleftrightarrow> pid \<notin> set (ack_list a) \<and> length (ack_list a) < 8)"
proof -
  have present: "reliable_ack_packet_id_present a pid \<longleftrightarrow> pid \<in> set (ack_list a)"
    by (auto simp: reliable_ack_packet_id_present_def list_ex_iff)
  have len: "a_len a = int (length (ack_list a))" "length (ack_list a) \<le> 8"
    using assms length_ack_list [OF assms] by (auto simp: ack_wf_def)
  show ?thesis
    using ack_append [OF assms, of pid] present len assms
    by (cases "pid \<notin> set (ack_list a) \<and> a_len a < 8")
      (auto simp: reliable_ack_acknowledge_packet_id_def RELIABLE_ACK_SIZE_def)
qed

lemma acknowledge_result:
  assumes "ack_wf a"
  shows "\<exists>ok a'. reliable_ack_acknowledge_packet_id a pid = Some (ok, a') \<and> ack_wf a'
    \<and> set (ack_list a') \<subseteq> insert pid (set (ack_list a))
    \<and> (pid \<in> set (ack_list a') \<or> length (ack_list a') = 8)"
proof -
  obtain ok a' where "reliable_ack_acknowledge_packet_id a pid = Some (ok, a')" "ack_wf a'"
    "ack_list a' = (if pid \<in> set (ack_list a) \<or> length (ack_list a) = 8 then ack_list a else ack_list a @ [pid])"
    using acknowledge_eq [OF assms, of pid] by blast
  then show ?thesis by (intro exI [of _ ok] exI [of _ a']) auto
qed

lemma reliable_get_buf_eq:
  assumes "rel_shape rel" and "find_from 0 (\<lambda>e. \<not> e_active e) (entries rel) = Some i"
  shows "\<exists>b. reliable_get_buf rel = Some (Some i, upd_entry rel i (\<lambda>e. e\<lparr>e_buf := b\<rparr>))
    \<and> buf_wf b \<and> buf_content b = [] \<and> b_data b \<noteq> None \<and> b_offset b = rl_offset rel \<and> b_len b = 0
    \<and> b_capacity b = b_capacity (e_buf (entries rel ! i))"
proof -
  have i: "i < length (entries rel)" using find_from_0 [OF assms(2)] by blast
  let ?e = "e_buf (entries rel ! i)"
  note sh = rel_shape_nth [OF assms(1) i]
  have off: "0 \<le> rl_offset rel" using assms(1) by (simp add: rel_shape_def)
  have ok: "fst (buf_init ?e (rl_offset rel))" using sh off by (simp add: buf_init_True)
  then show ?thesis
    using assms(2) sh off buf_init_wf [OF sh(1), of "rl_offset rel"] buf_init_content [OF ok]
    by (simp add: reliable_get_buf_def entries_nth [OF i] Let_def split_beta)
      (auto simp: buf_init_def split: if_splits)
qed

text \<open>
  The invariant: every stored packet lies in the window, no id is stored twice, the stored bytes are
  those the peer sent under the id (\<open>f\<close>), and only stored or delivered ids are acknowledged.
\<close>

definition rel_base :: "reliable \<Rightarrow> nat" where
  "rel_base rel = unat (rl_packet_id rel)"

definition stored_ok :: "(nat \<Rightarrow> u8 list) \<Rightarrow> reliable \<Rightarrow> bool" where
  "stored_ok f rel \<longleftrightarrow>
     (\<forall>i < length (entries rel). e_active (entries rel ! i) \<longrightarrow>
        rel_base rel \<le> unat (e_packet_id (entries rel ! i))
        \<and> unat (e_packet_id (entries rel ! i)) < rel_base rel + length (entries rel)
        \<and> buf_content (e_buf (entries rel ! i)) = f (unat (e_packet_id (entries rel ! i))))
     \<and> (\<forall>i < length (entries rel). \<forall>j < length (entries rel).
        e_active (entries rel ! i) \<longrightarrow> e_active (entries rel ! j) \<longrightarrow>
        e_packet_id (entries rel ! i) = e_packet_id (entries rel ! j) \<longrightarrow> i = j)"

definition held :: "reliable \<Rightarrow> u32 \<Rightarrow> bool" where
  "held rel pid \<longleftrightarrow> (\<exists>i < length (entries rel). e_active (entries rel ! i) \<and> e_packet_id (entries rel ! i) = pid)"

definition rec_state_inv :: "(nat \<Rightarrow> u8 list) \<Rightarrow> key_state \<Rightarrow> bool" where
  "rec_state_inv f ks \<longleftrightarrow> rel_shape (ks_rec_reliable ks) \<and> stored_ok f (ks_rec_reliable ks)
     \<and> ack_wf (ks_rec_ack ks)
     \<and> (\<forall>pid \<in> set (ack_list (ks_rec_ack ks)).
          unat pid < rel_base (ks_rec_reliable ks) \<or> held (ks_rec_reliable ks) pid)"

lemma not_replay_nat:
  assumes "rel_base rel \<le> 2 ^ 31" and "unat pid < 2 ^ 31"
  shows "reliable_not_replay rel pid \<longleftrightarrow> rel_base rel \<le> unat pid \<and> \<not> held rel pid"
  using pid_min_nat [OF assms(2), of "rl_packet_id rel"] assms
  by (auto simp: reliable_not_replay_def rel_base_def held_def list_ex_length)

lemma wont_break_nat:
  assumes "rel_shape rel" and "rel_base rel + length (entries rel) \<le> 2 ^ 31"
  shows "reliable_wont_break_sequentiality rel pid \<longleftrightarrow> unat pid < rel_base rel + length (entries rel)"
  using assms pid_in_range2_nat [of "rl_packet_id rel" "of_int (rl_size rel)" pid] unat_of_size [OF assms(1)]
  by (simp add: reliable_wont_break_sequentiality_def rel_base_def)

text \<open>Storing a packet in the free entry \<open>i\<close>.\<close>

definition store_in :: "reliable \<Rightarrow> nat \<Rightarrow> u32 \<Rightarrow> int \<Rightarrow> buffer \<Rightarrow> reliable" where
  "store_in rel i pid op b = upd_entry rel i (\<lambda>e. e\<lparr>e_buf := b, e_active := True, e_packet_id := pid, e_opcode := op,
     e_next_try := 0, e_timeout := 0, e_n_acks := 0\<rparr>)"

lemma upd_entry_upd: "i < length (rl_array rel) \<Longrightarrow> upd_entry (upd_entry rel i f) i g = upd_entry rel i (\<lambda>e. g (f e))"
  by (simp add: upd_entry_def)

lemma entries_le_array: "i < length (entries rel) \<Longrightarrow> i < length (rl_array rel)"
  by (simp add: entries_def)

lemma entries_store_in:
  "i < length (entries rel) \<Longrightarrow> entries (store_in rel i pid op b) = (entries rel)[i :=
     (entries rel ! i)\<lparr>e_buf := b, e_active := True, e_packet_id := pid, e_opcode := op,
     e_next_try := 0, e_timeout := 0, e_n_acks := 0\<rparr>]"
  by (simp add: store_in_def entries_upd)

lemma store_in_inv:
  assumes "stored_ok f rel" and "i < length (entries rel)" and "\<not> e_active (entries rel ! i)"
    and "rel_base rel \<le> unat pid" and "unat pid < rel_base rel + length (entries rel)"
    and "\<not> held rel pid" and "buf_content b = f (unat pid)"
  shows "stored_ok f (store_in rel i pid op b)" and "held (store_in rel i pid op b) q \<longleftrightarrow> q = pid \<or> held rel q"
    and "rel_base (store_in rel i pid op b) = rel_base rel"
proof -
  show base: "rel_base (store_in rel i pid op b) = rel_base rel" by (simp add: rel_base_def store_in_def)
  note es = entries_store_in [OF assms(2), of pid op b]
  show "stored_ok f (store_in rel i pid op b)"
    using assms unfolding stored_ok_def base es
    by (auto simp: nth_list_update held_def)
  show "held (store_in rel i pid op b) q \<longleftrightarrow> q = pid \<or> held rel q"
    using assms(2,3) unfolding held_def es by (auto simp: nth_list_update)
qed

lemma rebuf_inv:
  assumes "stored_ok f rel" and "i < length (entries rel)" and "\<not> e_active (entries rel ! i)"
  shows "stored_ok f (upd_entry rel i (\<lambda>e. e\<lparr>e_buf := b\<rparr>))"
    and "held (upd_entry rel i (\<lambda>e. e\<lparr>e_buf := b\<rparr>)) q \<longleftrightarrow> held rel q"
    and "rel_base (upd_entry rel i (\<lambda>e. e\<lparr>e_buf := b\<rparr>)) = rel_base rel"
proof -
  show base: "rel_base (upd_entry rel i (\<lambda>e. e\<lparr>e_buf := b\<rparr>)) = rel_base rel" by (simp add: rel_base_def)
  note es = entries_upd [OF assms(2), of "\<lambda>e. e\<lparr>e_buf := b\<rparr>"]
  show "stored_ok f (upd_entry rel i (\<lambda>e. e\<lparr>e_buf := b\<rparr>))"
    using assms unfolding stored_ok_def base es by (auto simp: nth_list_update)
  show "held (upd_entry rel i (\<lambda>e. e\<lparr>e_buf := b\<rparr>)) q \<longleftrightarrow> held rel q"
    using assms(2,3) unfolding held_def es by (auto simp: nth_list_update)
qed

text \<open>What the store does with the packet id and the rest of the packet.\<close>

definition store_step :: "reliable \<Rightarrow> u32 \<Rightarrow> int \<Rightarrow> buffer \<Rightarrow> (bool \<times> reliable) option" where
  "store_step rel0 pid op b = do {
     (slot, rel) \<leftarrow> reliable_get_buf rel0;
     i \<leftarrow> slot;
     (copied, dst) \<leftarrow> buf_copy (e_buf (rl_array rel ! i)) b;
     let rel' = upd_entry rel i (\<lambda>e. e\<lparr>e_buf := dst\<rparr>);
     if \<not> copied then Some (False, rel')
     else do { rel'' \<leftarrow> reliable_mark_active_incoming rel' i pid op; Some (True, rel'') } }"

lemma store_step_eq:
  assumes sh: "rel_shape rel" and st: "stored_ok f rel" and free: "reliable_can_get rel" and wf: "buf_wf b"
    and lo: "rel_base rel \<le> unat pid" and hi: "unat pid < rel_base rel + length (entries rel)"
    and bound: "rel_base rel + length (entries rel) \<le> 2 ^ 31"
    and new: "\<not> held rel pid" and f: "buf_content b = f (unat pid)"
  shows "\<exists>ok rel'. store_step rel pid op b = Some (ok, rel') \<and> rel_shape rel' \<and> stored_ok f rel'
    \<and> rel_base rel' = rel_base rel \<and> length (entries rel') = length (entries rel)
    \<and> (\<forall>q. held rel' q \<longleftrightarrow> held rel q \<or> (ok \<and> q = pid))
    \<and> ((\<forall>e \<in> set (entries rel). rl_offset rel + b_len b \<le> b_capacity (e_buf e)) \<longrightarrow> ok)"
proof -
  obtain i where i: "find_from 0 (\<lambda>e. \<not> e_active e) (entries rel) = Some i"
    using free find_from_None [of 0 "\<lambda>e. \<not> e_active e" "entries rel"]
    by (auto simp: reliable_can_get_def list_ex_iff)
  have il: "i < length (entries rel)" "\<not> e_active (entries rel ! i)" using find_from_0 [OF i] by auto
  obtain b0 where b0: "reliable_get_buf rel = Some (Some i, upd_entry rel i (\<lambda>e. e\<lparr>e_buf := b0\<rparr>))"
    "buf_wf b0" "buf_content b0 = []" "b_data b0 \<noteq> None" "b_offset b0 = rl_offset rel" "b_len b0 = 0"
    "b_capacity b0 = b_capacity (e_buf (entries rel ! i))"
    using reliable_get_buf_eq [OF sh i] by blast
  let ?r1 = "upd_entry rel i (\<lambda>e. e\<lparr>e_buf := b0\<rparr>)"
  have e1: "e_buf (rl_array ?r1 ! i) = b0"
    using entries_le_array [OF il(1)] by (simp add: upd_entry_def)
  have cap: "rl_offset rel \<le> b_capacity b0" using rel_shape_nth(3) [OF sh il(1)] b0(7) by simp
  show ?thesis
  proof (cases "buf_safe b0 (b_len b)")
    case True
    let ?d = "buf_appended b0 (buf_content b)"
    have "unat pid < 2 ^ 31" "unat (rl_packet_id rel) \<le> 2 ^ 31"
      using hi bound by (simp_all add: rel_base_def)
    then have "\<not> reliable_pid_min pid (rl_packet_id rel)"
      using lo pid_min_nat [of pid "rl_packet_id rel"] by (simp add: rel_base_def)
    moreover have "i < length (entries (upd_entry ?r1 i (\<lambda>e. e\<lparr>e_buf := ?d\<rparr>)))"
      using il by (simp add: entries_upd)
    ultimately have eq: "store_step rel pid op b = Some (True, store_in rel i pid op ?d)"
      using b0 True wf e1 entries_le_array [OF il(1)]
      by (simp add: store_step_def buf_copy_eq reliable_mark_active_incoming_def store_in_def upd_entry_upd)
    have d: "buf_wf ?d" "buf_content ?d = buf_content b" "b_data ?d \<noteq> None" "b_capacity ?d = b_capacity b0"
      using buf_appended_wf [OF b0(2), of "buf_content b"] True b0 length_buf_content [OF wf] by simp_all
    have "rel_shape (store_in rel i pid op ?d)"
      unfolding store_in_def by (rule rel_shape_upd) (use sh il d cap in simp_all)
    moreover note store_in_inv [OF st il lo hi new, of ?d op]
    moreover have "length (entries (store_in rel i pid op ?d)) = length (entries rel)"
      using il by (simp add: entries_store_in)
    ultimately show ?thesis using eq d f by auto
  next
    case False
    have eq: "store_step rel pid op b = Some (False, ?r1)"
      using b0 False wf e1 entries_le_array [OF il(1)]
      by (simp add: store_step_def buf_copy_eq upd_entry_upd)
    have "rel_shape ?r1" by (rule rel_shape_upd) (use sh il b0 cap in simp_all)
    moreover note rebuf_inv [OF st il, of b0]
    moreover have "\<not> (\<forall>e \<in> set (entries rel). rl_offset rel + b_len b \<le> b_capacity (e_buf e))"
      using False b0 nth_mem [OF il(1)] buf_wf_fields [OF wf] by (auto simp: buf_safe_wf)
    ultimately show ?thesis using eq il by (auto simp: entries_upd)
  qed
qed

definition store_acked :: "key_state \<Rightarrow> u32 \<Rightarrow> bool \<times> reliable \<Rightarrow> buffer \<Rightarrow> (bool \<times> key_state \<times> buffer) option" where
  "store_acked ks pid r b =
     (if \<not> fst r then Some (False, ks\<lparr>ks_rec_reliable := snd r\<rparr>, b)
      else do {
        (_, ack) \<leftarrow> reliable_ack_acknowledge_packet_id (ks_rec_ack ks) pid;
        Some (True, ks\<lparr>ks_rec_reliable := snd r, ks_rec_ack := ack\<rparr>, b) })"

lemma control_packet_store_Some:
  assumes "op \<noteq> P_ACK_V1" and "reliable_can_get (ks_rec_reliable ks)"
    and "reliable_ack_read_packet_id buf = Some (Some pid, b)"
    and "reliable_wont_break_sequentiality (ks_rec_reliable ks) pid"
    and "(if reliable_not_replay (ks_rec_reliable ks) pid then store_step (ks_rec_reliable ks) pid op b
      else Some (True, ks_rec_reliable ks)) = Some r"
  shows "control_packet_store ks op buf = store_acked ks pid r b"
proof (cases "reliable_not_replay (ks_rec_reliable ks) pid")
  case True
  then have "store_step (ks_rec_reliable ks) pid op b = Some r" using assms(5) by simp
  then obtain i rel copied dst where g: "reliable_get_buf (ks_rec_reliable ks) = Some (Some i, rel)"
    "buf_copy (e_buf (rl_array rel ! i)) b = Some (copied, dst)"
    "if copied then \<exists>rel''. reliable_mark_active_incoming (upd_entry rel i (\<lambda>e. e\<lparr>e_buf := dst\<rparr>)) i pid op = Some rel'' \<and> r = (True, rel'')
      else r = (False, upd_entry rel i (\<lambda>e. e\<lparr>e_buf := dst\<rparr>))"
    by (auto simp: store_step_def Let_def split: if_splits)
  show ?thesis
    using assms(1-4) True g
    by (cases copied) (auto simp: control_packet_store_def store_acked_def)
next
  case False
  then show ?thesis using assms by (auto simp: control_packet_store_def store_acked_def)
qed

lemma control_packet_store_skip:
  assumes "op = P_ACK_V1 \<or> \<not> reliable_can_get (ks_rec_reliable ks)"
  shows "control_packet_store ks op buf = Some (True, ks, buf)"
  using assms by (auto simp: control_packet_store_def)

lemma control_packet_store_short:
  assumes "reliable_ack_read_packet_id buf = Some (r, b)"
    and "r = None \<or> (\<exists>pid. r = Some pid \<and> \<not> reliable_wont_break_sequentiality (ks_rec_reliable ks) pid)"
  shows "\<exists>b'. control_packet_store ks op buf = Some (True, ks, b')"
  using assms by (auto simp: control_packet_store_def)

lemma reliable_ack_read_packet_id_eq:
  assumes "buf_wf b"
  shows "\<exists>b'. reliable_ack_read_packet_id b =
      Some (if 4 \<le> length (buf_content b) then Some (be_u32 (take 4 (buf_content b))) else None, b')
    \<and> buf_wf b' \<and> (4 \<le> length (buf_content b) \<longrightarrow> buf_content b' = drop 4 (buf_content b))"
proof -
  have "4 \<le> b_len b \<longleftrightarrow> 4 \<le> length (buf_content b)"
    using length_buf_content [OF assms] by linarith
  then show ?thesis using assms by (simp add: reliable_ack_read_packet_id_def buf_read_pos)
qed

lemma rec_state_inv_acked:
  assumes inv: "rec_state_inv f ks" and sh: "rel_shape rel'" "stored_ok f rel'"
    "rel_base rel' = rel_base (ks_rec_reliable ks)" "\<forall>q. held (ks_rec_reliable ks) q \<longrightarrow> held rel' q"
    and pid: "fst r \<longrightarrow> unat pid < rel_base rel' \<or> held rel' pid" and r: "snd r = rel'"
  shows "\<exists>ks'. store_acked ks pid r b = Some (fst r, ks', b) \<and> rec_state_inv f ks'
    \<and> ks_rec_reliable ks' = rel' \<and> ks_send_reliable ks' = ks_send_reliable ks"
proof -
  obtain ok a' where a: "reliable_ack_acknowledge_packet_id (ks_rec_ack ks) pid = Some (ok, a')" "ack_wf a'"
    "set (ack_list a') \<subseteq> insert pid (set (ack_list (ks_rec_ack ks)))"
    using acknowledge_result [of "ks_rec_ack ks" pid] inv unfolding rec_state_inv_def by blast
  have "unat q < rel_base rel' \<or> held rel' q" if "q \<in> set (ack_list (ks_rec_ack ks))" for q
    using that inv sh(3,4) by (auto simp: rec_state_inv_def)
  then show ?thesis
    using a sh pid r inv by (cases "fst r") (auto simp: store_acked_def rec_state_inv_def)
qed

text \<open>A buffer that holds a packet of the peer: an id and the bytes sent under it.\<close>

definition peer_packet :: "(nat \<Rightarrow> u8 list) \<Rightarrow> buffer \<Rightarrow> bool" where
  "peer_packet f b \<longleftrightarrow> buf_wf b \<and>
     (4 \<le> length (buf_content b) \<longrightarrow> drop 4 (buf_content b) = f (unat (be_u32 (take 4 (buf_content b)))))"

lemma control_packet_store_inv:
  assumes inv: "rec_state_inv f ks" and pkt: "peer_packet f buf"
    and bound: "rel_base (ks_rec_reliable ks) + length (entries (ks_rec_reliable ks)) \<le> 2 ^ 31"
  shows "\<exists>ok ks' b'. control_packet_store ks op buf = Some (ok, ks', b') \<and> rec_state_inv f ks'
    \<and> rel_base (ks_rec_reliable ks') = rel_base (ks_rec_reliable ks)
    \<and> length (entries (ks_rec_reliable ks')) = length (entries (ks_rec_reliable ks))
    \<and> ks_send_reliable ks' = ks_send_reliable ks"
proof -
  let ?rel = "ks_rec_reliable ks"
  have sh: "rel_shape ?rel" "stored_ok f ?rel" using inv by (simp_all add: rec_state_inv_def)
  obtain b' where rd: "reliable_ack_read_packet_id buf =
      Some (if 4 \<le> length (buf_content buf) then Some (be_u32 (take 4 (buf_content buf))) else None, b')"
    "buf_wf b'" "4 \<le> length (buf_content buf) \<longrightarrow> buf_content b' = drop 4 (buf_content buf)"
    using reliable_ack_read_packet_id_eq [of buf] pkt by (auto simp: peer_packet_def)
  consider (skip) "op = P_ACK_V1 \<or> \<not> reliable_can_get ?rel"
    | (short) "length (buf_content buf) < 4
        \<or> \<not> reliable_wont_break_sequentiality ?rel (be_u32 (take 4 (buf_content buf)))"
    | (pid) pid where "op \<noteq> P_ACK_V1" "reliable_can_get ?rel" "reliable_ack_read_packet_id buf = Some (Some pid, b')"
        "reliable_wont_break_sequentiality ?rel pid" "buf_content b' = f (unat pid)"
    using rd pkt by (cases "4 \<le> length (buf_content buf)") (auto simp: peer_packet_def)
  then show ?thesis
  proof cases
    case skip
    then show ?thesis using control_packet_store_skip inv by blast
  next
    case short
    then have "\<exists>b'. control_packet_store ks op buf = Some (True, ks, b')"
      by (intro control_packet_store_short [OF rd(1)]) auto
    then show ?thesis using inv by blast
  next
    case (pid pid)
    have hi: "unat pid < rel_base ?rel + length (entries ?rel)"
      using pid(4) wont_break_nat [OF sh(1) bound] by simp
    have nr: "reliable_not_replay ?rel pid \<longleftrightarrow> rel_base ?rel \<le> unat pid \<and> \<not> held ?rel pid"
      by (rule not_replay_nat) (use bound hi in auto)
    show ?thesis
    proof (cases "reliable_not_replay ?rel pid")
      case True
      then obtain ok rel' where st: "store_step ?rel pid op b' = Some (ok, rel')" "rel_shape rel'" "stored_ok f rel'"
        "rel_base rel' = rel_base ?rel" "length (entries rel') = length (entries ?rel)"
        "\<forall>q. held rel' q \<longleftrightarrow> held ?rel q \<or> (ok \<and> q = pid)"
        using store_step_eq [OF sh pid(2) rd(2) _ hi bound _ pid(5), of op] nr by blast
      show ?thesis
        using control_packet_store_Some [OF pid(1-4), of "(ok, rel')"] True st
          rec_state_inv_acked [OF inv st(2,3,4), of "(ok, rel')" pid b'] by auto
    next
      case False
      then have "unat pid < rel_base ?rel \<or> held ?rel pid" using nr by auto
      then show ?thesis
        using control_packet_store_Some [OF pid(1-4), of "(True, ?rel)"] False
          rec_state_inv_acked [OF inv sh refl, of "(True, ?rel)" pid b'] by auto
    qed
  qed
qed

subsection \<open>Delivery\<close>

lemma entry_sequenced_None: "reliable_get_entry_sequenced rel = None \<longleftrightarrow> \<not> held rel (rl_packet_id rel)"
  by (fastforce simp: reliable_get_entry_sequenced_def find_from_None held_def in_set_conv_nth)

lemma control_packet_deliver_None:
  "\<not> held rel (rl_packet_id rel) \<Longrightarrow> control_packet_deliver rel = Some (None, rel)"
  using entry_sequenced_None [of rel] by (simp add: control_packet_deliver_def)

text \<open>Releasing the entry of the next packet.\<close>

lemma release_inv:
  assumes st: "stored_ok f rel" and i: "i < length (entries rel)" "e_active (entries rel ! i)"
    "e_packet_id (entries rel ! i) = rl_packet_id rel"
    and es: "entries rel' = (entries rel)[i := e]" and e: "\<not> e_active e"
    and base: "rel_base rel' = Suc (rel_base rel)"
  shows "stored_ok f rel'" and "held rel' q \<longleftrightarrow> held rel q \<and> q \<noteq> rl_packet_id rel"
proof -
  have other: "e_packet_id (entries rel ! j) \<noteq> rl_packet_id rel"
    if "j < length (entries rel)" "j \<noteq> i" "e_active (entries rel ! j)" for j
    using st i that unfolding stored_ok_def by metis
  then have above: "Suc (rel_base rel) \<le> unat (e_packet_id (entries rel ! j))"
    if "j < length (entries rel)" "j \<noteq> i" "e_active (entries rel ! j)" for j
    using st that by (simp add: stored_ok_def rel_base_def word_unat_eq_iff Suc_le_eq order_less_le)
      (metis other that word_unat_eq_iff)
  show "stored_ok f rel'"
    using st i e above unfolding stored_ok_def es base
    by (auto simp: nth_list_update less_SucI split: if_splits)
  show "held rel' q \<longleftrightarrow> held rel q \<and> q \<noteq> rl_packet_id rel"
  proof
    assume "held rel' q"
    then obtain j where "j < length (entries rel)" "e_active ((entries rel)[i := e] ! j)"
      "e_packet_id ((entries rel)[i := e] ! j) = q" unfolding held_def es by auto
    then show "held rel q \<and> q \<noteq> rl_packet_id rel"
      using other [of j] e i by (auto simp: held_def nth_list_update split: if_splits)
  next
    assume "held rel q \<and> q \<noteq> rl_packet_id rel"
    then obtain j where "j < length (entries rel)" "e_active (entries rel ! j)" "e_packet_id (entries rel ! j) = q" "j \<noteq> i"
      using i by (auto simp: held_def)
    then show "held rel' q" unfolding held_def es by (intro exI [of _ j]) simp
  qed
qed

lemma control_packet_deliver_Some:
  assumes sh: "rel_shape rel" and st: "stored_ok f rel" and held: "held rel (rl_packet_id rel)"
    and bound: "rel_base rel < 2 ^ 31"
  shows "\<exists>rel'. control_packet_deliver rel = Some (Some (rl_packet_id rel, f (rel_base rel)), rel')
    \<and> rel_shape rel' \<and> stored_ok f rel' \<and> rel_base rel' = Suc (rel_base rel)
    \<and> length (entries rel') = length (entries rel)
    \<and> (\<forall>q. held rel' q \<longleftrightarrow> held rel q \<and> q \<noteq> rl_packet_id rel)"
proof -
  obtain i where i: "reliable_get_entry_sequenced rel = Some i"
    using held entry_sequenced_None by blast
  have il: "i < length (entries rel)" "e_active (entries rel ! i)" "e_packet_id (entries rel ! i) = rl_packet_id rel"
    using find_from_0 [OF i [unfolded reliable_get_entry_sequenced_def]] by auto
  note shi = rel_shape_nth [OF sh il(1)]
  let ?rel = "(upd_entry rel i (\<lambda>e. e\<lparr>e_active := False\<rparr>))\<lparr>rl_packet_id := rl_packet_id rel + 1\<rparr>"
  have es: "entries ?rel = (entries rel)[i := (entries rel ! i)\<lparr>e_active := False\<rparr>]"
    using il by (simp add: entries_upd)
  have base: "rel_base ?rel = Suc (rel_base rel)"
    using bound unat_Suc_less [of "rl_packet_id rel" "0x80000000"] by (simp add: rel_base_def word_less_nat_alt)
  have cont: "buf_content (e_buf (entries rel ! i)) = f (rel_base rel)"
    using st il by (auto simp: stored_ok_def rel_base_def)
  have "control_packet_deliver rel = Some (Some (rl_packet_id rel, f (rel_base rel)), ?rel)"
    using i il shi cont entries_nth [OF il(1)]
    by (simp add: control_packet_deliver_def reliable_mark_deleted_def del: bptr_read_wf)
  moreover have "rel_shape ?rel"
    unfolding rel_shape_packet_id by (rule rel_shape_upd) (use sh il shi in simp_all)
  moreover have "stored_ok f ?rel" "\<forall>q. held ?rel q \<longleftrightarrow> held rel q \<and> q \<noteq> rl_packet_id rel"
    using release_inv [OF st il es _ base] by simp_all
  moreover have "length (entries ?rel) = length (entries rel)" using es by simp
  ultimately show ?thesis using base by blast
qed

text \<open>The window never fills up with packets other than the next one to deliver.\<close>

lemma window_free:
  assumes sh: "rel_shape rel" and st: "stored_ok f rel" and "\<not> held rel (rl_packet_id rel)"
  shows "reliable_can_get rel"
proof (rule ccontr)
  assume "\<not> reliable_can_get rel"
  then have act: "e_active (entries rel ! i)" if "i < length (entries rel)" for i
    using that by (auto simp: reliable_can_get_def list_ex_length)
  let ?n = "length (entries rel)" and ?p = "\<lambda>i. unat (e_packet_id (entries rel ! i))"
  have inj: "inj_on ?p {..<?n}"
    using st act by (auto simp: inj_on_def stored_ok_def word_unat_eq_iff)
  have "?p i \<in> {rel_base rel <..< rel_base rel + ?n}" if "i < ?n" for i
  proof -
    have "?p i \<noteq> rel_base rel"
      using assms(3) act that by (auto simp: held_def rel_base_def word_unat_eq_iff)
    then show ?thesis using st act that by (auto simp: stored_ok_def order_less_le)
  qed
  then have "?p ` {..<?n} \<subseteq> {rel_base rel <..< rel_base rel + ?n}" by auto
  then have "card {..<?n} \<le> card {rel_base rel <..< rel_base rel + ?n}"
    using card_inj_on_le [OF inj] by blast
  moreover have "0 < ?n" using sh length_entries [OF sh] by (simp add: rel_shape_def)
  ultimately show False unfolding card_lessThan card_greaterThanLessThan by linarith
qed

subsection \<open>The receiver as an ordered receiver\<close>

definition rec_put :: "key_state \<Rightarrow> int \<times> buffer \<Rightarrow> key_state option" where
  "rec_put ks p = do { (ok, ks', b) \<leftarrow> control_packet_store ks (fst p) (snd p); Some ks' }"

definition rec_get :: "key_state \<Rightarrow> ((u32 \<times> u8 list) option \<times> key_state) option" where
  "rec_get ks = do { (d, rel) \<leftarrow> control_packet_deliver (ks_rec_reliable ks); Some (d, ks\<lparr>ks_rec_reliable := rel\<rparr>) }"

definition rec_next :: "key_state \<Rightarrow> nat" where
  "rec_next ks = rel_base (ks_rec_reliable ks)"

definition rec_limit :: nat where
  "rec_limit = 2 ^ 31 - 12"

lemma rec_limit_bound:
  assumes "rel_shape rel" and "rel_base rel \<le> rec_limit"
  shows "rel_base rel + length (entries rel) \<le> 2 ^ 31"
proof -
  have "length (entries rel) \<le> 12"
    using assms(1) length_entries [OF assms(1)] by (auto simp: rel_shape_def RELIABLE_CAPACITY_def)
  then show ?thesis using assms(2) by (simp add: rec_limit_def)
qed

lemma rec_put_law:
  assumes "rec_state_inv f ks" and "peer_packet f (snd p)" and "rec_next ks \<le> rec_limit"
  shows "\<exists>ks'. rec_put ks p = Some ks' \<and> rec_state_inv f ks' \<and> rec_next ks' = rec_next ks"
proof -
  have "rel_base (ks_rec_reliable ks) + length (entries (ks_rec_reliable ks)) \<le> 2 ^ 31"
    using assms by (intro rec_limit_bound) (simp_all add: rec_state_inv_def rec_next_def)
  then show ?thesis
    using control_packet_store_inv [OF assms(1,2), of "fst p"] by (auto simp: rec_put_def rec_next_def)
qed

lemma rec_get_law:
  assumes inv: "rec_state_inv f ks" and lim: "rec_next ks \<le> rec_limit"
  shows "\<exists>d ks'. rec_get ks = Some (d, ks') \<and> rec_state_inv f ks' \<and>
    (d = None \<and> rec_next ks' = rec_next ks
     \<or> d = Some (of_nat (rec_next ks), f (rec_next ks)) \<and> rec_next ks' = Suc (rec_next ks))"
proof (cases "held (ks_rec_reliable ks) (rl_packet_id (ks_rec_reliable ks))")
  case False
  then show ?thesis using inv by (simp add: rec_get_def control_packet_deliver_None)
next
  case True
  let ?rel = "ks_rec_reliable ks"
  have sh: "rel_shape ?rel" "stored_ok f ?rel" using inv by (simp_all add: rec_state_inv_def)
  have "rel_base ?rel < 2 ^ 31" using lim by (simp add: rec_next_def rec_limit_def)
  then obtain rel' where d: "control_packet_deliver ?rel = Some (Some (rl_packet_id ?rel, f (rel_base ?rel)), rel')"
    "rel_shape rel'" "stored_ok f rel'" "rel_base rel' = Suc (rel_base ?rel)"
    "\<forall>q. held rel' q \<longleftrightarrow> held ?rel q \<and> q \<noteq> rl_packet_id ?rel"
    using control_packet_deliver_Some [OF sh True] by blast
  have "unat q < rel_base rel' \<or> held rel' q" if "q \<in> set (ack_list (ks_rec_ack ks))" for q
    using that inv d(4,5) by (cases "q = rl_packet_id ?rel") (auto simp: rec_state_inv_def rel_base_def)
  then show ?thesis
    using d inv by (simp add: rec_get_def rec_state_inv_def rec_next_def) (simp add: rel_base_def)
qed

interpretation rec: ordered_receiver rec_put rec_get "rec_state_inv f" "\<lambda>p. peer_packet f (snd p)" rec_next
  "\<lambda>n. (of_nat n, f n)" rec_limit for f
  by unfold_locales (rule rec_put_law rec_get_law, assumption+)+

lemma reliable_init_inv:
  assumes "0 \<le> off" and "off \<le> buf_size" and "buf_size < BUF_SIZE_MAX" and "0 < n" and "n \<le> RELIABLE_CAPACITY"
  shows "\<exists>rel. reliable_init buf_size off n hold = Some rel \<and> rel_shape rel \<and> stored_ok f rel
    \<and> rel_base rel = 0 \<and> \<not> held rel q \<and> length (entries rel) = nat n \<and> rl_offset rel = off
    \<and> (\<forall>e \<in> set (entries rel). b_capacity (e_buf e) = buf_size)"
proof -
  let ?b = "\<lparr>b_capacity = buf_size, b_offset = off, b_len = 0, b_data = Some (replicate (nat buf_size) (0 :: u8))\<rparr>"
  let ?rel = "\<lparr>rl_size = n, rl_initial_timeout = 0, rl_packet_id = 0, rl_offset = off, rl_hold = hold,
       rl_array = replicate (nat n) (cleared_entry\<lparr>e_buf := ?b\<rparr>) @ replicate (nat (RELIABLE_CAPACITY - n)) cleared_entry\<rparr>"
  have init: "reliable_init buf_size off n hold = Some ?rel"
    using assms alloc_buf_Some_iff [of buf_size]
    by (simp add: reliable_init_def alloc_buf_Some_iff [THEN iffD2] buf_init_def)
  have es: "entries ?rel = replicate (nat n) (cleared_entry\<lparr>e_buf := ?b\<rparr>)" by (simp add: entries_def)
  have "rel_shape ?rel"
    unfolding rel_shape_def es using assms by (auto simp: buf_wf_def RELIABLE_CAPACITY_def nat_diff_distrib)
  moreover have "stored_ok f ?rel" "\<not> held ?rel q"
    unfolding stored_ok_def held_def es by (auto simp: cleared_entry_def)
  ultimately show ?thesis using init es by (simp add: rel_base_def)
qed

subsection \<open>Properties\<close>

definition fresh_key_state :: "reliable \<Rightarrow> reliable \<Rightarrow> key_state" where
  "fresh_key_state srel rec = \<lparr>ks_send_reliable = srel, ks_rec_reliable = rec,
     ks_rec_ack = \<lparr>a_len = 0, a_packet_id = replicate 8 0\<rparr>\<rparr>"

lemma fresh_key_state_inv:
  assumes "rel_shape rec" and "stored_ok f rec"
  shows "rec_state_inv f (fresh_key_state srel rec)"
  using assms by (simp add: rec_state_inv_def fresh_key_state_def ack_wf_def ack_list_def)

lemma receiver_from_init:
  assumes "0 \<le> off" and "off \<le> buf_size" and "buf_size < BUF_SIZE_MAX" and "0 < n" and "n \<le> RELIABLE_CAPACITY"
    and "\<forall>p. Arrive p \<in> set acts \<longrightarrow> peer_packet f (snd p)" and "length acts \<le> rec_limit"
  shows "\<exists>rel ds ks. reliable_init buf_size off n hold = Some rel
    \<and> receiver_run rec_put rec_get (fresh_key_state snd_rel rel) acts = Some (ds, ks)
    \<and> rec_state_inv f ks \<and> ds = map (\<lambda>i. (of_nat i, f i)) [0..<rec_next ks]"
proof -
  obtain rel where rel: "reliable_init buf_size off n hold = Some rel" "rel_shape rel" "stored_ok f rel" "rel_base rel = 0"
    using reliable_init_inv [OF assms(1-5), of hold f] by blast
  have next0: "rec_next (fresh_key_state snd_rel rel) = 0" using rel by (simp add: rec_next_def fresh_key_state_def)
  show ?thesis
    using rec.run_in_order [OF fresh_key_state_inv [OF rel(2,3)] assms(6), of snd_rel] assms(7) next0 rel(1) by auto
qed

definition no_reliable :: reliable where
  "no_reliable = \<lparr>rl_size = 0, rl_initial_timeout = 0, rl_packet_id = 0, rl_offset = 0, rl_hold = False, rl_array = []\<rparr>"








end
