(* ===== verification/Reliable_Ack.thy ===== *)
theory Reliable_Ack
  imports Reliable_Recv
begin

text \<open>
  Acknowledgment records: the list of recently acknowledged ids as a most-recently-used list, and the
  round trip of an acknowledgment record through \<open>reliable_ack_write\<close> and \<open>reliable_ack_parse\<close>.
\<close>

subsection \<open>The most-recently-used list\<close>

lemma arr_get_middle [simp]: "arr_get (pre @ x # t) (int (length pre)) = Some x"
  by (simp add: arr_get_def)

lemma arr_set_middle [simp]: "arr_set (pre @ x # t) (int (length pre)) v = Some (pre @ v # t)"
  by (simp add: arr_set_def)

lemma mru_shift_eq:
  "mru_shift pid move (map int [length pre..<length pre + length m]) (pre @ m @ t) =
    Some (if pid \<in> set m then (True, pid, pre @ (move # remove1 pid m) @ t)
          else (False, last (move # m), pre @ butlast (move # m) @ t))"
proof (induction m arbitrary: pre move)
  case Nil
  then show ?case by simp
next
  case (Cons x m)
  have idx: "map int [length pre..<length pre + length (x # m)]
      = int (length pre) # map int [length (pre @ [move])..<length (pre @ [move]) + length m]"
    using upt_conv_Cons [of "length pre" "length pre + length (x # m)"] by (simp del: upt_Suc)
  show ?case
  proof (cases "x = pid")
    case True
    then show ?thesis unfolding idx by simp
  next
    case False
    then show ?thesis using Cons.IH [of x "pre @ [move]"] unfolding idx by simp
  qed
qed

text \<open>Moving an id to the front of the list, which keeps at most eight ids.\<close>

definition mru_touch :: "u32 \<Rightarrow> u32 list \<Rightarrow> u32 list" where
  "mru_touch pid m = take 8 (pid # remove1 pid m)"

lemma ack_split:
  assumes "ack_wf a"
  obtains t where "a_packet_id a = ack_list a @ t" and "length (ack_list a) + length t = 8"
    and "a_len a = int (length (ack_list a))"
  using assms length_ack_list [OF assms] append_take_drop_id [of "nat (a_len a)" "a_packet_id a"]
  by (metis ack_list_def ack_wf_def int_nat_eq length_append)

lemma ack_of_split:
  assumes "n + length t = 8" and "length m = n"
  shows "ack_wf (a\<lparr>a_packet_id := m @ t, a_len := int n\<rparr>)"
    and "ack_list (a\<lparr>a_packet_id := m @ t, a_len := int n\<rparr>) = m"
  using assms by (simp_all add: ack_wf_def ack_list_def)

lemma copy_ack_to_mru_pos:
  assumes "ack_wf mru" and "ack_list mru \<noteq> []"
  shows "\<exists>mru'. copy_ack_to_mru pid mru = Some mru' \<and> ack_wf mru' \<and> ack_list mru' = mru_touch pid (ack_list mru)"
proof -
  let ?m = "ack_list mru"
  obtain t where t: "a_packet_id mru = ?m @ t" "length ?m + length t = 8" "a_len mru = int (length ?m)"
    using ack_split [OF assms(1)] by metis
  have shift: "mru_shift pid pid (map int [0..<length ?m]) (?m @ t) =
    Some (if pid \<in> set ?m then (True, pid, (pid # remove1 pid ?m) @ t)
          else (False, last (pid # ?m), butlast (pid # ?m) @ t))"
    using mru_shift_eq [of pid pid "[]" ?m t] by simp
  consider (found) "pid \<in> set ?m" | (full) "pid \<notin> set ?m" "t = []" | (room) x t' where "pid \<notin> set ?m" "t = x # t'"
    by (cases t) auto
  then show ?thesis
  proof cases
    case found
    then have len: "length (pid # remove1 pid ?m) = length ?m" using assms(2) by (simp add: length_remove1)
    have "copy_ack_to_mru pid mru = Some (mru\<lparr>a_packet_id := (pid # remove1 pid ?m) @ t, a_len := int (length ?m)\<rparr>)"
      using found shift t assms(2) by (simp add: copy_ack_to_mru_def)
    then show ?thesis
      using ack_of_split [OF t(2) len, of mru] len t(2) by (auto simp: mru_touch_def)
  next
    case full
    have "copy_ack_to_mru pid mru = Some (mru\<lparr>a_packet_id := butlast (pid # ?m) @ [], a_len := int (length ?m)\<rparr>)"
      using full shift t assms(2) by (simp add: copy_ack_to_mru_def RELIABLE_ACK_SIZE_def)
    moreover have "butlast (pid # ?m) = mru_touch pid ?m" "length (mru_touch pid ?m) = 8"
      using full t(2) by (simp_all add: mru_touch_def remove1_idem butlast_conv_take)
    ultimately show ?thesis
      using ack_of_split [of "length ?m" "[]" "butlast (pid # ?m)" mru] full t(2) by simp
  next
    case room
    have ids: "arr_set (butlast (pid # ?m) @ x # t') (int (length ?m)) (last (pid # ?m)) = Some ((pid # ?m) @ t')"
    proof -
      have "arr_set (butlast (pid # ?m) @ x # t') (int (length (butlast (pid # ?m)))) (last (pid # ?m))
          = Some (butlast (pid # ?m) @ last (pid # ?m) # t')" by (rule arr_set_middle)
      moreover have "butlast (pid # ?m) @ last (pid # ?m) # t' = (pid # ?m) @ t'"
        using append_butlast_last_id [of "pid # ?m"] by (metis append_Cons append_Nil append_assoc list.distinct(1))
      moreover have "length (butlast (pid # ?m)) = length ?m" by simp
      ultimately show ?thesis by metis
    qed
    have "copy_ack_to_mru pid mru = Some (mru\<lparr>a_packet_id := (pid # ?m) @ t', a_len := int (length (pid # ?m))\<rparr>)"
      using room shift t assms(2) ids by (simp add: copy_ack_to_mru_def RELIABLE_ACK_SIZE_def add.commute)
    then show ?thesis
      using ack_of_split [of "length (pid # ?m)" t' "pid # ?m" mru] room t(2) by (simp add: mru_touch_def remove1_idem)
  qed
qed

lemma copy_ack_to_mru_eq:
  assumes "ack_wf mru"
  shows "\<exists>mru'. copy_ack_to_mru pid mru = Some mru' \<and> ack_wf mru' \<and> ack_list mru' = mru_touch pid (ack_list mru)"
proof (cases "ack_list mru = []")
  case False
  then show ?thesis using copy_ack_to_mru_pos [OF assms] by blast
next
  case True
  then have len: "a_len mru = 0" using length_ack_list [OF assms] assms by (simp add: ack_wf_def)
  obtain x xs where ids: "a_packet_id mru = x # xs" "length xs = 7"
    using assms by (cases "a_packet_id mru") (auto simp: ack_wf_def)
  have "copy_ack_to_mru pid mru = Some (mru\<lparr>a_packet_id := [pid] @ xs, a_len := int (length [pid])\<rparr>)"
    using len ids by (simp add: copy_ack_to_mru_def arr_set_def arr_get_def)
  then show ?thesis using ack_of_split [of "length [pid]" xs "[pid]" mru] ids True by (simp add: mru_touch_def)
qed

lemma copy_acks_loop_eq:
  assumes "ack_wf mru"
  shows "\<exists>mru'. copy_acks_loop pids mru = Some mru' \<and> ack_wf mru' \<and> ack_list mru' = fold mru_touch pids (ack_list mru)"
  using assms
proof (induction pids arbitrary: mru)
  case Nil
  then show ?case by simp
next
  case (Cons pid pids)
  then obtain mru1 where m1: "copy_ack_to_mru pid mru = Some mru1" "ack_wf mru1"
    "ack_list mru1 = mru_touch pid (ack_list mru)"
    using copy_ack_to_mru_eq by blast
  then show ?case using Cons.IH [OF m1(2)] by auto
qed

lemma take_remove1_take: "take n (remove1 x (take (Suc n) xs)) = take n (remove1 x xs)"
proof (induction xs arbitrary: n)
  case Nil
  then show ?case by simp
next
  case (Cons y ys)
  then show ?case by (cases n) (auto simp: remove1_idem)
qed

lemma remove1_append_filter:
  assumes "distinct m" and "pid \<notin> set as"
  shows "remove1 pid (as @ filter (\<lambda>x. x \<notin> set as) m) = as @ filter (\<lambda>x. x \<notin> set (pid # as)) m"
proof -
  have "remove1 pid (filter (\<lambda>x. x \<notin> set as) m) = filter (\<lambda>x. x \<noteq> pid) (filter (\<lambda>x. x \<notin> set as) m)"
    using assms(1) by (simp add: distinct_remove1_removeAll removeAll_filter_not_eq eq_commute [of _ pid])
  then show ?thesis using assms(2) by (simp add: remove1_append conj_commute)
qed

text \<open>Touching ids from the last to the first puts them, in order, in front of the others.\<close>

lemma fold_mru_touch:
  assumes "distinct m" and "distinct as" and "length m \<le> 8"
  shows "fold mru_touch (rev as) m = take 8 (as @ filter (\<lambda>x. x \<notin> set as) m)"
  using assms(2)
proof (induction as)
  case Nil
  then show ?case using assms(3) by simp
next
  case (Cons pid as)
  let ?l = "as @ filter (\<lambda>x. x \<notin> set as) m"
  have "fold mru_touch (rev (pid # as)) m = mru_touch pid (take 8 ?l)" using Cons by simp
  also have "\<dots> = pid # take 7 (remove1 pid ?l)"
    using take_remove1_take [of 7 pid ?l] by (simp add: mru_touch_def)
  also have "\<dots> = pid # take 7 (as @ filter (\<lambda>x. x \<notin> set (pid # as)) m)"
    using remove1_append_filter [OF assms(1), of pid as] Cons.prems by simp
  finally show ?case by simp
qed

lemma copy_acks_to_mru_eq:
  assumes "ack_wf ack" and "ack_wf mru" and "0 \<le> n" and "n \<le> a_len ack"
    and "distinct (ack_list ack)" and "distinct (ack_list mru)"
  shows "\<exists>mru'. copy_acks_to_mru ack mru n = Some mru' \<and> ack_wf mru'
    \<and> ack_list mru' = take 8 (take (nat n) (ack_list ack)
        @ filter (\<lambda>x. x \<notin> set (take (nat n) (ack_list ack))) (ack_list mru))"
proof -
  have "take (nat n) (a_packet_id ack) = take (nat n) (ack_list ack)"
    using assms(3,4) by (simp add: ack_list_def min_def)
  moreover have "length (ack_list mru) \<le> 8" using length_ack_list [OF assms(2)] assms(2) by (auto simp: ack_wf_def)
  ultimately show ?thesis
    using copy_acks_loop_eq [OF assms(2), of "rev (take (nat n) (ack_list ack))"] assms
      fold_mru_touch [OF assms(6), of "take (nat n) (ack_list ack)"]
    by (simp add: copy_acks_to_mru_def)
qed

subsection \<open>The record on the wire\<close>

definition ack_record :: "u32 list \<Rightarrow> session_id \<Rightarrow> u8 list" where
  "ack_record pids sid = [of_nat (length pids)] @ concat (map u32_be pids) @ (if pids = [] then [] else sid_id sid)"

lemma length_concat_u32 [simp]: "length (concat (map u32_be pids)) = 4 * length pids"
  by (induction pids) auto

lemma ack_write_loop_eq:
  assumes "buf_wf s" and "has_room False s (int (4 * length pids) + n)" and "0 \<le> n"
  shows "\<exists>s'. ack_write_loop pids s = Some s' \<and> buf_wf s' \<and> buf_content s' = buf_content s @ concat (map u32_be pids)
    \<and> has_room False s' n \<and> b_offset s' = b_offset s \<and> b_capacity s' = b_capacity s"
  using assms(1,2)
proof (induction pids arbitrary: s)
  case Nil
  then show ?case by simp
next
  case (Cons pid pids)
  have room: "has_room False s (int (length (u32_be pid)))"
    using Cons.prems(2) assms(3) by (auto intro: has_room_mono)
  note w = buf_write_room [OF Cons.prems(1) room]
  have "has_room False (buf_appended s (u32_be pid)) (int (4 * length pids) + n)"
    using w(4) Cons.prems(2) by (simp add: algebra_simps)
  then show ?case using Cons.IH [OF w(2)] w(1,3) by auto
qed

lemma ack_parse_loop_eq:
  assumes "buf_wf b" and "buf_content b = concat (map u32_be pids) @ rest"
    and "ack_wf a" and "length (ack_list a) + length pids \<le> 8"
  shows "\<exists>b' a'. ack_parse_loop (length pids) b a = Some (True, b', a') \<and> buf_wf b' \<and> buf_content b' = rest
    \<and> ack_wf a' \<and> ack_list a' = ack_list a @ pids"
  using assms
proof (induction pids arbitrary: b a)
  case Nil
  then show ?case by simp
next
  case (Cons pid pids)
  have len: "a_len a < 8" using Cons.prems(3,4) length_ack_list [OF Cons.prems(3)] by (auto simp: ack_wf_def)
  obtain ids where ids: "arr_set (a_packet_id a) (a_len a) pid = Some ids"
    "ack_wf (a\<lparr>a_packet_id := ids, a_len := a_len a + 1\<rparr>)"
    "ack_list (a\<lparr>a_packet_id := ids, a_len := a_len a + 1\<rparr>) = ack_list a @ [pid]"
    using ack_append [OF Cons.prems(3) len] by blast
  have bl: "4 \<le> b_len b" using length_buf_content [OF Cons.prems(1)] Cons.prems(2) by simp
  have rd: "buf_read b 4 = Some (Some (u32_be pid), buf_consumed b 4)" "buf_wf (buf_consumed b 4)"
    "buf_content (buf_consumed b 4) = concat (map u32_be pids) @ rest"
    using Cons.prems(1,2) bl by (simp_all add: buf_read_pos)
  then show ?case using Cons.IH [OF rd(2,3) ids(2)] ids len Cons.prems(4) by (auto simp: RELIABLE_ACK_SIZE_def)
qed

text \<open>Reserving a part of the buffer, writing it in full and putting it back.\<close>

lemma buf_sub_eq:
  assumes "buf_wf b" and "has_room pre b sz" and "0 \<le> sz"
  shows "\<exists>xs p b1. buf_sub b sz pre = Some (buf_of xs 0 0, p, b1) \<and> int (length xs) = sz
    \<and> (\<forall>ys sub. int (length ys) = sz \<longrightarrow> b_data sub = Some ys \<longrightarrow>
         buf_sub_commit b1 p sub = Some (if pre then buf_prepended b ys else buf_appended b ys))"
  using assms(1)
proof (cases rule: buf_wf_cases)
  case null
  then show ?thesis using assms(2) by (simp add: has_room_def)
next
  case (block xs p l)
  show ?thesis
  proof (cases pre)
    case True
    then have "sz \<le> int p" using assms(2) block(1) by (simp add: has_room_def)
    then obtain k where k: "sz = int k" "k \<le> p" using assms(3) by (metis int_ops(3) nat_int_comparison(3) nonneg_int_cases)
    then show ?thesis
      using True block
      by (simp add: buf_sub_def buf_prepend_def buf_sub_commit_def mem_read_def mem_write_def buf_prepended_def
          buf_valid_def buf_bptr_def buf_of_def of_nat_diff nat_diff_distrib overwrite_def)
  next
    case False
    then have "int p + int l + sz \<le> int (length xs)" using assms(2) block(1) by (simp add: has_room_def)
    then obtain k where k: "sz = int k" "p + l + k \<le> length xs" using assms(3) by (metis nat_int_comparison(3) nonneg_int_cases of_nat_add)
    have safe: "buf_safe b sz" using has_room_safe [OF assms(1,3)] assms(2) False by simp
    then show ?thesis
      using False block k
      by (simp add: buf_sub_def buf_write_alloc_def buf_sub_commit_def mem_read_def mem_write_def buf_appended_def
          buf_valid_def buf_bptr_def buf_of_def nat_add_distrib overwrite_def)
  qed
qed

lemma full_content:
  assumes "buf_wf s" and "b_offset s = 0" and "b_len s = b_capacity s"
  shows "b_data s = None \<or> b_data s = Some (buf_content s)"
  using assms by (cases "b_data s") (simp_all add: buf_wf_def buf_content_def)

lemma ack_record_sub:
  assumes "buf_wf s" and "buf_content s = []" and "b_offset s = 0" and "b_data s \<noteq> None"
    and "b_capacity s = int (length (ack_record pids sid))" and "length pids < 256"
    and "pids \<noteq> [] \<longrightarrow> session_id_defined sid"
  shows "\<exists>s1 s2 s3. buf_write_u8 s (of_nat (length pids)) = Some (True, s1) \<and> ack_write_loop pids s1 = Some s2
    \<and> (if pids = [] then s3 = s2 else session_id_write sid s2 = Some (True, s3))
    \<and> b_data s3 = Some (ack_record pids sid)"
proof -
  let ?n = "if pids = [] then 0 else int (length (sid_id sid))"
  have n0: "0 \<le> ?n" by simp
  have bl: "b_len s = 0" using buf_content_Nil_iff [OF assms(1)] assms(2) by simp
  have room: "has_room False s (1 + (int (4 * length pids) + ?n))"
    using assms(3,4,5) bl by (simp add: has_room_def ack_record_def)
  have "has_room False s (int (length [of_nat (length pids) :: u8]))"
    by (rule has_room_mono [OF room]) auto
  note w1 = buf_write_room [OF assms(1) this]
  let ?s1 = "buf_appended s [of_nat (length pids)]"
  have room1: "has_room False ?s1 (int (4 * length pids) + ?n)" using w1(4) room by simp
  obtain s2 where s2: "ack_write_loop pids ?s1 = Some s2" "buf_wf s2" "has_room False s2 ?n"
    "buf_content s2 = [of_nat (length pids)] @ concat (map u32_be pids)" "b_offset s2 = 0" "b_capacity s2 = b_capacity s"
    using ack_write_loop_eq [OF w1(2) room1 n0] w1(3) assms(2,3) by auto
  note w3 = buf_write_room [OF s2(2), of "sid_id sid"]
  let ?s3 = "if pids = [] then s2 else buf_appended s2 (sid_id sid)"
  have s3: "buf_wf ?s3" "buf_content ?s3 = ack_record pids sid" "b_offset ?s3 = 0" "b_capacity ?s3 = b_capacity s"
    using s2 w3 by (auto simp: ack_record_def has_room_def)
  have "b_data ?s3 \<noteq> None" using s2(3) by (simp add: has_room_def del: not_None_eq)
  moreover have "b_len ?s3 = b_capacity ?s3" using length_buf_content [OF s3(1)] s3(2,4) assms(5) by simp
  ultimately have "b_data ?s3 = Some (ack_record pids sid)" using full_content [OF s3(1,3)] s3(2) by auto
  then show ?thesis
    using w1(1) s2 w3(1) by (intro exI [of _ ?s1] exI [of _ s2] exI [of _ ?s3]) (auto simp: buf_write_u8_def session_id_write_def)
qed

text \<open>What \<open>reliable_ack_write\<close> sends: the ids of the record after the list has been updated.\<close>

definition acks_sent :: "reliable_ack \<Rightarrow> reliable_ack \<Rightarrow> nat \<Rightarrow> u32 list" where
  "acks_sent ack mru mx = take (min mx 8) (take mx (ack_list ack)
     @ filter (\<lambda>x. x \<notin> set (take mx (ack_list ack))) (ack_list mru))"

lemma reliable_ack_write_eq:
  assumes ack: "ack_wf ack" "distinct (ack_list ack)" and mru: "ack_wf mru" "distinct (ack_list mru)"
    and b: "buf_wf b" "has_room prepend b (int (length (ack_record (acks_sent ack mru (nat mx)) sid)))"
    and mx: "0 \<le> mx" and sid: "session_id_defined sid" "length (sid_id sid) = 8"
  shows "\<exists>ack' mru'. reliable_ack_write ack mru b sid mx prepend = Some (True, ack', mru',
      (if prepend then buf_prepended b (ack_record (acks_sent ack mru (nat mx)) sid)
       else buf_appended b (ack_record (acks_sent ack mru (nat mx)) sid)))
    \<and> ack_wf ack' \<and> ack_list ack' = drop (nat mx) (ack_list ack) \<and> ack_wf mru'
    \<and> acks_sent ack mru (nat mx) = take (nat mx) (ack_list mru')"
proof -
  let ?k = "nat mx" and ?ids = "acks_sent ack mru (nat mx)"
  define n where "n = (if a_len ack > mx then mx else a_len ack)"
  have n: "0 \<le> n" "n \<le> a_len ack" "take (nat n) (ack_list ack) = take ?k (ack_list ack)"
    "drop (nat n) (ack_list ack) = drop ?k (ack_list ack)"
    using ack(1) mx length_ack_list [OF ack(1)] by (auto simp: n_def ack_wf_def)
  obtain mru' where m: "copy_acks_to_mru ack mru n = Some mru'" "ack_wf mru'"
    "ack_list mru' = take 8 (take ?k (ack_list ack) @ filter (\<lambda>x. x \<notin> set (take ?k (ack_list ack))) (ack_list mru))"
    using copy_acks_to_mru_eq [OF ack(1) mru(1) n(1,2) ack(2) mru(2)] n(3) by auto
  have ids: "?ids = take ?k (ack_list mru')" by (simp only: acks_sent_def m(3) take_take)
  have len: "length ?ids < 256" "int (length ?ids) = min mx (a_len mru')"
    using m(2) length_ack_list [OF m(2)] mx by (auto simp: ids ack_wf_def)
  have tot: "(of_int (min mx (a_len mru')) :: u8) = of_nat (length ?ids)"
    using len(2) by (metis of_int_of_nat_eq)
  have tot': "unat (of_nat (length ?ids) :: u8) = length ?ids" using len(1) by simp
  have tot'': "uint (of_nat (length ?ids) :: u8) = int (length ?ids)" using tot' by (metis int_ops(1) of_nat_unat)
  have ids': "take (length ?ids) (a_packet_id mru') = ?ids"
    using m(2) length_ack_list [OF m(2)] by (simp add: ids ack_list_def ack_wf_def min_def)
  have sz: "ACK_SIZE (int (length ?ids)) = int (length (ack_record ?ids sid))"
    using sid(2) by (simp add: ACK_SIZE_def SID_SIZE_def ack_record_def)
  obtain xs p b1 where sub: "buf_sub b (int (length (ack_record ?ids sid))) prepend = Some (buf_of xs 0 0, p, b1)"
    "length xs = length (ack_record ?ids sid)"
    "\<And>sub. b_data sub = Some (ack_record ?ids sid) \<Longrightarrow> buf_sub_commit b1 p sub =
      Some (if prepend then buf_prepended b (ack_record ?ids sid) else buf_appended b (ack_record ?ids sid))"
    using buf_sub_eq [OF b] by force
  have "int (length xs) < BUF_SIZE_MAX" using sub(2) len(1) sid(2) by (simp add: ack_record_def BUF_SIZE_MAX_def)
  then obtain s1 s2 s3 where s: "buf_write_u8 (buf_of xs 0 0) (of_nat (length ?ids)) = Some (True, s1)"
    "ack_write_loop ?ids s1 = Some s2" "if ?ids = [] then s3 = s2 else session_id_write sid s2 = Some (True, s3)"
    "b_data s3 = Some (ack_record ?ids sid)"
    using ack_record_sub [of "buf_of xs 0 0" ?ids sid] sub(2) len(1) sid(1) by auto
  define ack' where "ack' = (if n \<noteq> 0 then ack\<lparr>a_packet_id := overwrite (a_packet_id ack) 0 (drop (nat n) (ack_list ack)),
      a_len := int (length (drop (nat n) (ack_list ack)))\<rparr> else ack)"
  have z: "(of_nat (length ?ids) :: u8) = 0 \<longleftrightarrow> ?ids = []" using tot' by (metis length_0_conv unat_0 unat_eq_zero)
  have "reliable_ack_write ack mru b sid mx prepend = Some (True, ack', mru',
      (if prepend then buf_prepended b (ack_record ?ids sid) else buf_appended b (ack_record ?ids sid)))"
    using m(1) sub(1) sub(3) [OF s(4)] s sid(1) ids' z sz len(1)
    unfolding reliable_ack_write_def n_def [symmetric] Let_def ack'_def
    by (cases "?ids = []") (simp_all add: tot tot' tot'' del: bind_Some_iff)
  moreover have "ack_wf ack' \<and> ack_list ack' = drop ?k (ack_list ack)"
  proof (cases "n = 0")
    case True
    then show ?thesis using ack(1) n(4) by (simp add: ack'_def)
  next
    case False
    let ?r = "drop (nat n) (ack_list ack)"
    have "length ?r + length (drop (length ?r) (a_packet_id ack)) = 8"
      using ack(1) length_ack_list [OF ack(1)] by (auto simp: ack_wf_def)
    then show ?thesis
      using ack_of_split [of "length ?r" _ ?r ack] False n(4) by (simp add: ack'_def overwrite_def)
  qed
  ultimately show ?thesis using m(2) ids by blast
qed

lemma reliable_ack_parse_eq:
  assumes "buf_wf b" and "buf_content b = ack_record pids sid @ rest" and "length pids \<le> 8"
    and "length (sid_id sid) = 8" and "ack_wf a"
  shows "\<exists>b' a' sid'. reliable_ack_parse b a junk = Some (True, b', a', sid') \<and> buf_wf b' \<and> buf_content b' = rest
    \<and> ack_wf a' \<and> ack_list a' = pids \<and> (pids \<noteq> [] \<longrightarrow> sid' = sid)"
proof -
  let ?a0 = "a\<lparr>a_len := 0\<rparr>" and ?b1 = "buf_consumed b 1"
  let ?tail = "(if pids = [] then [] else sid_id sid) @ rest"
  have a0: "ack_wf ?a0" "ack_list ?a0 = []" using assms(5) by (simp_all add: ack_wf_def ack_list_def)
  have bl: "1 \<le> b_len b" using length_buf_content [OF assms(1)] assms(2) by (simp add: ack_record_def)
  have b1: "buf_read b 1 = Some (Some [of_nat (length pids)], ?b1)" "buf_wf ?b1"
    "buf_content ?b1 = concat (map u32_be pids) @ ?tail"
    using assms(1,2) bl by (simp_all add: buf_read_pos ack_record_def)
  obtain b2 a' where p: "ack_parse_loop (length pids) ?b1 ?a0 = Some (True, b2, a')" "buf_wf b2"
    "buf_content b2 = ?tail" "ack_wf a'" "ack_list a' = pids"
    using ack_parse_loop_eq [OF b1(2,3) a0(1)] a0(2) assms(3) by auto
  have n: "unat (of_nat (length pids) :: u8) = length pids" using assms(3) by simp
  show ?thesis
  proof (cases "pids = []")
    case True
    then show ?thesis using b1(1) p by (simp add: reliable_ack_parse_def)
  next
    case False
    have "SID_SIZE \<le> b_len b2"
      using length_buf_content [OF p(2)] p(3) False assms(4) by (simp add: SID_SIZE_def)
    then have "session_id_read junk b2 = Some (True, sid, buf_consumed b2 8)" "buf_wf (buf_consumed b2 8)"
      "buf_content (buf_consumed b2 8) = rest"
      using p(2,3) False assms(4) by (simp_all add: session_id_read_def buf_read_pos SID_SIZE_def)
    then show ?thesis using b1(1) p n False assms(3) by (simp add: reliable_ack_parse_def)
  qed
qed

lemma length_acks_sent: "length (acks_sent ack mru mx) \<le> 8"
  by (simp add: acks_sent_def)

subsection \<open>Properties\<close>

text \<open>
  C15. Acknowledgment round trip. \<open>reliable_ack_write\<close> sends the pending acknowledgments first, as
  many as fit, and fills the record with recently sent ones that are not among them; it removes from
  the pending list exactly the ids that went out; and \<open>reliable_ack_parse\<close> reads back those
  ids and the session id and leaves the rest of the packet.
\<close>

theorem reliable_ack_roundtrip:
  assumes "ack_wf ack" and "distinct (ack_list ack)" and "ack_wf mru" and "distinct (ack_list mru)"
    and "buf_wf b" and "has_room prepend b (int (length (ack_record (acks_sent ack mru (nat mx)) sid)))"
    and "0 \<le> mx" and "session_id_defined sid" and "length (sid_id sid) = 8"
    and "prepend \<or> buf_content b = []" and "ack_wf a0"
  shows "\<exists>ack' mru' b1 b2 a sid'. reliable_ack_write ack mru b sid mx prepend = Some (True, ack', mru', b1)
    \<and> ack_list ack' = drop (nat mx) (ack_list ack) \<and> buf_wf b1
    \<and> reliable_ack_parse b1 a0 junk = Some (True, b2, a, sid')
    \<and> ack_list a = take (min (nat mx) 8) (take (nat mx) (ack_list ack)
        @ filter (\<lambda>x. x \<notin> set (take (nat mx) (ack_list ack))) (ack_list mru))
    \<and> (ack_list a \<noteq> [] \<longrightarrow> sid' = sid) \<and> buf_content b2 = buf_content b"
proof -
  let ?r = "ack_record (acks_sent ack mru (nat mx)) sid"
  define b1 where "b1 = (if prepend then buf_prepended b ?r else buf_appended b ?r)"
  have b1: "buf_wf b1" "buf_content b1 = ?r @ buf_content b"
    using assms(6,10) buf_write_prepend_room [OF assms(5), of ?r] buf_write_room [OF assms(5), of ?r]
    by (auto simp: b1_def)
  obtain ack' mru' where w: "reliable_ack_write ack mru b sid mx prepend = Some (True, ack', mru', b1)"
    "ack_list ack' = drop (nat mx) (ack_list ack)"
    using reliable_ack_write_eq [OF assms(1-9)] unfolding b1_def by blast
  obtain b2 a sid' where "reliable_ack_parse b1 a0 junk = Some (True, b2, a, sid')" "buf_content b2 = buf_content b"
    "ack_list a = acks_sent ack mru (nat mx)" "acks_sent ack mru (nat mx) \<noteq> [] \<longrightarrow> sid' = sid"
    using reliable_ack_parse_eq [OF b1 length_acks_sent assms(9,11), of junk] by blast
  then show ?thesis using w b1(1) unfolding acks_sent_def by (metis (no_types, lifting))
qed

theorem reliable_ack_roundtrip_witness:
  "\<exists>ack' mru' b1 b2 a sid'. reliable_ack_write \<lparr>a_len = 1, a_packet_id = [5, 0, 0, 0, 0, 0, 0, 0]\<rparr>
      \<lparr>a_len = 2, a_packet_id = [4, 3, 0, 0, 0, 0, 0, 0]\<rparr> (buf_of (replicate 30 0) 0 0) \<lparr>sid_id = replicate 8 1\<rparr> 4 False
      = Some (True, ack', mru', b1)
    \<and> ack_list ack' = drop (nat 4) (ack_list \<lparr>a_len = 1, a_packet_id = [5, 0, 0, 0, 0, 0, 0, 0]\<rparr>) \<and> buf_wf b1
    \<and> reliable_ack_parse b1 \<lparr>a_len = 0, a_packet_id = replicate 8 0\<rparr> x_session_id_zero = Some (True, b2, a, sid')
    \<and> ack_list a = take (min (nat 4) 8) (take (nat 4) (ack_list \<lparr>a_len = 1, a_packet_id = [5, 0, 0, 0, 0, 0, 0, 0]\<rparr>)
        @ filter (\<lambda>x. x \<notin> set (take (nat 4) (ack_list \<lparr>a_len = 1, a_packet_id = [5, 0, 0, 0, 0, 0, 0, 0]\<rparr>)))
            (ack_list \<lparr>a_len = 2, a_packet_id = [4, 3, 0, 0, 0, 0, 0, 0]\<rparr>))
    \<and> (ack_list a \<noteq> [] \<longrightarrow> sid' = \<lparr>sid_id = replicate 8 1\<rparr>) \<and> buf_content b2 = buf_content (buf_of (replicate 30 0) 0 0)"
  by (rule reliable_ack_roundtrip)
    (simp_all add: ack_wf_def ack_list_def BUF_SIZE_MAX_def has_room_def acks_sent_def ack_record_def
      session_id_defined_def x_session_id_zero_def eval_nat_numeral)
end
