(* ===== verification/Reliable_Send.thy ===== *)
theory Reliable_Send
  imports Reliable_Recv
begin

text \<open>
  The sending side of the reliability layer: the window of unacknowledged packets, purging, the choice
  of the packet to send and its back-off.
\<close>

subsection \<open>The lowest active id\<close>

lemma min_active_step:
  assumes "\<forall>e \<in> set es. e_active e \<longrightarrow> unat (e_packet_id e) < 2 ^ 31"
    and "\<forall>k. m = Some k \<longrightarrow> unat k < 2 ^ 31"
  shows "case foldl (\<lambda>m e. if e_active e \<and> (case m of None \<Rightarrow> True | Some k \<Rightarrow> reliable_pid_min (e_packet_id e) k)
       then Some (e_packet_id e) else m) m es of
      None \<Rightarrow> m = None \<and> (\<forall>e \<in> set es. \<not> e_active e)
    | Some r \<Rightarrow> (m = Some r \<or> (\<exists>e \<in> set es. e_active e \<and> e_packet_id e = r))
        \<and> (\<forall>k. m = Some k \<longrightarrow> unat r \<le> unat k) \<and> (\<forall>e \<in> set es. e_active e \<longrightarrow> unat r \<le> unat (e_packet_id e))"
  using assms
proof (induction es arbitrary: m)
  case Nil
  then show ?case by (cases m) auto
next
  case (Cons e es)
  let ?g = "\<lambda>m e. if e_active e \<and> (case m of None \<Rightarrow> True | Some k \<Rightarrow> reliable_pid_min (e_packet_id e) k)
       then Some (e_packet_id e) else m"
  have pm: "reliable_pid_min (e_packet_id e) k \<longleftrightarrow> unat (e_packet_id e) < unat k" if "m = Some k" "e_active e" for k
    using that Cons.prems by (intro pid_min_nat) (auto simp: order_less_imp_le)
  have "\<forall>k. ?g m e = Some k \<longrightarrow> unat k < 2 ^ 31" using Cons.prems by (auto split: if_splits)
  then have ih: "case foldl ?g (?g m e) es of
      None \<Rightarrow> ?g m e = None \<and> (\<forall>e \<in> set es. \<not> e_active e)
    | Some r \<Rightarrow> (?g m e = Some r \<or> (\<exists>e \<in> set es. e_active e \<and> e_packet_id e = r))
        \<and> (\<forall>k. ?g m e = Some k \<longrightarrow> unat r \<le> unat k) \<and> (\<forall>e \<in> set es. e_active e \<longrightarrow> unat r \<le> unat (e_packet_id e))"
    using Cons.IH [of "?g m e"] Cons.prems(1) by simp
  show ?case
  proof (cases "foldl ?g (?g m e) es")
    case None
    then show ?thesis using ih by (cases m) (auto split: if_splits)
  next
    case (Some r)
    then show ?thesis using ih pm by (cases m) (auto split: if_splits)
  qed
qed

lemma min_active_None:
  assumes "\<forall>e \<in> set es. e_active e \<longrightarrow> unat (e_packet_id e) < 2 ^ 31"
  shows "min_active_id es = None \<Longrightarrow> e \<in> set es \<Longrightarrow> \<not> e_active e"
  using min_active_step [OF assms, of None] by (simp add: min_active_id_def)

lemma min_active_Some:
  assumes "\<forall>e \<in> set es. e_active e \<longrightarrow> unat (e_packet_id e) < 2 ^ 31" and "min_active_id es = Some r"
  shows "\<exists>e \<in> set es. e_active e \<and> e_packet_id e = r"
    and "e \<in> set es \<Longrightarrow> e_active e \<Longrightarrow> unat r \<le> unat (e_packet_id e)"
  using min_active_step [OF assms(1), of None] assms(2) by (simp_all add: min_active_id_def)

subsection \<open>The window\<close>

definition send_inv :: "reliable \<Rightarrow> bool" where
  "send_inv rel \<longleftrightarrow> rel_shape rel \<and>
     (\<forall>e \<in> set (entries rel). e_active e \<longrightarrow>
        unat (e_packet_id e) < rel_base rel \<and> rel_base rel \<le> unat (e_packet_id e) + length (entries rel))
     \<and> (\<forall>i < length (entries rel). \<forall>j < length (entries rel).
        e_active (entries rel ! i) \<longrightarrow> e_active (entries rel ! j) \<longrightarrow>
        e_packet_id (entries rel ! i) = e_packet_id (entries rel ! j) \<longrightarrow> i = j)"

text \<open>The operations of the sender as a step relation, while the ids stay below \<open>2^31\<close>.\<close>

definition queue_packet :: "reliable \<Rightarrow> u8 list \<Rightarrow> int \<Rightarrow> reliable option" where
  "queue_packet rel payload opcode = do {
     (slot, rel1) \<leftarrow> reliable_get_buf_output_sequenced rel;
     i \<leftarrow> slot;
     (ok, b) \<leftarrow> buf_write (e_buf (rl_array rel1 ! i)) payload;
     assertion ok;
     reliable_mark_active_outgoing (upd_entry rel1 i (\<lambda>e. e\<lparr>e_buf := b\<rparr>)) i opcode }"

inductive send_step :: "reliable \<Rightarrow> reliable \<Rightarrow> bool" where
  queue: "unat (rl_packet_id rel) < 2 ^ 31 - 1 \<Longrightarrow>
    queue_packet rel payload opcode = Some rel2 \<Longrightarrow>
    send_step rel rel2"
| acked: "send_step rel (reliable_send_purge rel ack)"
| sent: "reliable_send now rel = (r, rel1) \<Longrightarrow> send_step rel rel1"
| schedule: "send_step rel (reliable_schedule_now now rel)"
| timeout: "send_step rel (reliable_set_timeout rel t)"

inductive_cases send_stepE: "send_step rel rel'"

text \<open>Steps that only change times, counters or drop packets.\<close>

definition weaker_entry :: "reliable_entry \<Rightarrow> reliable_entry \<Rightarrow> bool" where
  "weaker_entry e e' \<longleftrightarrow> e_buf e' = e_buf e \<and> e_packet_id e' = e_packet_id e \<and> (e_active e' \<longrightarrow> e_active e)"

lemma send_inv_weaker:
  assumes "send_inv rel" and "list_all2 weaker_entry (entries rel) (entries rel')"
    and "rl_size rel' = rl_size rel" "rl_offset rel' = rl_offset rel" "rl_packet_id rel' = rl_packet_id rel"
    "length (rl_array rel') = length (rl_array rel)"
  shows "send_inv rel'"
proof -
  have len: "length (entries rel') = length (entries rel)" using list_all2_lengthD [OF assms(2)] by simp
  have w: "weaker_entry (entries rel ! i) (entries rel' ! i)" if "i < length (entries rel)" for i
    using assms(2) that by (simp add: list_all2_conv_all_nth)
  have "\<exists>e \<in> set (entries rel). weaker_entry e e'" if "e' \<in> set (entries rel')" for e'
    using that w len by (metis in_set_conv_nth)
  then show ?thesis
    using assms(1,3-6) w len
    unfolding send_inv_def rel_shape_def rel_base_def weaker_entry_def by metis
qed

lemma entries_map:
  assumes "length (rl_array rel) = 12" and "rl_size rel \<le> 12" and "0 \<le> rl_size rel"
  shows "entries (rel\<lparr>rl_array := map f (entries rel) @ drop (nat (rl_size rel)) (rl_array rel)\<rparr>) = map f (entries rel)"
    and "length (map f (entries rel) @ drop (nat (rl_size rel)) (rl_array rel)) = 12"
  using assms by (auto simp: entries_def)

lemma send_inv_map:
  assumes "send_inv rel" and "\<And>e. weaker_entry e (f e)"
  shows "send_inv (rel\<lparr>rl_array := map f (entries rel) @ drop (nat (rl_size rel)) (rl_array rel)\<rparr>)"
proof -
  have sh: "length (rl_array rel) = 12" "rl_size rel \<le> 12" "0 \<le> rl_size rel"
    using assms(1) by (auto simp: send_inv_def rel_shape_def RELIABLE_CAPACITY_def)
  show ?thesis
    by (rule send_inv_weaker [OF assms(1)])
      (use entries_map [OF sh, of f] sh assms(2) in \<open>simp_all add: list_all2_conv_all_nth\<close>)
qed

lemma send_inv_fields [simp]:
  "send_inv (rel\<lparr>rl_hold := h\<rparr>) = send_inv rel" "send_inv (rel\<lparr>rl_initial_timeout := t\<rparr>) = send_inv rel"
  by (simp_all add: send_inv_def rel_shape_def rel_base_def entries_def)

lemma purge_pid_inv: "send_inv rel \<Longrightarrow> send_inv (purge_pid pid rel)"
  unfolding purge_pid_def by (rule send_inv_map) (simp_all add: weaker_entry_def purge_entry_def)

lemma send_purge_inv: "send_inv rel \<Longrightarrow> send_inv (reliable_send_purge rel ack)"
proof -
  have "send_inv rel \<Longrightarrow> send_inv (fold purge_pid pids rel)" for pids
    by (induction pids arbitrary: rel) (simp_all add: purge_pid_inv)
  then show "send_inv rel \<Longrightarrow> send_inv (reliable_send_purge rel ack)" by (simp add: reliable_send_purge_def)
qed

lemma schedule_now_inv:
  assumes "send_inv rel"
  shows "send_inv (reliable_schedule_now now rel)"
proof -
  let ?f = "\<lambda>e. if e_active e then e\<lparr>e_next_try := now, e_timeout := rl_initial_timeout rel\<rparr> else e"
  have "entries (rel\<lparr>rl_hold := False\<rparr>) = entries rel" by (simp add: entries_def)
  then show ?thesis
    using send_inv_map [of "rel\<lparr>rl_hold := False\<rparr>" ?f] assms
    by (simp add: reliable_schedule_now_def weaker_entry_def)
qed

lemma upd_weaker:
  assumes "send_inv rel" and "i < length (entries rel)" and "\<And>e. weaker_entry e (f e)"
  shows "send_inv (upd_entry rel i f)"
  by (rule send_inv_weaker [OF assms(1)])
    (use assms(2,3) in \<open>auto simp: entries_upd list_all2_conv_all_nth nth_list_update weaker_entry_def\<close>)


subsection \<open>Queueing a packet\<close>

lemma send_inv_queue:
  assumes inv: "send_inv rel" and i: "i < length (entries rel)" "\<not> e_active (entries rel ! i)"
    and lim: "rel_base rel < 2 ^ 31 - 1"
    and win: "\<And>e. e \<in> set (entries rel) \<Longrightarrow> e_active e \<Longrightarrow> rel_base rel < unat (e_packet_id e) + length (entries rel)"
    and b: "buf_wf b" "b_data b \<noteq> None" "rl_offset rel \<le> b_capacity b"
    and f: "f (entries rel ! i) = (entries rel ! i)\<lparr>e_packet_id := rl_packet_id rel, e_buf := b, e_active := True,
      e_opcode := opcode, e_next_try := 0, e_timeout := t\<rparr>"
  shows "send_inv ((upd_entry rel i f)\<lparr>rl_packet_id := rl_packet_id rel + 1\<rparr>)"
proof -
  let ?rel = "(upd_entry rel i f)\<lparr>rl_packet_id := rl_packet_id rel + 1\<rparr>"
  have es: "entries ?rel = (entries rel)[i := f (entries rel ! i)]" using i(1) by (simp add: entries_upd)
  have base: "rel_base ?rel = Suc (rel_base rel)"
    using lim unat_Suc_less [of "rl_packet_id rel" "0x7FFFFFFF"] by (simp add: rel_base_def word_less_nat_alt)
  have sh: "rel_shape rel" using inv by (simp add: send_inv_def)
  have below: "unat (e_packet_id e) < rel_base rel" if "e \<in> set (entries rel)" "e_active e" for e
    using inv that by (simp add: send_inv_def)
  have fe: "e_packet_id (f (entries rel ! i)) = rl_packet_id rel" "e_active (f (entries rel ! i))"
    "e_buf (f (entries rel ! i)) = b" using f by simp_all
  have "rel_shape ?rel"
    unfolding rel_shape_packet_id by (rule rel_shape_upd [OF sh i(1)]) (use b fe in simp_all)
  moreover have "unat (e_packet_id e) < rel_base ?rel \<and> rel_base ?rel \<le> unat (e_packet_id e) + length (entries ?rel)"
    if e: "e \<in> set (entries ?rel)" "e_active e" for e
  proof (cases "e = f (entries rel ! i)")
    case True
    then show ?thesis using fe base i(1) by (simp add: rel_base_def entries_upd Suc_leI)
  next
    case False
    then have "e \<in> set (entries rel)" using e(1) es set_update_subset_insert [of "entries rel" i] by auto
    then show ?thesis using below win e(2) base es by (simp add: less_SucI Suc_leI)
  qed
  moreover have "j = k" if "j < length (entries ?rel)" "k < length (entries ?rel)" "e_active (entries ?rel ! j)"
    "e_active (entries ?rel ! k)" "e_packet_id (entries ?rel ! j) = e_packet_id (entries ?rel ! k)" for j k
  proof -
    have ne: "e_packet_id (entries rel ! m) \<noteq> rl_packet_id rel" if "m < length (entries rel)" "e_active (entries rel ! m)" for m
      using below [of "entries rel ! m"] that by (auto simp: rel_base_def)
    show ?thesis
      using that inv fe ne [of j] ne [of k] i unfolding es send_inv_def
      by (auto simp: nth_list_update split: if_splits)
  qed
  ultimately show ?thesis unfolding send_inv_def by blast
qed

lemma send_ids_small: "send_inv rel \<Longrightarrow> rel_base rel \<le> 2 ^ 31 \<Longrightarrow> \<forall>e \<in> set (entries rel). e_active e \<longrightarrow> unat (e_packet_id e) < 2 ^ 31"
  by (auto simp: send_inv_def)

lemma get_buf_output_sequenced_Some:
  assumes inv: "send_inv rel" and lim: "rel_base rel \<le> 2 ^ 31"
    and get: "reliable_get_buf_output_sequenced rel = Some (Some i, rel1)"
  shows "reliable_get_buf rel = Some (Some i, rel1)"
    and "\<And>e. e \<in> set (entries rel) \<Longrightarrow> e_active e \<Longrightarrow> rel_base rel < unat (e_packet_id e) + length (entries rel)"
proof -
  note small = send_ids_small [OF inv lim]
  have sh: "rel_shape rel" using inv by (simp add: send_inv_def)
  show "reliable_get_buf rel = Some (Some i, rel1)"
    using get by (auto simp: reliable_get_buf_output_sequenced_def split: option.splits if_splits)
  show "rel_base rel < unat (e_packet_id e) + length (entries rel)" if e: "e \<in> set (entries rel)" "e_active e" for e
  proof (cases "min_active_id (entries rel)")
    case None
    then show ?thesis using min_active_None [OF small] e by blast
  next
    case (Some m)
    have m: "unat m \<le> unat (e_packet_id e)" "unat m < rel_base rel"
      using min_active_Some [OF small Some] e inv by (auto simp: send_inv_def)
    have "m \<le> rl_packet_id rel" using m(2) by (simp add: word_le_nat_alt rel_base_def)
    then have "unat (rl_packet_id rel - m) = rel_base rel - unat m" by (simp add: unat_diff_le rel_base_def)
    moreover have "reliable_pid_in_range1 (rl_packet_id rel) m (of_int (rl_size rel))"
      using get Some by (auto simp: reliable_get_buf_output_sequenced_def split: if_splits)
    ultimately have "rel_base rel - unat m < length (entries rel)"
      using unat_of_size [OF sh] by (simp add: reliable_pid_in_range1_def subtract_pid_def word_less_nat_alt)
    then show ?thesis using m by linarith
  qed
qed

lemma reliable_get_buf_Some:
  assumes "rel_shape rel" and "reliable_get_buf rel = Some (Some i, rel1)"
  shows "\<exists>b. rel1 = upd_entry rel i (\<lambda>e. e\<lparr>e_buf := b\<rparr>) \<and> buf_wf b \<and> buf_content b = []
    \<and> b_capacity b = b_capacity (e_buf (entries rel ! i))" and "i < length (entries rel)" and "\<not> e_active (entries rel ! i)"
proof -
  have f: "find_from 0 (\<lambda>e. \<not> e_active e) (entries rel) = Some i"
    using assms(2) by (auto simp: reliable_get_buf_def split: option.splits prod.splits)
  show "i < length (entries rel)" and "\<not> e_active (entries rel ! i)" using find_from_0 [OF f] by auto
  show "\<exists>b. rel1 = upd_entry rel i (\<lambda>e. e\<lparr>e_buf := b\<rparr>) \<and> buf_wf b \<and> buf_content b = []
    \<and> b_capacity b = b_capacity (e_buf (entries rel ! i))"
    using reliable_get_buf_eq [OF assms(1) f] assms(2) by auto
qed

lemma queue_inv:
  assumes inv: "send_inv rel" and lim: "rel_base rel < 2 ^ 31 - 1"
    and get: "reliable_get_buf_output_sequenced rel = Some (Some i, rel1)"
    and wr: "buf_write (e_buf (rl_array rel1 ! i)) payload = Some (True, b)"
    and mark: "reliable_mark_active_outgoing (upd_entry rel1 i (\<lambda>e. e\<lparr>e_buf := b\<rparr>)) i opcode = Some rel2"
  shows "send_inv rel2 \<and> rel_base rel2 = Suc (rel_base rel) \<and> i < length (entries rel2)
    \<and> e_active (entries rel2 ! i) \<and> e_packet_id (entries rel2 ! i) = rl_packet_id rel
    \<and> buf_content (e_buf (entries rel2 ! i)) = u32_be (rl_packet_id rel) @ payload"
proof -
  have sh: "rel_shape rel" using inv by (simp add: send_inv_def)
  have "rel_base rel \<le> 2 ^ 31" using lim by simp
  note seq = get_buf_output_sequenced_Some [OF inv this get]
  obtain b0 where b0: "rel1 = upd_entry rel i (\<lambda>e. e\<lparr>e_buf := b0\<rparr>)" "buf_wf b0" "buf_content b0 = []"
    "b_capacity b0 = b_capacity (e_buf (entries rel ! i))" and il: "i < length (entries rel)" "\<not> e_active (entries rel ! i)"
    using reliable_get_buf_Some [OF sh seq(1)] by blast
  have ia: "i < length (rl_array rel)" using entries_le_array [OF il(1)] .
  have e1: "e_buf (rl_array rel1 ! i) = b0" using ia by (simp add: b0(1) upd_entry_def)
  have b: "buf_safe b0 (int (length payload))" "b = buf_appended b0 payload"
    using wr e1 buf_write_eq [OF b0(2), of payload] by (auto split: if_splits)
  have bw: "buf_wf b" "buf_content b = payload" "b_capacity b = b_capacity (e_buf (entries rel ! i))"
    using buf_appended_wf [OF b0(2) b(1)] b0 b(2) by simp_all
  let ?net = "u32_be (rl_packet_id rel)"
  have rel1: "upd_entry rel1 i (\<lambda>e. e\<lparr>e_buf := b\<rparr>) = upd_entry rel i (\<lambda>e. e\<lparr>e_buf := b\<rparr>)"
    using ia by (simp add: b0(1) upd_entry_upd)
  obtain b2 where b2: "buf_write_prepend b ?net = Some (True, b2)"
    "rel2 = upd_entry ((upd_entry rel i (\<lambda>e. e\<lparr>e_buf := b\<rparr>))\<lparr>rl_packet_id := rl_packet_id rel + 1\<rparr>) i
       (\<lambda>e. e\<lparr>e_packet_id := rl_packet_id rel, e_buf := b2, e_active := True, e_opcode := opcode, e_next_try := 0,
             e_timeout := rl_initial_timeout rel\<rparr>)"
    using mark unfolding rel1 reliable_mark_active_outgoing_def
    using ia by (auto simp: upd_entry_def Let_def)
  have pre: "b_data b \<noteq> None \<and> int (length ?net) \<le> b_offset b" "b2 = buf_prepended b ?net"
    using b2(1) buf_write_prepend_eq [OF bw(1), of ?net] by (auto split: if_splits)
  have bp: "buf_wf b2" "buf_content b2 = ?net @ payload" "b_data b2 \<noteq> None" "b_capacity b2 = b_capacity b"
    using buf_prepended_wf [OF bw(1), of ?net] pre bw(2) by (simp_all del: not_None_eq)
  let ?f = "\<lambda>e. e\<lparr>e_packet_id := rl_packet_id rel, e_buf := b2, e_active := True, e_opcode := opcode, e_next_try := 0,
             e_timeout := rl_initial_timeout rel\<rparr>"
  have rel2: "rel2 = (upd_entry rel i ?f)\<lparr>rl_packet_id := rl_packet_id rel + 1\<rparr>"
    using ia by (simp add: b2(2) upd_entry_def)
  have cap: "rl_offset rel \<le> b_capacity b2" using rel_shape_nth(3) [OF sh il(1)] bw(3) bp(4) by simp
  have "send_inv rel2"
    unfolding rel2 by (rule send_inv_queue [OF inv il lim seq(2) bp(1,3) cap]) simp_all
  moreover have "rel_base rel2 = Suc (rel_base rel)"
    using lim unat_Suc_less [of "rl_packet_id rel" "0x7FFFFFFF"] by (simp add: rel2 rel_base_def word_less_nat_alt)
  moreover have "entries rel2 = (entries rel)[i := ?f (entries rel ! i)]" using il(1) by (simp add: rel2 entries_upd)
  ultimately show ?thesis using il(1) bp(2) by simp
qed

lemma queue_packet_inv:
  assumes "send_inv rel" and "rel_base rel < 2 ^ 31 - 1" and "queue_packet rel payload opcode = Some rel2"
  shows "send_inv rel2 \<and> rel_base rel2 = Suc (rel_base rel) \<and> (\<exists>i < length (entries rel2).
    e_active (entries rel2 ! i) \<and> e_packet_id (entries rel2 ! i) = rl_packet_id rel
    \<and> buf_content (e_buf (entries rel2 ! i)) = u32_be (rl_packet_id rel) @ payload)"
proof -
  obtain i rel1 b where "reliable_get_buf_output_sequenced rel = Some (Some i, rel1)"
    "buf_write (e_buf (rl_array rel1 ! i)) payload = Some (True, b)"
    "reliable_mark_active_outgoing (upd_entry rel1 i (\<lambda>e. e\<lparr>e_buf := b\<rparr>)) i opcode = Some rel2"
    using assms(3) by (auto simp: queue_packet_def)
  from queue_inv [OF assms(1,2) this] show ?thesis by blast
qed

subsection \<open>The packet to send\<close>

lemma send_best_spec:
  assumes "\<forall>i \<in> set is. due now (es ! i) \<longrightarrow> unat (e_packet_id (es ! i)) < 2 ^ 31"
    and "\<forall>k. best = Some k \<longrightarrow> due now (es ! k) \<and> unat (e_packet_id (es ! k)) < 2 ^ 31"
  shows "case send_best now es is best of
      None \<Rightarrow> best = None \<and> (\<forall>i \<in> set is. \<not> due now (es ! i))
    | Some r \<Rightarrow> (best = Some r \<or> r \<in> set is) \<and> due now (es ! r)
        \<and> (\<forall>k. best = Some k \<longrightarrow> unat (e_packet_id (es ! r)) \<le> unat (e_packet_id (es ! k)))
        \<and> (\<forall>i \<in> set is. due now (es ! i) \<longrightarrow> unat (e_packet_id (es ! r)) \<le> unat (e_packet_id (es ! i)))"
  using assms
proof (induction "is" arbitrary: best)
  case Nil
  then show ?case by (cases best) auto
next
  case (Cons i "is")
  let ?b = "if due now (es ! i) \<and> (case best of None \<Rightarrow> True
      | Some k \<Rightarrow> reliable_pid_min (e_packet_id (es ! i)) (e_packet_id (es ! k))) then Some i else best"
  have pm: "reliable_pid_min (e_packet_id (es ! i)) (e_packet_id (es ! k))
      \<longleftrightarrow> unat (e_packet_id (es ! i)) < unat (e_packet_id (es ! k))" if "best = Some k" "due now (es ! i)" for k
    using that Cons.prems by (intro pid_min_nat) (auto simp: order_less_imp_le)
  have "\<forall>k. ?b = Some k \<longrightarrow> due now (es ! k) \<and> unat (e_packet_id (es ! k)) < 2 ^ 31"
    using Cons.prems by (auto split: if_splits)
  note ih = Cons.IH [OF _ this]
  show ?case
  proof (cases "send_best now es is ?b")
    case None
    then show ?thesis using ih Cons.prems(1) by (cases best) (auto split: if_splits)
  next
    case (Some r)
    then show ?thesis using ih Cons.prems(1) pm by (cases best) (auto split: if_splits)
  qed
qed

lemma reliable_send_spec:
  assumes inv: "send_inv rel" and lim: "rel_base rel \<le> 2 ^ 31"
  shows "case reliable_send now rel of
      (None, rel') \<Rightarrow> rel' = rel \<and> (\<forall>e \<in> set (entries rel). \<not> due now e)
    | (Some (i, opcode), rel') \<Rightarrow> i < length (entries rel) \<and> due now (entries rel ! i)
        \<and> opcode = e_opcode (entries rel ! i)
        \<and> (\<forall>e \<in> set (entries rel). due now e \<longrightarrow> unat (e_packet_id (entries rel ! i)) \<le> unat (e_packet_id e))
        \<and> rel' = upd_entry rel i (\<lambda>e. e\<lparr>e_next_try := now + e_timeout e, e_timeout := e_timeout e * 2, e_n_acks := 0\<rparr>)"
proof -
  have sh: "rel_shape rel" using inv by (simp add: send_inv_def)
  let ?n = "length (entries rel)" and ?is = "[0..<nat (rl_size rel)]"
  have n: "set ?is = {..<?n}" using length_entries [OF sh] by auto
  have nth: "rl_array rel ! i = entries rel ! i" if "i < ?n" for i using entries_nth [OF that] .
  have act: "due now e \<Longrightarrow> e_active e" for e by (simp add: due_def)
  have "\<forall>i \<in> set ?is. due now (rl_array rel ! i) \<longrightarrow> unat (e_packet_id (rl_array rel ! i)) < 2 ^ 31"
    using send_ids_small [OF inv lim] act nth unfolding n by (metis lessThan_iff nth_mem)
  note sp = send_best_spec [OF this, of None]
  have all: "(\<forall>i < ?n. P (rl_array rel ! i)) \<longleftrightarrow> (\<forall>e \<in> set (entries rel). P e)" for P
    using nth by (metis in_set_conv_nth)
  show ?thesis
  proof (cases "send_best now (rl_array rel) ?is None")
    case None
    then have "\<forall>i < ?n. \<not> due now (rl_array rel ! i)" using sp n by auto
    then have "\<forall>e \<in> set (entries rel). \<not> due now e" using all [of "\<lambda>e. \<not> due now e"] by blast
    then show ?thesis using None by (simp add: reliable_send_def)
  next
    case (Some i)
    then have i: "i < ?n" "due now (rl_array rel ! i)"
      "\<forall>j < ?n. due now (rl_array rel ! j) \<longrightarrow> unat (e_packet_id (rl_array rel ! i)) \<le> unat (e_packet_id (rl_array rel ! j))"
      using sp n by auto
    then have "\<forall>e \<in> set (entries rel). due now e \<longrightarrow> unat (e_packet_id (rl_array rel ! i)) \<le> unat (e_packet_id e)"
      using all [of "\<lambda>e. due now e \<longrightarrow> unat (e_packet_id (rl_array rel ! i)) \<le> unat (e_packet_id e)"] by blast
    then show ?thesis using Some i nth [OF i(1)] by (simp add: reliable_send_def)
  qed
qed

lemma reliable_send_inv:
  assumes "send_inv rel" and "reliable_send now rel = (r, rel')"
  shows "send_inv rel' \<and> rel_base rel' = rel_base rel"
proof (cases "send_best now (rl_array rel) [0..<nat (rl_size rel)] None")
  case None
  then show ?thesis using assms by (simp add: reliable_send_def)
next
  case (Some i)
  have in_list: "send_best now es is best = Some i \<Longrightarrow> i \<in> set is \<or> best = Some i" for es "is" best
    by (induction "is" arbitrary: best) (auto split: if_splits)
  have "i < length (entries rel)"
    using in_list [OF Some] length_entries [of rel] assms(1) by (auto simp: send_inv_def)
  then show ?thesis
    using Some assms upd_weaker [OF assms(1)] by (auto simp: reliable_send_def rel_base_def weaker_entry_def)
qed

lemma send_step_inv: "send_step rel rel' \<Longrightarrow> send_inv rel \<Longrightarrow> send_inv rel'"
proof (induction rule: send_step.induct)
  case (queue rel payload opcode rel2)
  have "rel_base rel < 2 ^ 31 - 1" using queue(1) by (simp add: rel_base_def)
  then show ?case using queue_packet_inv [OF queue(3) _ queue(2)] by blast
next
  case (acked rel ack)
  then show ?case by (rule send_purge_inv)
next
  case (sent now rel r rel1)
  then show ?case using reliable_send_inv by blast
next
  case (schedule rel now)
  then show ?case by (rule schedule_now_inv)
next
  case (timeout rel t)
  then show ?case by (simp add: reliable_set_timeout_def)
qed

lemma reliable_init_send_inv:
  assumes "reliable_init buf_size off n hold = Some rel0" and "0 \<le> off"
  shows "send_inv rel0"
proof -
  have pre: "off \<le> buf_size" "buf_size < BUF_SIZE_MAX" "0 < n" "n \<le> RELIABLE_CAPACITY"
    using assms(1) by (auto simp: reliable_init_def alloc_buf_Some_iff buf_init_def split: if_splits)
  have sh: "rel_shape rel0" and "\<not> held rel0 q" for q
    using reliable_init_inv [OF assms(2) pre, of hold "\<lambda>_. []" q] assms(1) by auto
  then have "\<not> e_active e" if "e \<in> set (entries rel0)" for e
    using that by (auto simp: held_def in_set_conv_nth)
  then show ?thesis using sh nth_mem by (auto simp: send_inv_def)
qed

subsection \<open>Properties\<close>

text \<open>
  C13. The send window. In every state the sender can reach by queueing packets, receiving
  acknowledgments, (re)sending and rescheduling, the unacknowledged packets have distinct ids, all
  below the next id and none more than the size of the window behind it: a receiver of the same
  size that has delivered everything acknowledged never finds one of them out of its window.
\<close>

theorem reliable_send_window:
  assumes "reliable_init buf_size off n hold = Some rel0" and "0 \<le> off" and "send_step\<^sup>*\<^sup>* rel0 rel"
    and "i < length (entries rel)" and "e_active (entries rel ! i)"
  shows "unat (e_packet_id (entries rel ! i)) < rel_base rel
    \<and> rel_base rel \<le> unat (e_packet_id (entries rel ! i)) + length (entries rel)
    \<and> (\<forall>j < length (entries rel). e_active (entries rel ! j)
        \<longrightarrow> e_packet_id (entries rel ! j) = e_packet_id (entries rel ! i) \<longrightarrow> j = i)"
proof -
  have "send_inv rel0" by (rule reliable_init_send_inv [OF assms(1,2)])
  with assms(3) have "send_inv rel" by induction (auto intro: send_step_inv)
  then show ?thesis using assms(4,5) nth_mem [OF assms(4)] by (auto simp: send_inv_def)
qed

text \<open>A sender with one queued packet.\<close>

definition sample_queued :: "reliable option" where
  "sample_queued = do { r \<leftarrow> reliable_init 20 8 2 False; queue_packet r [7] 4 }"

lemma sample_queued_ok:
  "(case sample_queued of None \<Rightarrow> False | Some r \<Rightarrow> length (entries r) = 2 \<and> e_active (entries r ! 0)
    \<and> e_packet_id (entries r ! 0) = 0 \<and> rl_packet_id r = 1)"
  by code_simp

lemma sample_queued_state:
  obtains rel0 rel where "sample_queued = Some rel" and "reliable_init 20 8 2 False = Some rel0"
    and "send_step\<^sup>*\<^sup>* rel0 rel" and "send_inv rel" and "length (entries rel) = 2" and "e_active (entries rel ! 0)"
    and "rel_base rel = 1"
proof -
  obtain rel where rel: "sample_queued = Some rel" "length (entries rel) = 2" "e_active (entries rel ! 0)" "rl_packet_id rel = 1"
    using sample_queued_ok by (auto split: option.splits)
  obtain rel0 where rel0: "reliable_init 20 8 2 False = Some rel0" "queue_packet rel0 [7] 4 = Some rel"
    using rel(1) by (auto simp: sample_queued_def)
  have p0: "rl_packet_id rel0 = 0" using rel0(1) by (auto simp: reliable_init_def split_beta)
  have "send_inv rel0" using reliable_init_send_inv [OF rel0(1)] by simp
  then have "send_inv rel" using queue_packet_inv [OF _ _ rel0(2)] p0 by (simp add: rel_base_def)
  moreover have "send_step\<^sup>*\<^sup>* rel0 rel" using rel0(2) p0 by (intro r_into_rtranclp send_step.queue) simp_all
  moreover have "rel_base rel = 1" using rel(4) by (simp add: rel_base_def)
  ultimately show thesis using that rel rel0 by blast
qed

theorem reliable_send_window_witness:
  "\<exists>rel. sample_queued = Some rel \<and> unat (e_packet_id (entries rel ! 0)) < rel_base rel
    \<and> rel_base rel \<le> unat (e_packet_id (entries rel ! 0)) + length (entries rel)"
proof -
  obtain rel0 rel where "sample_queued = Some rel" "reliable_init 20 8 2 False = Some rel0"
    "send_step\<^sup>*\<^sup>* rel0 rel" "length (entries rel) = 2" "e_active (entries rel ! 0)"
    by (rule sample_queued_state)
  then show ?thesis using reliable_send_window [of 20 8 2 False rel0 rel 0] by (intro exI [of _ rel]) simp
qed



text \<open>
  C16. Acknowledged packets leave the send buffer and no others: after \<open>reliable_send_purge\<close> an entry
  is active exactly if it was and its id is not in the record; ids and contents are kept.
\<close>

theorem reliable_send_purge_exact:
  assumes "rel_shape rel" and "i < length (entries rel)"
  shows "length (entries (reliable_send_purge rel ack)) = length (entries rel)
    \<and> (e_active (entries (reliable_send_purge rel ack) ! i) \<longleftrightarrow>
        e_active (entries rel ! i) \<and> e_packet_id (entries rel ! i) \<notin> set (ack_list ack))
    \<and> e_packet_id (entries (reliable_send_purge rel ack) ! i) = e_packet_id (entries rel ! i)
    \<and> e_buf (entries (reliable_send_purge rel ack) ! i) = e_buf (entries rel ! i)"
proof -
  have step: "entries (purge_pid pid r) = map (purge_entry pid) (entries r)"
    "length (rl_array (purge_pid pid r)) = 12 \<and> 0 \<le> rl_size (purge_pid pid r) \<and> rl_size (purge_pid pid r) \<le> 12"
    if "length (rl_array r) = 12" "rl_size r \<le> 12" "0 \<le> rl_size r" for pid r
    using entries_map [OF that, of "purge_entry pid"] that by (simp_all add: purge_pid_def)
  have fold_map: "entries (fold purge_pid pids r) = map (fold purge_entry pids) (entries r)"
    if "length (rl_array r) = 12" "rl_size r \<le> 12" "0 \<le> rl_size r" for pids r
    using that by (induction pids arbitrary: r) (simp_all add: step comp_def)
  have one: "(e_active (fold purge_entry pids e) \<longleftrightarrow> e_active e \<and> e_packet_id e \<notin> set pids)
      \<and> e_packet_id (fold purge_entry pids e) = e_packet_id e \<and> e_buf (fold purge_entry pids e) = e_buf e" for pids e
    by (induction pids arbitrary: e) (auto simp: purge_entry_def)
  have "length (rl_array rel) = 12" "rl_size rel \<le> 12" "0 \<le> rl_size rel"
    using assms(1) by (auto simp: rel_shape_def RELIABLE_CAPACITY_def)
  then show ?thesis using assms(2) one by (simp add: reliable_send_purge_def fold_map)
qed

theorem reliable_send_purge_exact_witness:
  "\<exists>rel. sample_queued = Some rel
    \<and> (e_active (entries (reliable_send_purge rel \<lparr>a_len = 1, a_packet_id = replicate 8 0\<rparr>) ! 0) \<longleftrightarrow>
        e_active (entries rel ! 0) \<and> e_packet_id (entries rel ! 0) \<notin> {0})"
proof -
  obtain rel0 rel where rel: "sample_queued = Some rel" "send_inv rel" "length (entries rel) = 2"
    by (rule sample_queued_state)
  then show ?thesis
    using reliable_send_purge_exact [of rel 0 "\<lparr>a_len = 1, a_packet_id = replicate 8 0\<rparr>"]
    by (intro exI [of _ rel]) (simp add: send_inv_def ack_list_def)
qed

end
