(* ===== verification/Base64.thy ===== *)
theory Base64
  imports Integer_Ops
begin

text \<open>
  Base64, \<^verbatim>\<open>base64.c\<close>. A C string is the list of its bytes before the terminating zero. The encoder's
  loop is recursion on the bytes from \<^verbatim>\<open>q[i]\<close> on, the decoder's on the characters from \<^verbatim>\<open>p\<close> on; the result
  \<^verbatim>\<open>-1\<close> is \<open>None\<close>. The properties: the decoder inverts the encoder, stays within the bounds of its
  output, and the encoder's allocation is large enough.
\<close>

unbundle bit_operations_syntax

definition base64_chars :: "u8 list" where
  "base64_chars = map of_char ''ABCDEFGHIJKLMNOPQRSTUVWXYZabcdefghijklmnopqrstuvwxyz0123456789+/''"

definition eq_sign :: u8 where
  "eq_sign = 61"

definition DECODE_ERROR :: u32 where
  "DECODE_ERROR = 0xffffffff"

fun encode_loop :: "u8 list \<Rightarrow> u8 list" where
  "encode_loop [] = []"
| "encode_loop (x # q) =
     (let c0 = push_bit 8 (ucast x :: u32);
          c1 = push_bit 8 (case q of y # _ \<Rightarrow> c0 + ucast y | _ \<Rightarrow> c0);
          c = (case q of _ # z # _ \<Rightarrow> c1 + ucast z | _ \<Rightarrow> c1);
          p0 = base64_chars ! unat (drop_bit 18 (c AND 0x00fc0000));
          p1 = base64_chars ! unat (drop_bit 12 (c AND 0x0003f000));
          p2 = (if length q < 1 then eq_sign else base64_chars ! unat (drop_bit 6 (c AND 0x00000fc0)));
          p3 = (if length q < 2 then eq_sign else base64_chars ! unat (c AND 0x0000003f))
      in [p0, p1, p2, p3] @ encode_loop (drop 2 q))"

definition encode_out_size :: "int \<Rightarrow> int" where
  "encode_out_size sz = sz * 4 div 3 + 4"

definition openvpn_base64_encode :: "u8 list \<Rightarrow> u8 list option" where
  "openvpn_base64_encode data =
     (if encode_out_size (int (length data)) > INT_MAX then None else Some (encode_loop data))"

fun pos_loop :: "u8 \<Rightarrow> u8 list \<Rightarrow> int \<Rightarrow> int" where
  "pos_loop c [] i = - 1"
| "pos_loop c (p # ps) i = (if p = c then i else pos_loop c ps (i + 1))"

definition pos :: "u8 \<Rightarrow> int" where
  "pos c = pos_loop c base64_chars 0"

fun token_loop :: "u8 list \<Rightarrow> u32 \<Rightarrow> u32 \<Rightarrow> (u32 \<times> u32) option" where
  \<comment> \<open>the value and the marker, or \<open>None\<close> for the early return of \<^verbatim>\<open>DECODE_ERROR\<close>\<close>
  "token_loop [] v marker = Some (v, marker)"
| "token_loop (t # ts) v marker =
     (let v' = push_bit 6 v
      in if t = eq_sign then token_loop ts v' (marker + 1)
         else if marker > 0 then None
         else let char_pos = pos t
              in if char_pos < 0 then None else token_loop ts (v' + of_int char_pos) marker)"

definition token_decode :: "u8 list \<Rightarrow> u32" where
  "token_decode token =
     (if length token < 4 then DECODE_ERROR
      else case token_loop (take 4 token) 0 0 of
        None \<Rightarrow> DECODE_ERROR
      | Some (v, marker) \<Rightarrow> if marker > 2 then DECODE_ERROR else push_bit 24 marker OR v)"

text \<open>
  One byte of output: \<open>None\<close> when the buffer of \<open>sz\<close> bytes is full; a negative \<open>sz\<close> is \<^verbatim>\<open>e = NULL\<close>, no
  bound.
\<close>

definition put_byte :: "int \<Rightarrow> u8 list \<Rightarrow> u8 \<Rightarrow> u8 list option" where
  "put_byte sz out b = (if sz \<ge> 0 \<and> int (length out) \<ge> sz then None else Some (out @ [b]))"

function decode_loop :: "u8 list \<Rightarrow> int \<Rightarrow> u8 list \<Rightarrow> u8 list option" where
  "decode_loop p sz out =
     (if p \<noteq> [] \<and> (hd p = eq_sign \<or> hd p \<in> set base64_chars)
      then let v = token_decode p; marker = drop_bit 24 v AND 0xff
           in if v = DECODE_ERROR then None
              else do {
                o1 \<leftarrow> put_byte sz out (ucast (drop_bit 16 v AND 0xff));
                o2 \<leftarrow> (if marker < 2 then put_byte sz o1 (ucast (drop_bit 8 v AND 0xff)) else Some o1);
                o3 \<leftarrow> (if marker < 1 then put_byte sz o2 (ucast (v AND 0xff)) else Some o2);
                decode_loop (drop 4 p) sz o3 }
      else Some out)"
  by pat_completeness auto
termination
  by (relation "measure (\<lambda>(p, sz, out). length p)") auto

declare decode_loop.simps [simp del]

definition openvpn_base64_decode :: "u8 list \<Rightarrow> int \<Rightarrow> u8 list option" where
  "openvpn_base64_decode str sz = decode_loop str sz []"

subsection \<open>Characters and groups of six bits\<close>

lemma base64_chars_facts:
  "length base64_chars = 64" "distinct base64_chars" "eq_sign \<notin> set base64_chars"
  by code_simp+

lemma pos_loop_nth:
  "distinct cs \<Longrightarrow> k < length cs \<Longrightarrow> pos_loop (cs ! k) cs i = i + int k"
proof (induction cs arbitrary: k i)
  case Nil
  then show ?case by simp
next
  case (Cons c cs)
  then show ?case by (cases k) auto
qed

lemma pos_nth: "k < 64 \<Longrightarrow> pos (base64_chars ! k) = int k"
  using pos_loop_nth [of base64_chars k 0] base64_chars_facts by (simp add: pos_def)

lemma char_nth: "k < 64 \<Longrightarrow> base64_chars ! k \<noteq> eq_sign" "k < 64 \<Longrightarrow> base64_chars ! k \<in> set base64_chars"
  using base64_chars_facts by (metis nth_mem)+

text \<open>The groups of six bits of a 24-bit value, as natural numbers.\<close>

lemma sextets:
  fixes c :: u32
  shows "unat (drop_bit 18 (c AND 0x00fc0000)) = unat c div 2 ^ 18 mod 64"
    and "unat (drop_bit 12 (c AND 0x0003f000)) = unat c div 2 ^ 12 mod 64"
    and "unat (drop_bit 6 (c AND 0x00000fc0)) = unat c div 2 ^ 6 mod 64"
    and "unat (c AND 0x0000003f) = unat c mod 64"
proof -
  have m: "drop_bit n (c AND push_bit n (mask 6)) = take_bit 6 (drop_bit n c)" for n
    by (rule bit_word_eqI) (auto simp: bit_simps dest: bit_imp_le_length)
  have u: "unat (take_bit 6 (drop_bit n c)) = unat c div 2 ^ n mod 64" for n
    by (simp only: unsigned_take_bit_eq unsigned_drop_bit_eq) (simp add: take_bit_eq_mod drop_bit_eq_div)
  show "unat (drop_bit 18 (c AND 0x00fc0000)) = unat c div 2 ^ 18 mod 64"
    using m [of 18] u [of 18] by (simp add: mask_eq_exp_minus_1 push_bit_eq_mult)
  show "unat (drop_bit 12 (c AND 0x0003f000)) = unat c div 2 ^ 12 mod 64"
    using m [of 12] u [of 12] by (simp add: mask_eq_exp_minus_1 push_bit_eq_mult)
  show "unat (drop_bit 6 (c AND 0x00000fc0)) = unat c div 2 ^ 6 mod 64"
    using m [of 6] u [of 6] by (simp add: mask_eq_exp_minus_1 push_bit_eq_mult)
  show "unat (c AND 0x0000003f) = unat c mod 64"
    using m [of 0] u [of 0] by (simp add: mask_eq_exp_minus_1)
qed

lemma octets:
  fixes c :: u32
  shows "ucast (drop_bit 16 c AND 0xff) = (of_nat (unat c div 2 ^ 16 mod 256) :: u8)"
    and "ucast (drop_bit 8 c AND 0xff) = (of_nat (unat c div 2 ^ 8 mod 256) :: u8)"
    and "ucast (c AND 0xff) = (of_nat (unat c mod 256) :: u8)"
    and "drop_bit 24 c AND 0xff = of_nat (unat c div 2 ^ 24 mod 256)"
proof -
  have m: "drop_bit n c AND 0xff = of_nat (unat c div 2 ^ n mod 256)" for n
  proof -
    have "drop_bit n c AND 0xff = take_bit 8 (drop_bit n c)" by (simp add: take_bit_eq_mask mask_eq_exp_minus_1)
    moreover have "unat (take_bit 8 (drop_bit n c)) = unat c div 2 ^ n mod 256"
      by (simp only: unsigned_take_bit_eq unsigned_drop_bit_eq) (simp add: take_bit_eq_mod drop_bit_eq_div)
    ultimately have "unat (drop_bit n c AND 0xff) = unat c div 2 ^ n mod 256" by simp
    then show ?thesis by (simp add: word_unat_eq_iff unat_of_nat)
  qed
  show "ucast (drop_bit 16 c AND 0xff) = (of_nat (unat c div 2 ^ 16 mod 256) :: u8)"
    and "ucast (drop_bit 8 c AND 0xff) = (of_nat (unat c div 2 ^ 8 mod 256) :: u8)"
    and "drop_bit 24 c AND 0xff = of_nat (unat c div 2 ^ 24 mod 256)"
    using m [of 16] m [of 8] m [of 24] by (simp_all add: word_unat_eq_iff unat_of_nat unsigned_ucast_eq take_bit_eq_mod)
  show "ucast (c AND 0xff) = (of_nat (unat c mod 256) :: u8)"
    using m [of 0] by (simp add: word_unat_eq_iff unat_of_nat unsigned_ucast_eq take_bit_eq_mod)
qed


subsection \<open>One group\<close>

definition group_value :: "nat \<Rightarrow> nat \<Rightarrow> nat \<Rightarrow> nat" where
  "group_value x y z = x * 65536 + y * 256 + z"

lemma group_bytes:
  assumes "x < 256" "y < 256" "z < 256"
  shows "group_value x y z < 2 ^ 24" "group_value x y z div 2 ^ 16 mod 256 = x"
    "group_value x y z div 2 ^ 8 mod 256 = y" "group_value x y z mod 256 = z"
proof -
  let ?g = "group_value x y z"
  have g: "?g = z + 256 * (y + 256 * x)" by (simp add: group_value_def)
  have d: "?g div 256 = y + 256 * x" using assms by (simp add: g)
  show "?g < 2 ^ 24" using assms by (simp add: group_value_def)
  show "?g mod 256 = z" using assms unfolding g mod_mult_self2 by simp
  show "?g div 2 ^ 8 mod 256 = y" using assms by (simp add: d)
  have "?g div 2 ^ 16 = ?g div 256 div 256" by (simp flip: div_mult2_eq)
  then show "?g div 2 ^ 16 mod 256 = x" using assms by (simp add: d)
qed

lemma sextets_join:
  "((v div 2 ^ 18 mod 64 * 64 + v div 2 ^ 12 mod 64) * 64 + v div 2 ^ 6 mod 64) * 64 + v mod 64 = (v :: nat) mod 2 ^ 24"
proof -
  have "v mod (64 * (64 * (64 * 64))) = 64 * (64 * (64 * (v div 64 div 64 div 64 mod 64) + v div 64 div 64 mod 64)
      + v div 64 mod 64) + v mod 64"
    by (simp only: mod_mult2_eq)
  moreover have "v div 2 ^ 18 = v div 64 div 64 div 64" "v div 2 ^ 12 = v div 64 div 64" "v div 2 ^ 6 = v div 64"
    by (simp_all flip: div_mult2_eq)
  moreover have "(64 * (64 * (64 * 64)) :: nat) = 2 ^ 24" by simp
  moreover have "((a * 64 + b) * 64 + c) * 64 + d = 64 * (64 * (64 * a + b) + c) + d" for a b c d :: nat by simp
  ultimately show ?thesis by (simp only:)
qed

lemma sextets_short: "((a * 64 + b) * 64 + c) * 64 + d = v \<Longrightarrow> c = 0 \<Longrightarrow> d = 0 \<Longrightarrow> (a * 64 + b) * 4096 = (v :: nat)"
  by simp

text \<open>The characters of a 24-bit value.\<close>

definition b64 :: "nat \<Rightarrow> u8" where
  "b64 k = base64_chars ! (k mod 64)"

lemma b64_facts [simp]: "pos (b64 k) = int (k mod 64)" "b64 k \<noteq> eq_sign" "b64 k \<in> set base64_chars"
  using pos_nth [of "k mod 64"] char_nth [of "k mod 64"] by (simp_all add: b64_def)

lemma unat_shift_add:
  "unat v < 2 ^ 18 \<Longrightarrow> k < 64 \<Longrightarrow> unat (push_bit 6 v + of_nat k :: u32) = unat v * 64 + k"
  by (simp add: unat_word_ariths push_bit_eq_mult unat_of_nat)


lemma token_loop_full:
  assumes "v < 2 ^ 24"
  shows "token_loop [b64 (v div 2 ^ 18), b64 (v div 2 ^ 12), b64 (v div 2 ^ 6), b64 v] 0 0 = Some (of_nat v, 0)"
proof -
  define a b c d where "a = v div 2 ^ 18 mod 64" and "b = v div 2 ^ 12 mod 64" and "c = v div 2 ^ 6 mod 64" and "d = v mod 64"
  have s: "a < 64" "b < 64" "c < 64" "d < 64" by (simp_all add: a_def b_def c_def d_def)
  have v: "((a * 64 + b) * 64 + c) * 64 + d = v" using sextets_join [of v] assms by (simp add: a_def b_def c_def d_def)
  have "push_bit 6 (push_bit 6 (push_bit 6 (push_bit 6 0 + of_nat a) + of_nat b) + of_nat c) + of_nat d = (of_nat v :: u32)"
    unfolding v [symmetric] by (simp add: push_bit_eq_mult algebra_simps)
  then show ?thesis by (simp add: a_def b_def c_def d_def)
qed

lemma token_loop_2:
  "token_loop [b64 k, b64 l, eq_sign, eq_sign] 0 0 = Some (of_nat ((k mod 64 * 64 + l mod 64) * 4096), 2)"
  by (simp add: push_bit_eq_mult algebra_simps)

lemma token_loop_3:
  "token_loop [b64 k, b64 l, b64 m, eq_sign] 0 0 = Some (of_nat (((k mod 64 * 64 + l mod 64) * 64 + m mod 64) * 64), 1)"
  by (simp add: push_bit_eq_mult algebra_simps)

lemma marked_value:
  assumes "v < 2 ^ 24" and "m \<le> 2"
  shows "unat (push_bit 24 (of_nat m) OR of_nat v :: u32) = m * 2 ^ 24 + v"
proof -
  let ?a = "push_bit 24 (of_nat m) :: u32" and ?b = "of_nat v :: u32"
  have b: "unat ?b = v" "take_bit 24 ?b = ?b"
    using assms(1) by (simp_all add: unat_of_nat take_bit_of_nat take_bit_nat_eq_self)
  have "?a AND ?b = 0"
    by (rule bit_word_eqI) (metis b(2) bit_and_iff bit_push_bit_iff bit_take_bit_iff linorder_not_less bit_0_eq bot_apply bot_bool_def)
  then have "?a OR ?b = ?a + ?b" by (simp add: disjunctive_add_eq_or)
  moreover have "unat ?a = m * 2 ^ 24" using assms(2) by (simp add: push_bit_eq_mult unat_word_ariths unat_of_nat)
  ultimately show ?thesis using b(1) assms by (simp add: unat_word_ariths)
qed

lemma marked_bytes:
  fixes v m :: nat
  assumes "v < 2 ^ 24" and "m \<le> 2"
  shows "(m * 2 ^ 24 + v) div 2 ^ 16 mod 256 = v div 2 ^ 16 mod 256" "(m * 2 ^ 24 + v) div 2 ^ 8 mod 256 = v div 2 ^ 8 mod 256"
    "(m * 2 ^ 24 + v) mod 256 = v mod 256" "(m * 2 ^ 24 + v) div 2 ^ 24 mod 256 = m"
proof -
  have "m * 2 ^ 24 + v = (256 * m) * 2 ^ 16 + v" "m * 2 ^ 24 + v = (256 * (256 * m)) * 2 ^ 8 + v"
    "m * 2 ^ 24 + v = 256 * (65536 * m) + v" by simp_all
  moreover have "((256 * m) * 2 ^ 16 + v) div 2 ^ 16 mod 256 = v div 2 ^ 16 mod 256"
    "((256 * (256 * m)) * 2 ^ 8 + v) div 2 ^ 8 mod 256 = v div 2 ^ 8 mod 256" "(256 * (65536 * m) + v) mod 256 = v mod 256"
    by (subst div_mult_self3, simp, rule mod_mult_self4)+ (rule mod_mult_self4)
  ultimately show "(m * 2 ^ 24 + v) div 2 ^ 16 mod 256 = v div 2 ^ 16 mod 256"
    "(m * 2 ^ 24 + v) div 2 ^ 8 mod 256 = v div 2 ^ 8 mod 256" "(m * 2 ^ 24 + v) mod 256 = v mod 256"
    by (simp_all only:)
  show "(m * 2 ^ 24 + v) div 2 ^ 24 mod 256 = m" using assms by (simp add: div_mult_self3)
qed

text \<open>What a token decodes to.\<close>

lemma token_decode_marked:
  assumes "length ts = 4" and "token_loop ts 0 0 = Some (of_nat v, of_nat m)" and "v < 2 ^ 24" and "m \<le> 2"
  shows "unat (token_decode (ts @ rest)) = m * 2 ^ 24 + v" and "token_decode (ts @ rest) \<noteq> DECODE_ERROR"
proof -
  have "\<not> 2 < (of_nat m :: u32)" using assms(4) by (simp add: word_less_nat_alt unat_of_nat)
  then show u: "unat (token_decode (ts @ rest)) = m * 2 ^ 24 + v"
    using assms marked_value [OF assms(3,4)] by (simp add: token_decode_def)
  then show "token_decode (ts @ rest) \<noteq> DECODE_ERROR"
    using assms(3,4) by (auto simp: DECODE_ERROR_def)
qed

lemma decode_group:
  assumes ts: "length ts = 4" "hd ts \<in> set base64_chars" and tok: "token_loop ts 0 0 = Some (of_nat v, of_nat m)"
    and v: "v < 2 ^ 24" "m \<le> 2"
    and room: "sz < 0 \<or> int (length out) + 3 - int m \<le> sz"
  shows "decode_loop (ts @ rest) sz out = decode_loop rest sz
    (out @ take (3 - m) [of_nat (v div 2 ^ 16 mod 256), of_nat (v div 2 ^ 8 mod 256), of_nat (v mod 256)])"
proof -
  let ?t = "token_decode (ts @ rest)"
  note td = token_decode_marked [OF ts(1) tok v, of rest]
  note o = marked_bytes [OF v]
  have h: "ts \<noteq> []" "hd (ts @ rest) \<in> set base64_chars" "drop 4 (ts @ rest) = rest"
    using ts by (auto simp: hd_append)
  have m: "drop_bit 24 ?t AND 0xff = of_nat m" by (simp only: octets(4) td(1) o(4))
  have b: "ucast (drop_bit 16 ?t AND 0xff) = (of_nat (v div 2 ^ 16 mod 256) :: u8)"
    "ucast (drop_bit 8 ?t AND 0xff) = (of_nat (v div 2 ^ 8 mod 256) :: u8)" "ucast (?t AND 0xff) = (of_nat (v mod 256) :: u8)"
    using octets(1) [of ?t] octets(2) [of ?t] octets(3) [of ?t] unfolding td(1) o by blast+
  have pb: "put_byte sz out x = Some (out @ [x])" "m < 2 \<Longrightarrow> put_byte sz (out @ [x]) y = Some (out @ [x, y])"
    "m < 1 \<Longrightarrow> put_byte sz (out @ [x, y]) z = Some (out @ [x, y, z])" for x y z
    using room v(2) by (auto simp: put_byte_def)
  consider "m = 0" | "m = 1" | "m = 2" using v(2) by linarith
  then show ?thesis
    by cases (simp_all add: decode_loop.simps [of "ts @ rest"] h ts td(2) Let_def m b pb del: bind_Some_iff)
qed

subsection \<open>The encoder, group by group\<close>

lemma unat_group:
  "unat (push_bit 8 (push_bit 8 (ucast (x :: u8)) + ucast (y :: u8)) + ucast (z :: u8) :: u32)
    = group_value (unat x) (unat y) (unat z)"
proof -
  have b: "(ucast w :: u32) = of_nat (unat w)" for w :: u8 by simp
  have "push_bit 8 (push_bit 8 (of_nat k) + of_nat l) + of_nat m = (of_nat (group_value k l m) :: u32)" for k l m
    by (simp add: push_bit_eq_mult group_value_def algebra_simps)
  then have "push_bit 8 (push_bit 8 (ucast x) + ucast y) + ucast z = (of_nat (group_value (unat x) (unat y) (unat z)) :: u32)"
    unfolding b .
  moreover have "group_value (unat x) (unat y) (unat z) < 4294967296"
    using group_bytes(1) [of "unat x" "unat y" "unat z"] by simp
  ultimately show ?thesis by (simp add: unat_of_nat)
qed

lemma encode_3:
  assumes "v = group_value (unat x) (unat y) (unat z)"
  shows "encode_loop (x # y # z # q) =
    [b64 (v div 2 ^ 18), b64 (v div 2 ^ 12), b64 (v div 2 ^ 6), b64 v] @ encode_loop q"
  using assms by (simp add: Let_def sextets unat_group b64_def unat_drop_bit_eq drop_bit_eq_div [where 'a = nat])

lemma encode_2:
  assumes "v = group_value (unat x) (unat y) 0"
  shows "encode_loop [x, y] = [b64 (v div 2 ^ 18), b64 (v div 2 ^ 12), b64 (v div 2 ^ 6), eq_sign]"
  using assms unat_group [of x y 0] by (simp add: Let_def sextets b64_def unat_drop_bit_eq drop_bit_eq_div [where 'a = nat])

lemma encode_1:
  assumes "v = group_value (unat x) 0 0"
  shows "encode_loop [x] = [b64 (v div 2 ^ 18), b64 (v div 2 ^ 12), eq_sign, eq_sign]"
  using assms unat_group [of x 0 0] by (simp add: Let_def sextets b64_def unat_drop_bit_eq drop_bit_eq_div [where 'a = nat])

lemma encode_loop_cases [case_names Nil one two three]:
  "(q = [] \<Longrightarrow> P) \<Longrightarrow> (\<And>x. q = [x] \<Longrightarrow> P) \<Longrightarrow> (\<And>x y. q = [x, y] \<Longrightarrow> P) \<Longrightarrow> (\<And>x y z r. q = x # y # z # r \<Longrightarrow> P) \<Longrightarrow> P"
  by (metis neq_Nil_conv)

lemma decode_Nil: "decode_loop [] sz out = Some out"
  by (simp add: decode_loop.simps)

lemma decode_encode:
  "sz < 0 \<or> int (length out) + int (length data) \<le> sz \<Longrightarrow> decode_loop (encode_loop data) sz out = Some (out @ data)"
proof (induction "length data" arbitrary: data out rule: less_induct)
  case less
  have hd: "hd [b64 k, l, m, n] \<in> set base64_chars" for k l m n by simp
  show ?case
  proof (cases data rule: encode_loop_cases)
    case Nil
    then show ?thesis by (simp add: decode_Nil)
  next
    case (one x)
    define v where "v = group_value (unat x) 0 0"
    have g: "v < 2 ^ 24" "v div 2 ^ 16 mod 256 = unat x" using group_bytes [of "unat x" 0 0] by (simp_all add: v_def)
    have z: "v div 2 ^ 6 mod 64 = 0" "v mod 64 = 0" by (simp_all add: v_def group_value_def)
    have "(v div 2 ^ 18 mod 64 * 64 + v div 2 ^ 12 mod 64) * 4096 = v"
      by (rule sextets_short [OF sextets_join [of v, unfolded mod_less [OF g(1)]] z])
    then have "token_loop [b64 (v div 2 ^ 18), b64 (v div 2 ^ 12), eq_sign, eq_sign] 0 0 = Some (of_nat v, of_nat 2)"
      using token_loop_2 [of "v div 2 ^ 18" "v div 2 ^ 12"] by (simp only:) simp
    moreover have "sz < 0 \<or> int (length out) + 3 - int 2 \<le> sz" using less.prems by (auto simp: one)
    ultimately show ?thesis
      using decode_group [OF _ hd _ g(1), where m = 2 and sz = sz and out = out and rest = "[]"]
      by (simp add: one g [simplified] encode_1 [OF v_def] g decode_Nil del: encode_loop.simps)
  next
    case (two x y)
    define v where "v = group_value (unat x) (unat y) 0"
    have g: "v < 2 ^ 24" "v div 2 ^ 16 mod 256 = unat x" "v div 2 ^ 8 mod 256 = unat y"
      using group_bytes [of "unat x" "unat y" 0] by (simp_all add: v_def)
    have "((v div 2 ^ 18 mod 64 * 64 + v div 2 ^ 12 mod 64) * 64 + v div 2 ^ 6 mod 64) * 64 = v"
      using sextets_join [of v] g(1) by (simp add: v_def group_value_def)
    then have "token_loop [b64 (v div 2 ^ 18), b64 (v div 2 ^ 12), b64 (v div 2 ^ 6), eq_sign] 0 0 = Some (of_nat v, of_nat 1)"
      using token_loop_3 [of "v div 2 ^ 18" "v div 2 ^ 12" "v div 2 ^ 6"] by (simp only:) simp
    moreover have "sz < 0 \<or> int (length out) + 3 - int 1 \<le> sz" using less.prems by (auto simp: two)
    ultimately show ?thesis
      using decode_group [OF _ hd _ g(1), where m = 1 and sz = sz and out = out and rest = "[]"]
      by (simp add: two g [simplified] encode_2 [OF v_def] g decode_Nil del: encode_loop.simps)
  next
    case (three x y z r)
    define v where "v = group_value (unat x) (unat y) (unat z)"
    have g: "v < 2 ^ 24" "v div 2 ^ 16 mod 256 = unat x" "v div 2 ^ 8 mod 256 = unat y" "v mod 256 = unat z"
      using group_bytes [of "unat x" "unat y" "unat z"] by (simp_all add: v_def)
    have "token_loop [b64 (v div 2 ^ 18), b64 (v div 2 ^ 12), b64 (v div 2 ^ 6), b64 v] 0 0 = Some (of_nat v, of_nat 0)"
      using token_loop_full [OF g(1)] by simp
    moreover have "sz < 0 \<or> int (length out) + 3 - int 0 \<le> sz" using less.prems by (auto simp: three)
    ultimately have "decode_loop (encode_loop data) sz out = decode_loop (encode_loop r) sz (out @ [x, y, z])"
      using decode_group [OF _ hd _ g(1), where m = 0 and sz = sz and out = out and rest = "encode_loop r"]
      by (simp add: three g [simplified] encode_3 [OF v_def] del: encode_loop.simps)
    then show ?thesis using less.prems less.hyps [of r "out @ [x, y, z]"] by (auto simp: three simp del: encode_loop.simps)
  qed
qed

lemma decode_bound: "decode_loop p sz out = Some r \<Longrightarrow> 0 \<le> sz \<Longrightarrow> int (length out) \<le> sz \<Longrightarrow> int (length r) \<le> sz"
proof (induction p sz out rule: decode_loop.induct)
  case (1 p sz out)
  show ?case
  proof (cases "p \<noteq> [] \<and> (hd p = eq_sign \<or> hd p \<in> set base64_chars) \<and> token_decode p \<noteq> DECODE_ERROR")
    case True
    let ?v = "token_decode p" let ?m = "drop_bit 24 ?v AND 0xff"
    have pb: "put_byte sz xs b = Some ys \<Longrightarrow> int (length ys) \<le> sz" for xs ys b
      using 1(3) by (auto simp: put_byte_def split: if_splits)
    obtain o1 o2 o3 where o: "put_byte sz out (ucast (drop_bit 16 ?v AND 0xff)) = Some o1"
      "(if ?m < 2 then put_byte sz o1 (ucast (drop_bit 8 ?v AND 0xff)) else Some o1) = Some o2"
      "(if ?m < 1 then put_byte sz o2 (ucast (?v AND 0xff)) else Some o2) = Some o3"
      "decode_loop (drop 4 p) sz o3 = Some r"
      using 1(2) True by (subst (asm) decode_loop.simps) (auto simp: Let_def simp del: if_split)
    then have "int (length o3) \<le> sz" using pb by (auto split: if_splits)
    then show ?thesis using 1(1) [OF _ refl refl _ o(1) o(2) o(3) o(4)] True 1(3) by auto
  next
    case False
    then show ?thesis using 1(2,4) by (subst (asm) decode_loop.simps) (auto simp: Let_def split: if_splits)
  qed
qed

lemma length_encode_loop: "length (encode_loop q) = 4 * ((length q + 2) div 3)"
proof (induction q rule: encode_loop.induct)
  case 1
  then show ?case by simp
next
  case (2 x q)
  have "length (encode_loop (x # q)) = 4 + length (encode_loop (drop 2 q))" by (simp add: Let_def)
  also have "\<dots> = 4 + 4 * ((length q - 2 + 2) div 3)" using 2 by (simp add: Let_def)
  also have "\<dots> = 4 * ((length (x # q) + 2) div 3)"
  proof (cases "2 \<le> length q")
    case True
    then have "length q - 2 + 2 = length q" by simp
    moreover have "length (x # q) + 2 = length q + 3" by simp
    moreover have "4 + 4 * (k div 3) = 4 * ((k + 3) div 3)" for k :: nat by (subst div_add_self2) simp_all
    ultimately show ?thesis by (simp only:)
  next
    case False
    then have "length q = 0 \<or> length q = 1" by linarith
    then show ?thesis by auto
  qed
  finally show ?case .
qed

subsection \<open>Properties\<close>

text \<open>
  C18. Base64 round trip. Every byte string the encoder accepts is read back by the decoder
  unchanged, with a bounded output buffer that is just large enough or larger and with an unbounded one.
\<close>

theorem base64_roundtrip:
  assumes "openvpn_base64_encode data = Some str" and "sz < 0 \<or> int (length data) \<le> sz"
  shows "openvpn_base64_decode str sz = Some data"
  using assms decode_encode [of sz "[]" data]
  by (auto simp: openvpn_base64_encode_def openvpn_base64_decode_def split: if_splits)

theorem base64_roundtrip_witness:
  "openvpn_base64_encode [1, 254, 7, 9] = Some (encode_loop [1, 254, 7, 9])
    \<and> openvpn_base64_decode (encode_loop [1, 254, 7, 9]) 4 = Some [1, 254, 7, 9]"
proof
  show e: "openvpn_base64_encode [1, 254, 7, 9] = Some (encode_loop [1, 254, 7, 9])"
    by (simp add: openvpn_base64_encode_def encode_out_size_def INT_MAX_def)
  show "openvpn_base64_decode (encode_loop [1, 254, 7, 9]) 4 = Some [1, 254, 7, 9]"
    by (rule base64_roundtrip [OF e]) simp
qed

text \<open>
  C19. Base64 memory safety. The encoder's result and its terminating zero fit in the
  \<open>size * 4 / 3 + 4\<close> bytes it allocates, and whatever the input string, the decoder never
  produces more bytes than the bound it is given.
\<close>

theorem base64_bounds:
  "int (length (encode_loop data)) + 1 \<le> encode_out_size (int (length data))
    \<and> (\<forall>str sz out. openvpn_base64_decode str sz = Some out \<longrightarrow> 0 \<le> sz \<longrightarrow> int (length out) \<le> sz)"
proof -
  have "int (4 * ((n + 2) div 3)) + 1 \<le> int n * 4 div 3 + 4" for n by presburger
  then show ?thesis
    using decode_bound by (auto simp: length_encode_loop encode_out_size_def openvpn_base64_decode_def)
qed

theorem base64_bounds_witness:
  "int (length (encode_loop [1, 2])) + 1 \<le> encode_out_size (int (length [1, 2 :: u8]))
    \<and> openvpn_base64_decode (encode_loop [1, 2]) 2 = Some [1, 2] \<and> int (length [1, 2 :: u8]) \<le> 2"
proof -
  have d: "openvpn_base64_decode (encode_loop [1, 2]) 2 = Some [1, 2]"
    using decode_encode [of 2 "[]" "[1, 2]"] by (simp add: openvpn_base64_decode_def)
  show ?thesis
    using conjunct1 [OF base64_bounds [of "[1, 2]"]] d conjunct2 [OF base64_bounds [of "[1, 2]"], rule_format, OF d]
    by (simp del: encode_loop.simps)
qed

end
