(* ===== verification/Fifo.thy ===== *)
theory Fifo
  imports Prelude
begin

text \<open>
  The contract of a bounded first-in-first-out queue whose elements may die while they wait: the queue
  is seen as the list of its elements, oldest first; adding appends when there is room; removing
  discards the dead elements at the front and returns the first live one, if there is one.
  From the contract follows what a queue that is filled and then drained delivers.
\<close>

fun enq_all :: "('s \<Rightarrow> 'a \<Rightarrow> 's option) \<Rightarrow> 's \<Rightarrow> 'a list \<Rightarrow> 's option" where
  "enq_all enq s [] = Some s"
| "enq_all enq s (x # xs) = do { s' \<leftarrow> enq s x; enq_all enq s' xs }"

fun drain :: "('s \<Rightarrow> 'a option \<times> 's) \<Rightarrow> nat \<Rightarrow> 's \<Rightarrow> 'a list" where
  "drain deq 0 s = []"
| "drain deq (Suc n) s = (case deq s of (None, s') \<Rightarrow> [] | (Some x, s') \<Rightarrow> x # drain deq n s')"

locale bounded_fifo =
  fixes inv :: "'s \<Rightarrow> bool"
    and view :: "'s \<Rightarrow> 'a list"
    and cap :: "'s \<Rightarrow> nat"
    and live :: "'a \<Rightarrow> bool"
    and ok :: "'s \<Rightarrow> 'a \<Rightarrow> bool"
    and enq :: "'s \<Rightarrow> 'a \<Rightarrow> 's option"
    and deq :: "'s \<Rightarrow> 'a option \<times> 's"
  assumes enq_law: "inv s \<Longrightarrow> ok s x \<Longrightarrow> length (view s) < cap s \<Longrightarrow>
      \<exists>s'. enq s x = Some s' \<and> inv s' \<and> view s' = view s @ [x] \<and> cap s' = cap s \<and> (\<forall>y. ok s y \<longrightarrow> ok s' y)"
    and deq_law: "inv s \<Longrightarrow> \<exists>s'. inv s' \<and>
      (case dropWhile (\<lambda>x. \<not> live x) (view s) of
         [] \<Rightarrow> deq s = (None, s') \<and> view s' = []
       | x # xs \<Rightarrow> deq s = (Some x, s') \<and> view s' = xs)"
begin

lemma enq_all_view:
  "inv s \<Longrightarrow> \<forall>x \<in> set xs. ok s x \<Longrightarrow> length (view s) + length xs \<le> cap s \<Longrightarrow>
    \<exists>s'. enq_all enq s xs = Some s' \<and> inv s' \<and> view s' = view s @ xs \<and> cap s' = cap s"
proof (induction xs arbitrary: s)
  case Nil
  then show ?case by simp
next
  case (Cons x xs)
  then obtain s1 where s1: "enq s x = Some s1" "inv s1" "view s1 = view s @ [x]" "cap s1 = cap s"
    "\<forall>y. ok s y \<longrightarrow> ok s1 y"
    using enq_law [of s x] by auto
  then have "\<forall>y \<in> set xs. ok s1 y" "length (view s1) + length xs \<le> cap s1" using Cons.prems by auto
  then show ?case using Cons.IH [OF s1(2)] s1 by auto
qed

lemma filter_dropWhile: "filter live (dropWhile (\<lambda>x. \<not> live x) xs) = filter live xs"
  by (induction xs) auto

lemma drain_view: "inv s \<Longrightarrow> length (view s) < n \<Longrightarrow> drain deq n s = filter live (view s)"
proof (induction n arbitrary: s)
  case 0
  then show ?case by simp
next
  case (Suc n)
  obtain s' where s': "inv s'" "case dropWhile (\<lambda>x. \<not> live x) (view s) of
      [] \<Rightarrow> deq s = (None, s') \<and> view s' = [] | x # xs \<Rightarrow> deq s = (Some x, s') \<and> view s' = xs"
    using deq_law [OF Suc.prems(1)] by blast
  show ?case
  proof (cases "dropWhile (\<lambda>x. \<not> live x) (view s)")
    case Nil
    then have "filter live (view s) = []" using filter_dropWhile [of "view s"] by simp
    then show ?thesis using s' Nil by simp
  next
    case (Cons x xs)
    have x: "live x" using Cons by (metis hd_dropWhile list.distinct(1) list.sel(1))
    have "length (x # xs) \<le> length (view s)" using length_dropWhile_le [of "\<lambda>x. \<not> live x" "view s"] Cons by simp
    then have "drain deq n s' = filter live xs" using Suc.IH [of s'] s' Cons Suc.prems by simp
    moreover have "filter live (view s) = x # filter live xs"
      using filter_dropWhile [of "view s"] Cons x by simp
    ultimately show ?thesis using s' Cons by simp
  qed
qed

lemma fill_and_drain:
  assumes "inv s" and "\<forall>x \<in> set xs. ok s x" and "length (view s) + length xs \<le> cap s" and "cap s < n"
  shows "\<exists>s'. enq_all enq s xs = Some s' \<and> drain deq n s' = filter live (view s @ xs)"
  using enq_all_view [OF assms(1-3)] drain_view [of _ n] assms(3,4) by fastforce

end

end
