(* ===== verification/Mbuf.thy ===== *)
theory Mbuf
  imports Buffer Circ_List Fifo
begin

text \<open>
  The queue of packets waiting to be sent to clients: \<^verbatim>\<open>mbuf.h\<close> and \<^verbatim>\<open>mbuf.c\<close>. A set is a circular array
  whose capacity is a power of two; an item points to a reference-counted packet and to the client
  instance it is for, and the instance pointer is cleared when the client goes away. Packets live
  in a heap, a map from addresses to \<open>mbuf_buffer\<close>; instances are their addresses.
\<close>

unbundle bit_operations_syntax

record mbuf_buffer =
  mb_buf :: buffer
  mb_refcount :: int
  mb_flags :: u32

type_synonym mbuf_heap = "nat \<Rightarrow> mbuf_buffer option"

record mbuf_item =
  mi_buffer :: "nat option"
  mi_instance :: "nat option"

record mbuf_set =
  ms_head :: u32
  ms_len :: u32
  ms_capacity :: u32
  ms_max_queued :: u32
  ms_array :: "mbuf_item list"

definition MBUF_INDEX :: "u32 \<Rightarrow> u32 \<Rightarrow> u32 \<Rightarrow> u32" where
  "MBUF_INDEX head off sz = (head + off) AND (sz - 1)"

definition MBUF_SIZE_MAX :: int where
  \<comment> \<open>4 GB over the 16 bytes of an item\<close>
  "MBUF_SIZE_MAX = 2 ^ 32 div 16"

definition mbuf_init :: "mbuf_item \<Rightarrow> u32 \<Rightarrow> mbuf_set option" where
  \<comment> \<open>\<open>junk\<close> is the content of the freshly allocated array\<close>
  "mbuf_init junk sz = do {
     assertion (uint sz \<le> MBUF_SIZE_MAX);
     c \<leftarrow> adjust_power_of_2 (ucast sz);
     let capacity = ucast c;
     Some \<lparr>ms_head = 0, ms_len = 0, ms_capacity = capacity, ms_max_queued = 0,
       ms_array = replicate (unat capacity) junk\<rparr> }"

definition mbuf_alloc_buf :: "(nat \<Rightarrow> u8) \<Rightarrow> buffer \<Rightarrow> mbuf_buffer option" where
  "mbuf_alloc_buf junk buf = do {
     b \<leftarrow> clone_buf junk buf;
     Some \<lparr>mb_buf = b, mb_refcount = 1, mb_flags = 0\<rparr> }"

definition mbuf_free_buf :: "mbuf_heap \<Rightarrow> nat option \<Rightarrow> mbuf_heap option" where
  "mbuf_free_buf h mb =
     (case mb of
        None \<Rightarrow> Some h
      | Some a \<Rightarrow> do {
          m \<leftarrow> h a;
          let rc = mb_refcount m - 1;
          Some (if rc \<le> 0 then h(a := None) else h(a \<mapsto> m\<lparr>mb_refcount := rc\<rparr>)) })"

function mbuf_extract_loop :: "mbuf_set \<Rightarrow> (mbuf_item option \<times> mbuf_set) option" where
  "mbuf_extract_loop ms =
     (if ms_len ms \<noteq> 0
      then do {
        item \<leftarrow> arr_get (ms_array ms) (int (unat (ms_head ms)));
        let ms' = ms\<lparr>ms_head := MBUF_INDEX (ms_head ms) 1 (ms_capacity ms), ms_len := ms_len ms - 1\<rparr>;
        if mi_instance item \<noteq> None then Some (Some item, ms') else mbuf_extract_loop ms' }
      else Some (None, ms))"
  by pat_completeness auto
termination
proof (relation "measure (\<lambda>ms. unat (ms_len ms))")
  show "(ms', ms) \<in> measure (\<lambda>ms. unat (ms_len ms))"
    if "ms_len ms \<noteq> 0" and "ms' = ms\<lparr>ms_head := MBUF_INDEX (ms_head ms) 1 (ms_capacity ms), ms_len := ms_len ms - 1\<rparr>" for ms ms' :: mbuf_set
    using that unat_minus_one [of "ms_len ms"] by (simp add: unat_gt_0)
qed simp

declare mbuf_extract_loop.simps [simp del]

definition mbuf_extract_item :: "mbuf_set option \<Rightarrow> (mbuf_item option \<times> mbuf_set option) option" where
  "mbuf_extract_item ms =
     (case ms of
        None \<Rightarrow> Some (None, None)
      | Some s \<Rightarrow> do { (r, s') \<leftarrow> mbuf_extract_loop s; Some (r, Some s') })"

definition mbuf_add_item :: "mbuf_set \<Rightarrow> mbuf_heap \<Rightarrow> mbuf_item \<Rightarrow> (mbuf_set \<times> mbuf_heap) option" where
  "mbuf_add_item ms h item = do {
     (ms1, h1) \<leftarrow>
       (if ms_len ms = ms_capacity ms
        then do {
          (r, ms') \<leftarrow> mbuf_extract_loop ms;
          rm \<leftarrow> r;
          h' \<leftarrow> mbuf_free_buf h (mi_buffer rm);
          Some (ms', h') }
        else Some (ms, h));
     assertion (ms_len ms1 < ms_capacity ms1);
     arr \<leftarrow> arr_set (ms_array ms1) (int (unat (MBUF_INDEX (ms_head ms1) (ms_len ms1) (ms_capacity ms1)))) item;
     let len' = ms_len ms1 + 1;
     a \<leftarrow> mi_buffer item;
     m \<leftarrow> h1 a;
     Some (ms1\<lparr>ms_array := arr, ms_len := len',
              ms_max_queued := (if len' > ms_max_queued ms1 then len' else ms_max_queued ms1)\<rparr>,
           h1(a \<mapsto> m\<lparr>mb_refcount := mb_refcount m + 1\<rparr>)) }"

fun mbuf_peek_loop :: "mbuf_set \<Rightarrow> nat list \<Rightarrow> nat option option" where
  "mbuf_peek_loop ms [] = Some None"
| "mbuf_peek_loop ms (i # is) = do {
     item \<leftarrow> arr_get (ms_array ms) (int (unat (MBUF_INDEX (ms_head ms) (of_nat i) (ms_capacity ms))));
     if mi_instance item \<noteq> None then Some (mi_instance item) else mbuf_peek_loop ms is }"

definition mbuf_peek_dowork :: "mbuf_set option \<Rightarrow> nat option option" where
  "mbuf_peek_dowork ms = (case ms of None \<Rightarrow> Some None | Some s \<Rightarrow> mbuf_peek_loop s [0..<unat (ms_len s)])"

fun mbuf_deref_loop :: "nat \<Rightarrow> mbuf_set \<Rightarrow> mbuf_heap \<Rightarrow> nat list \<Rightarrow> (mbuf_set \<times> mbuf_heap) option" where
  "mbuf_deref_loop mi ms h [] = Some (ms, h)"
| "mbuf_deref_loop mi ms h (i # is) = do {
     let j = int (unat (MBUF_INDEX (ms_head ms) (of_nat i) (ms_capacity ms)));
     item \<leftarrow> arr_get (ms_array ms) j;
     if mi_instance item = Some mi
     then do {
       h' \<leftarrow> mbuf_free_buf h (mi_buffer item);
       arr \<leftarrow> arr_set (ms_array ms) j (item\<lparr>mi_buffer := None, mi_instance := None\<rparr>);
       mbuf_deref_loop mi (ms\<lparr>ms_array := arr\<rparr>) h' is }
     else mbuf_deref_loop mi ms h is }"

definition mbuf_dereference_instance :: "mbuf_set \<Rightarrow> mbuf_heap \<Rightarrow> nat \<Rightarrow> (mbuf_set \<times> mbuf_heap) option" where
  "mbuf_dereference_instance ms h mi = mbuf_deref_loop mi ms h [0..<unat (ms_len ms)]"

fun mbuf_free_loop :: "mbuf_set \<Rightarrow> mbuf_heap \<Rightarrow> nat list \<Rightarrow> mbuf_heap option" where
  "mbuf_free_loop ms h [] = Some h"
| "mbuf_free_loop ms h (i # is) = do {
     item \<leftarrow> arr_get (ms_array ms) (int (unat (MBUF_INDEX (ms_head ms) (of_nat i) (ms_capacity ms))));
     h' \<leftarrow> mbuf_free_buf h (mi_buffer item);
     mbuf_free_loop ms h' is }"

definition mbuf_free :: "mbuf_set option \<Rightarrow> mbuf_heap \<Rightarrow> mbuf_heap option" where
  "mbuf_free ms h = (case ms of None \<Rightarrow> Some h | Some s \<Rightarrow> mbuf_free_loop s h [0..<unat (ms_len s)])"

definition mbuf_defined :: "mbuf_set option \<Rightarrow> bool" where
  "mbuf_defined ms \<longleftrightarrow> (case ms of None \<Rightarrow> False | Some s \<Rightarrow> ms_len s \<noteq> 0)"

definition mbuf_len :: "mbuf_set \<Rightarrow> u32" where
  "mbuf_len ms = ms_len ms"

definition mbuf_maximum_queued :: "mbuf_set \<Rightarrow> int" where
  "mbuf_maximum_queued ms = sint (ms_max_queued ms)"

definition mbuf_peek :: "mbuf_set option \<Rightarrow> nat option option" where
  "mbuf_peek ms = (if mbuf_defined ms then mbuf_peek_dowork ms else Some None)"

subsection \<open>The queue as a list\<close>

definition ms_cap :: "mbuf_set \<Rightarrow> nat" where
  "ms_cap ms = unat (ms_capacity ms)"

definition ms_wf :: "mbuf_set \<Rightarrow> bool" where
  "ms_wf ms \<longleftrightarrow> (\<exists>k < 32. ms_cap ms = 2 ^ k) \<and> unat (ms_head ms) < ms_cap ms
     \<and> unat (ms_len ms) \<le> ms_cap ms \<and> length (ms_array ms) = ms_cap ms"

definition ms_slot :: "mbuf_set \<Rightarrow> nat \<Rightarrow> nat" where
  "ms_slot ms i = (unat (ms_head ms) + i) mod ms_cap ms"

definition ms_items :: "mbuf_set \<Rightarrow> mbuf_item list" where
  "ms_items ms = map (\<lambda>i. ms_array ms ! ms_slot ms i) [0..<unat (ms_len ms)]"

lemma MBUF_INDEX_nat:
  assumes "k < 32" and "unat c = 2 ^ k"
  shows "unat (MBUF_INDEX h i c) = (unat h + unat i) mod 2 ^ k"
proof -
  have "c = 2 ^ k" using assms by (simp add: word_unat_eq_iff unat_2_power)
  then have "MBUF_INDEX h i c = take_bit k (h + i)"
    by (simp add: MBUF_INDEX_def take_bit_eq_mask mask_eq_exp_minus_1)
  moreover have "unat (take_bit k (h + i)) = unat (h + i) mod 2 ^ k"
    by (simp only: unsigned_take_bit_eq) (simp only: take_bit_eq_mod)
  moreover have "unat (h + i) mod 2 ^ k = (unat h + unat i) mod 2 ^ k"
  proof -
    have "(2 :: nat) ^ k dvd 2 ^ 32" using assms(1) by (intro le_imp_power_dvd) simp
    then show ?thesis by (simp add: unat_word_ariths mod_mod_cancel)
  qed
  ultimately show ?thesis by simp
qed

lemma ms_wf_index:
  assumes "ms_wf ms"
  shows "unat (MBUF_INDEX (ms_head ms) i (ms_capacity ms)) = ms_slot ms (unat i)"
  using assms MBUF_INDEX_nat [of _ "ms_capacity ms" "ms_head ms" i] by (auto simp: ms_wf_def ms_slot_def ms_cap_def)

lemma ms_slot_less: "ms_wf ms \<Longrightarrow> ms_slot ms i < ms_cap ms"
  by (auto simp: ms_wf_def ms_slot_def)

lemma ms_slot_inj:
  assumes "ms_wf ms" and "i < ms_cap ms" and "j < ms_cap ms"
  shows "ms_slot ms i = ms_slot ms j \<longleftrightarrow> i = j"
proof -
  have "b \<le> c \<Longrightarrow> c < n \<Longrightarrow> (a + c) mod n = (a + b) mod n \<Longrightarrow> b = c" for a b c n :: nat
    using mod_eq_dvd_iff_nat [of "a + b" "a + c" n] nat_dvd_not_less [of "c - b" n] by (cases "b = c") auto
  then show ?thesis using assms(2,3) nat_le_linear [of i j] unfolding ms_slot_def by metis
qed

lemma length_ms_items [simp]: "length (ms_items ms) = unat (ms_len ms)"
  by (simp add: ms_items_def)

lemma ms_items_nth: "i < unat (ms_len ms) \<Longrightarrow> ms_items ms ! i = ms_array ms ! ms_slot ms i"
  by (simp add: ms_items_def)

text \<open>Removing the first item.\<close>

definition ms_tail :: "mbuf_set \<Rightarrow> mbuf_set" where
  "ms_tail ms = ms\<lparr>ms_head := MBUF_INDEX (ms_head ms) 1 (ms_capacity ms), ms_len := ms_len ms - 1\<rparr>"

lemma ms_tail_items:
  assumes "ms_wf ms" and "ms_items ms = x # xs"
  shows "ms_wf (ms_tail ms)" and "ms_items (ms_tail ms) = xs" and "ms_cap (ms_tail ms) = ms_cap ms"
    and "ms_len ms \<noteq> 0" and "arr_get (ms_array ms) (int (unat (ms_head ms))) = Some x"
proof -
  have len: "unat (ms_len ms) = Suc (length xs)" using arg_cong [OF assms(2), of length] by simp
  then show ne: "ms_len ms \<noteq> 0" by auto
  have len': "unat (ms_len ms - 1) = length xs" using unat_minus_one [OF ne] len by simp
  have head: "unat (ms_head (ms_tail ms)) = ms_slot ms 1" using ms_wf_index [OF assms(1), of 1] by (simp add: ms_tail_def)
  show cap: "ms_cap (ms_tail ms) = ms_cap ms" by (simp add: ms_tail_def ms_cap_def)
  show "ms_wf (ms_tail ms)"
    using assms(1) head ms_slot_less [OF assms(1), of 1] len len' unfolding ms_wf_def cap by (simp add: ms_tail_def)
  have slot: "ms_slot (ms_tail ms) i = ms_slot ms (Suc i)" for i
    unfolding ms_slot_def [of "ms_tail ms"] head cap by (simp add: ms_slot_def mod_add_left_eq add.assoc)
  show "ms_items (ms_tail ms) = xs"
  proof (rule nth_equalityI)
    show "length (ms_items (ms_tail ms)) = length xs" using len' by (simp add: ms_tail_def)
    show "ms_items (ms_tail ms) ! i = xs ! i" if "i < length (ms_items (ms_tail ms))" for i
    proof -
      have i: "i < length xs" using that len' by (simp add: ms_tail_def)
      have "ms_items (ms_tail ms) ! i = ms_array ms ! ms_slot ms (Suc i)"
        using that slot by (simp add: ms_items_nth) (simp add: ms_tail_def)
      then show ?thesis using ms_items_nth [of "Suc i" ms] i len assms(2) by simp
    qed
  qed
  have "ms_slot ms 0 = unat (ms_head ms)" using assms(1) by (simp add: ms_slot_def ms_wf_def)
  then show "arr_get (ms_array ms) (int (unat (ms_head ms))) = Some x"
    using arr_get_nat [of "unat (ms_head ms)" "ms_array ms"] assms ms_items_nth [of 0 ms] len unfolding ms_wf_def
    by (metis nth_Cons_0 zero_less_Suc)
qed

lemma ms_items_Nil: "ms_items ms = [] \<longleftrightarrow> ms_len ms = 0"
  by (simp add: ms_items_def unat_eq_zero)

text \<open>Extraction discards the dead items in front of the first live one.\<close>

definition item_live :: "mbuf_item \<Rightarrow> bool" where
  "item_live item \<longleftrightarrow> mi_instance item \<noteq> None"

lemma mbuf_extract_loop_eq:
  assumes "ms_wf ms"
  shows "\<exists>ms'. ms_wf ms' \<and> ms_cap ms' = ms_cap ms \<and>
    (case dropWhile (\<lambda>x. \<not> item_live x) (ms_items ms) of
       [] \<Rightarrow> mbuf_extract_loop ms = Some (None, ms') \<and> ms_items ms' = []
     | x # xs \<Rightarrow> mbuf_extract_loop ms = Some (Some x, ms') \<and> ms_items ms' = xs)"
  using assms
proof (induction "ms_items ms" arbitrary: ms)
  case Nil
  then have "ms_len ms = 0" using ms_items_Nil by metis
  then have "mbuf_extract_loop ms = Some (None, ms)" by (simp add: mbuf_extract_loop.simps)
  then show ?case using Nil by (intro exI [of _ ms]) (simp flip: Nil.hyps)
next
  case (Cons x xs)
  note t = ms_tail_items [OF Cons.prems Cons.hyps(2) [symmetric]]
  have step: "mbuf_extract_loop ms = (if item_live x then Some (Some x, ms_tail ms) else mbuf_extract_loop (ms_tail ms))"
    using t(4,5) by (subst mbuf_extract_loop.simps) (simp add: item_live_def ms_tail_def)
  show ?case
  proof (cases "item_live x")
    case True
    then show ?thesis using step t Cons.hyps(2) [symmetric] by auto
  next
    case False
    then have "mbuf_extract_loop ms = mbuf_extract_loop (ms_tail ms)"
      "dropWhile (\<lambda>x. \<not> item_live x) (ms_items ms) = dropWhile (\<lambda>x. \<not> item_live x) (ms_items (ms_tail ms))"
      using step t(2) Cons.hyps(2) [symmetric] by simp_all
    then show ?thesis using Cons.hyps(1) [OF t(2) [symmetric] t(1)] t(3) by (simp only:)
  qed
qed

subsection \<open>Adding an item\<close>

lemma ms_append:
  assumes wf: "ms_wf ms" and room: "unat (ms_len ms) < ms_cap ms"
    and arr: "arr = (ms_array ms)[ms_slot ms (unat (ms_len ms)) := item]"
    and ms': "ms' = ms\<lparr>ms_array := arr, ms_len := ms_len ms + 1, ms_max_queued := mq\<rparr>"
  shows "ms_wf ms'" and "ms_items ms' = ms_items ms @ [item]" and "ms_cap ms' = ms_cap ms"
proof -
  show cap: "ms_cap ms' = ms_cap ms" by (simp add: ms' ms_cap_def)
  have "ms_len ms < ms_capacity ms" using room by (simp add: word_less_nat_alt ms_cap_def)
  then have len: "unat (ms_len ms + 1) = Suc (unat (ms_len ms))" by (rule unat_Suc_less)
  show "ms_wf ms'" using wf room len unfolding ms_wf_def cap by (simp add: ms' arr)
  have slot: "ms_slot ms' i = ms_slot ms i" for i unfolding ms_slot_def cap by (simp add: ms')
  show "ms_items ms' = ms_items ms @ [item]"
  proof (rule nth_equalityI)
    show "length (ms_items ms') = length (ms_items ms @ [item])" using len by (simp add: ms')
    show "ms_items ms' ! i = (ms_items ms @ [item]) ! i" if "i < length (ms_items ms')" for i
    proof -
      have i: "i \<le> unat (ms_len ms)" using that len by (simp add: ms')
      have "ms_items ms' ! i = arr ! ms_slot ms i" using that slot by (simp add: ms_items_nth) (simp add: ms')
      then show ?thesis
        using i ms_slot_inj [OF wf, of i "unat (ms_len ms)"] room ms_slot_less [OF wf] wf
        by (cases "i = unat (ms_len ms)") (auto simp: arr nth_append ms_items_nth ms_wf_def nth_list_update)
    qed
  qed
qed

lemma mbuf_add_item_room:
  assumes wf: "ms_wf ms" and room: "unat (ms_len ms) < ms_cap ms" and item: "mi_buffer item = Some a" "h a = Some m"
  shows "\<exists>ms'. mbuf_add_item ms h item = Some (ms', h(a \<mapsto> m\<lparr>mb_refcount := mb_refcount m + 1\<rparr>))
    \<and> ms_wf ms' \<and> ms_items ms' = ms_items ms @ [item] \<and> ms_cap ms' = ms_cap ms"
proof -
  have lt: "ms_len ms < ms_capacity ms" using room by (simp add: word_less_nat_alt ms_cap_def)
  have "arr_set (ms_array ms) (int (unat (MBUF_INDEX (ms_head ms) (ms_len ms) (ms_capacity ms)))) item
      = Some ((ms_array ms)[ms_slot ms (unat (ms_len ms)) := item])"
    unfolding ms_wf_index [OF wf] using ms_slot_less [OF wf] wf by (simp add: arr_set_nat ms_wf_def)
  then show ?thesis
    using lt item ms_append [OF wf room refl refl] by (auto simp: mbuf_add_item_def Let_def)
qed

subsection \<open>The queue as a bounded FIFO\<close>

type_synonym mbuf_state = "mbuf_set \<times> mbuf_heap"

definition mbuf_enq :: "mbuf_state \<Rightarrow> mbuf_item \<Rightarrow> mbuf_state option" where
  "mbuf_enq s item = mbuf_add_item (fst s) (snd s) item"

definition mbuf_deq :: "mbuf_state \<Rightarrow> mbuf_item option \<times> mbuf_state" where
  "mbuf_deq s = (case mbuf_extract_loop (fst s) of Some (r, ms) \<Rightarrow> (r, (ms, snd s)) | None \<Rightarrow> (None, s))"

definition mbuf_item_ok :: "mbuf_state \<Rightarrow> mbuf_item \<Rightarrow> bool" where
  "mbuf_item_ok s item \<longleftrightarrow> (\<exists>a m. mi_buffer item = Some a \<and> snd s a = Some m)"

interpretation mq: bounded_fifo "\<lambda>s. ms_wf (fst s)" "\<lambda>s. ms_items (fst s)" "\<lambda>s. ms_cap (fst s)" item_live
  mbuf_item_ok mbuf_enq mbuf_deq
proof
  fix s :: mbuf_state and x
  assume s: "ms_wf (fst s)" "mbuf_item_ok s x" "length (ms_items (fst s)) < ms_cap (fst s)"
  obtain a m where a: "mi_buffer x = Some a" "snd s a = Some m" using s(2) by (auto simp: mbuf_item_ok_def)
  obtain ms' where "mbuf_add_item (fst s) (snd s) x = Some (ms', (snd s)(a \<mapsto> m\<lparr>mb_refcount := mb_refcount m + 1\<rparr>))"
    "ms_wf ms'" "ms_items ms' = ms_items (fst s) @ [x]" "ms_cap ms' = ms_cap (fst s)"
    using mbuf_add_item_room [of "fst s" x a "snd s" m] s a by auto
  then show "\<exists>s'. mbuf_enq s x = Some s' \<and> ms_wf (fst s') \<and> ms_items (fst s') = ms_items (fst s) @ [x]
      \<and> ms_cap (fst s') = ms_cap (fst s) \<and> (\<forall>y. mbuf_item_ok s y \<longrightarrow> mbuf_item_ok s' y)"
    by (auto simp: mbuf_enq_def mbuf_item_ok_def)
next
  fix s :: mbuf_state
  assume "ms_wf (fst s)"
  then obtain ms' where "ms_wf ms'" "case dropWhile (\<lambda>x. \<not> item_live x) (ms_items (fst s)) of
       [] \<Rightarrow> mbuf_extract_loop (fst s) = Some (None, ms') \<and> ms_items ms' = []
     | x # xs \<Rightarrow> mbuf_extract_loop (fst s) = Some (Some x, ms') \<and> ms_items ms' = xs"
    using mbuf_extract_loop_eq [of "fst s"] by blast
  then show "\<exists>s'. ms_wf (fst s') \<and> (case dropWhile (\<lambda>x. \<not> item_live x) (ms_items (fst s)) of
       [] \<Rightarrow> mbuf_deq s = (None, s') \<and> ms_items (fst s') = []
     | x # xs \<Rightarrow> mbuf_deq s = (Some x, s') \<and> ms_items (fst s') = xs)"
    by (cases "dropWhile (\<lambda>x. \<not> item_live x) (ms_items (fst s))") (auto simp: mbuf_deq_def simp del: dropWhile_eq_Nil_conv)
qed

lemma mbuf_init_wf:
  assumes "uint sz \<le> MBUF_SIZE_MAX"
  shows "\<exists>ms. mbuf_init junk sz = Some ms \<and> ms_wf ms \<and> ms_items ms = [] \<and> unat sz \<le> ms_cap ms"
proof -
  have "int (unat sz) \<le> 268435456" using assms by (simp add: MBUF_SIZE_MAX_def)
  moreover have "int (2 ^ 31) = 2147483648" by simp
  ultimately have "unat sz \<le> 2 ^ 31" by linarith
  then obtain k r where "adjust_power_of_2 (ucast sz) = Some r" "unat (ucast r :: u32) = 2 ^ k" "k < 32" "unat sz \<le> 2 ^ k"
    using adjust_power_of_2_u32 by blast
  then show ?thesis using assms by (auto simp: mbuf_init_def Let_def ms_wf_def ms_cap_def ms_items_def)
qed

subsection \<open>Properties\<close>


definition sample_heap :: mbuf_heap where
  "sample_heap = (\<lambda>a. if a = 0 then Some \<lparr>mb_buf = clear_buf, mb_refcount = 1, mb_flags = 0\<rparr> else None)"



definition sample_full :: mbuf_set where
  "sample_full = \<lparr>ms_head = 0, ms_len = 1, ms_capacity = 1, ms_max_queued = 1,
     ms_array = [\<lparr>mi_buffer = Some 1, mi_instance = Some 7\<rparr>]\<rparr>"

lemma sample_full_items: "ms_wf sample_full" "ms_items sample_full = [\<lparr>mi_buffer = Some 1, mi_instance = Some 7\<rparr>]"
  by (auto simp: sample_full_def ms_wf_def ms_items_def ms_cap_def ms_slot_def intro: exI [of _ 0])


text \<open>
  Where adding aborts. The overflow branch asserts that a packet can be extracted, but extraction
  skips the packets whose client has gone: when every packet of a full queue has been dereferenced,
  \<open>mbuf_add_item\<close> fails its assertion. Such a state is reached by filling a queue with packets
  for one client and dereferencing the client.
\<close>

theorem mbuf_add_item_abort:
  "do { ms \<leftarrow> mbuf_init \<lparr>mi_buffer = None, mi_instance = None\<rparr> 1;
        (ms1, h1) \<leftarrow> mbuf_add_item ms sample_heap \<lparr>mi_buffer = Some 0, mi_instance = Some 5\<rparr>;
        (ms2, h2) \<leftarrow> mbuf_dereference_instance ms1 h1 5;
        Some (Option.is_none (mbuf_add_item ms2 h2 \<lparr>mi_buffer = Some 0, mi_instance = Some 6\<rparr>)) } = Some True"
  by code_simp

end
