(* ===== verification/Keyed_Map.thy ===== *)
theory Keyed_Map
  imports Prelude
begin

text \<open>
  The contract of a table that maps keys to values, where keys are compared by an equivalence the
  table carries: what a lookup, an insertion and a removal return and how they change the map
  the table stands for. A lookup may reorganise the table but not the map. From the contract follows
  that any sequence of operations answers as the map does.
\<close>

datatype ('k, 'v) table_op =
    Lookup 'k
  | Add 'k 'v bool
  | Remove 'k

datatype 'v table_answer =
    Found "'v option"
  | Done bool

fun map_run :: "('k \<Rightarrow> 'k \<Rightarrow> bool) \<Rightarrow> ('k \<Rightarrow> 'v option) \<Rightarrow> ('k, 'v) table_op list \<Rightarrow> 'v table_answer list" where
  "map_run eq m [] = []"
| "map_run eq m (Lookup k # ops) = Found (m k) # map_run eq m ops"
| "map_run eq m (Add k v replace # ops) =
     (if m k = None \<or> replace
      then Done True # map_run eq (\<lambda>k'. if eq k k' then Some v else m k') ops
      else Done False # map_run eq m ops)"
| "map_run eq m (Remove k # ops) =
     Done (m k \<noteq> None) # map_run eq (\<lambda>k'. if eq k k' then None else m k') ops"

fun table_run ::
  "('s \<Rightarrow> 'k \<Rightarrow> ('v option \<times> 's) option) \<Rightarrow> ('s \<Rightarrow> 'k \<Rightarrow> 'v \<Rightarrow> bool \<Rightarrow> (bool \<times> 's) option)
    \<Rightarrow> ('s \<Rightarrow> 'k \<Rightarrow> (bool \<times> 's) option) \<Rightarrow> 's \<Rightarrow> ('k, 'v) table_op list \<Rightarrow> ('v table_answer list \<times> 's) option" where
  "table_run lookup add remove s [] = Some ([], s)"
| "table_run lookup add remove s (Lookup k # ops) = do {
     (r, s1) \<leftarrow> lookup s k; (as, s2) \<leftarrow> table_run lookup add remove s1 ops; Some (Found r # as, s2) }"
| "table_run lookup add remove s (Add k v replace # ops) = do {
     (r, s1) \<leftarrow> add s k v replace; (as, s2) \<leftarrow> table_run lookup add remove s1 ops; Some (Done r # as, s2) }"
| "table_run lookup add remove s (Remove k # ops) = do {
     (r, s1) \<leftarrow> remove s k; (as, s2) \<leftarrow> table_run lookup add remove s1 ops; Some (Done r # as, s2) }"

locale keyed_map =
  fixes inv :: "'s \<Rightarrow> bool"
    and eq :: "'s \<Rightarrow> 'k \<Rightarrow> 'k \<Rightarrow> bool"
    and view :: "'s \<Rightarrow> 'k \<Rightarrow> 'v option"
    and lookup :: "'s \<Rightarrow> 'k \<Rightarrow> ('v option \<times> 's) option"
    and add :: "'s \<Rightarrow> 'k \<Rightarrow> 'v \<Rightarrow> bool \<Rightarrow> (bool \<times> 's) option"
    and remove :: "'s \<Rightarrow> 'k \<Rightarrow> (bool \<times> 's) option"
  assumes lookup_law: "inv s \<Longrightarrow> \<exists>s'. lookup s k = Some (view s k, s') \<and> inv s' \<and> eq s' = eq s \<and> view s' = view s"
    and add_law: "inv s \<Longrightarrow> \<exists>s'. add s k v replace = Some (view s k = None \<or> replace, s') \<and> inv s' \<and> eq s' = eq s
      \<and> view s' = (if view s k = None \<or> replace then \<lambda>k'. if eq s k k' then Some v else view s k' else view s)"
    and remove_law: "inv s \<Longrightarrow> \<exists>s'. remove s k = Some (view s k \<noteq> None, s') \<and> inv s' \<and> eq s' = eq s
      \<and> view s' = (\<lambda>k'. if eq s k k' then None else view s k')"
begin

lemma run_refines_map:
  "inv s \<Longrightarrow> \<exists>s'. table_run lookup add remove s ops = Some (map_run (eq s) (view s) ops, s') \<and> inv s' \<and> eq s' = eq s"
proof (induction ops arbitrary: s)
  case Nil
  then show ?case by simp
next
  case (Cons x ops)
  show ?case
  proof (cases x)
    case (Lookup k)
    obtain s1 where s1: "lookup s k = Some (view s k, s1)" "inv s1" "eq s1 = eq s" "view s1 = view s"
      using lookup_law [OF Cons.prems] by blast
    then show ?thesis using Cons.IH [OF s1(2)] Lookup by auto
  next
    case (Add k v replace)
    obtain s1 where s1: "add s k v replace = Some (view s k = None \<or> replace, s1)" "inv s1" "eq s1 = eq s"
      "view s1 = (if view s k = None \<or> replace then \<lambda>k'. if eq s k k' then Some v else view s k' else view s)"
      using add_law [OF Cons.prems] by blast
    then show ?thesis using Cons.IH [OF s1(2)] Add by (auto split: if_splits)
  next
    case (Remove k)
    obtain s1 where s1: "remove s k = Some (view s k \<noteq> None, s1)" "inv s1" "eq s1 = eq s"
      "view s1 = (\<lambda>k'. if eq s k k' then None else view s k')"
      using remove_law [OF Cons.prems] by blast
    then show ?thesis using Cons.IH [OF s1(2)] Remove by auto
  qed
qed

end

end
