(* ===== verification/Hash_Table.thy ===== *)
theory Hash_Table
  imports Integer_Ops Keyed_Map
begin

text \<open>
  The hash table of \<^verbatim>\<open>list.h\<close> and \<^verbatim>\<open>list.c\<close>, which keeps the client instances over several key spaces,
  with its iterator, and the hash function for byte strings. A bucket is the list of its
  elements in link order, so a pointer to an element is its position in the bucket; a key is what
  the key pointer points to, \<open>None\<close> a \<^verbatim>\<open>NULL\<close> key (an element marked for removal). The functions that
  hash and compare keys are fields of the table, as in the sources. Comparing with a \<^verbatim>\<open>NULL\<close> key is a
  fault.
\<close>

unbundle bit_operations_syntax

record ('k, 'v) hash_element =
  he_value :: 'v
  he_key :: "'k option"
  he_hash_value :: u32

record ('k, 'v) hash =
  hs_n_buckets :: u32
  hs_n_elements :: u32
  hs_mask :: u32
  hs_iv :: u32
  hs_hash_function :: "'k \<Rightarrow> u32 \<Rightarrow> u32"
  hs_compare_function :: "'k \<Rightarrow> 'k \<Rightarrow> bool"
  hs_buckets :: "('k, 'v) hash_element list list"

record hash_iterator =
  hi_bucket_index :: u32
  hi_bucket :: "nat option"
  hi_elem :: "nat option"
  hi_last :: "nat option"
  hi_bucket_marked :: bool
  hi_bucket_index_start :: u32
  hi_bucket_index_end :: u32

definition hash_init :: "u32 \<Rightarrow> u32 \<Rightarrow> ('k \<Rightarrow> u32 \<Rightarrow> u32) \<Rightarrow> ('k \<Rightarrow> 'k \<Rightarrow> bool) \<Rightarrow> ('k, 'v) hash option" where
  "hash_init n_buckets iv hash_function compare_function = do {
     assertion (n_buckets > 0);
     n \<leftarrow> adjust_power_of_2 (ucast n_buckets);
     Some \<lparr>hs_n_buckets = ucast n, hs_n_elements = 0, hs_mask = ucast n - 1, hs_iv = iv,
       hs_hash_function = hash_function, hs_compare_function = compare_function,
       hs_buckets = replicate (unat (ucast n :: u32)) []\<rparr> }"

definition hash_free :: "('k, 'v) hash \<Rightarrow> ('k, 'v) hash_element list" where
  \<comment> \<open>the elements given back, in the order of the calls of \<open>free\<close>\<close>
  "hash_free h = concat (take (unat (hs_n_buckets h)) (hs_buckets h))"

definition hash_value :: "('k, 'v) hash \<Rightarrow> 'k \<Rightarrow> u32" where
  "hash_value h key = hs_hash_function h key (hs_iv h)"

definition hash_n_elements :: "('k, 'v) hash \<Rightarrow> u32" where
  "hash_n_elements h = hs_n_elements h"

definition hash_n_buckets :: "('k, 'v) hash \<Rightarrow> u32" where
  "hash_n_buckets h = hs_n_buckets h"

definition hash_bucket :: "('k, 'v) hash \<Rightarrow> u32 \<Rightarrow> nat option" where
  "hash_bucket h hv =
     (let i = unat (hv AND hs_mask h) in if i < length (hs_buckets h) then Some i else None)"

definition he_matches :: "('k \<Rightarrow> 'k \<Rightarrow> bool) \<Rightarrow> 'k \<Rightarrow> u32 \<Rightarrow> ('k, 'v) hash_element \<Rightarrow> bool option" where
  "he_matches compare_function key hv he =
     (if hv = he_hash_value he then map_option (compare_function key) (he_key he) else Some False)"

fun lookup_loop ::
  "('k \<Rightarrow> 'k \<Rightarrow> bool) \<Rightarrow> 'k \<Rightarrow> u32 \<Rightarrow> ('k, 'v) hash_element list \<Rightarrow> ('k, 'v) hash_element list
    \<Rightarrow> (nat option \<times> ('k, 'v) hash_element list) option" where
  \<comment> \<open>\<open>pre\<close> are the elements up to and including \<open>prev\<close>; a match is moved to the head of the list\<close>
  "lookup_loop cmp key hv pre [] = Some (None, pre)"
| "lookup_loop cmp key hv pre (he # nxt) = do {
     m \<leftarrow> he_matches cmp key hv he;
     if m then Some (Some 0, if pre \<noteq> [] then he # pre @ nxt else he # nxt)
     else lookup_loop cmp key hv (pre @ [he]) nxt }"

definition set_bucket :: "('k, 'v) hash \<Rightarrow> nat \<Rightarrow> ('k, 'v) hash_element list \<Rightarrow> ('k, 'v) hash" where
  "set_bucket h b l = h\<lparr>hs_buckets := (hs_buckets h)[b := l]\<rparr>"

definition hash_lookup_fast :: "('k, 'v) hash \<Rightarrow> nat \<Rightarrow> 'k \<Rightarrow> u32 \<Rightarrow> (nat option \<times> ('k, 'v) hash) option" where
  "hash_lookup_fast h bucket key hv = do {
     (he, l) \<leftarrow> lookup_loop (hs_compare_function h) key hv [] (hs_buckets h ! bucket);
     Some (he, set_bucket h bucket l) }"

fun remove_loop ::
  "('k \<Rightarrow> 'k \<Rightarrow> bool) \<Rightarrow> 'k \<Rightarrow> u32 \<Rightarrow> ('k, 'v) hash_element list \<Rightarrow> ('k, 'v) hash_element list
    \<Rightarrow> (bool \<times> ('k, 'v) hash_element list) option" where
  "remove_loop cmp key hv pre [] = Some (False, pre)"
| "remove_loop cmp key hv pre (he # nxt) = do {
     m \<leftarrow> he_matches cmp key hv he;
     if m then Some (True, pre @ nxt) else remove_loop cmp key hv (pre @ [he]) nxt }"

definition hash_remove_fast :: "('k, 'v) hash \<Rightarrow> nat \<Rightarrow> 'k \<Rightarrow> u32 \<Rightarrow> (bool \<times> ('k, 'v) hash) option" where
  "hash_remove_fast h bucket key hv = do {
     (found, l) \<leftarrow> remove_loop (hs_compare_function h) key hv [] (hs_buckets h ! bucket);
     Some (found, if found then (set_bucket h bucket l)\<lparr>hs_n_elements := hs_n_elements h - 1\<rparr> else h) }"

definition hash_lookup :: "('k, 'v) hash \<Rightarrow> 'k \<Rightarrow> ('v option \<times> ('k, 'v) hash) option" where
  "hash_lookup h key = do {
     let hv = hash_value h key;
     bucket \<leftarrow> hash_bucket h hv;
     (he, h') \<leftarrow> hash_lookup_fast h bucket key hv;
     Some (map_option (\<lambda>p. he_value (hs_buckets h' ! bucket ! p)) he, h') }"

definition hash_add_fast :: "('k, 'v) hash \<Rightarrow> nat \<Rightarrow> 'k \<Rightarrow> u32 \<Rightarrow> 'v \<Rightarrow> ('k, 'v) hash" where
  "hash_add_fast h bucket key hv v =
     (set_bucket h bucket (\<lparr>he_value = v, he_key = Some key, he_hash_value = hv\<rparr> # hs_buckets h ! bucket))
       \<lparr>hs_n_elements := hs_n_elements h + 1\<rparr>"

definition hash_remove :: "('k, 'v) hash \<Rightarrow> 'k \<Rightarrow> (bool \<times> ('k, 'v) hash) option" where
  "hash_remove h key = do {
     let hv = hash_value h key;
     bucket \<leftarrow> hash_bucket h hv;
     hash_remove_fast h bucket key hv }"

definition hash_add :: "('k, 'v) hash \<Rightarrow> 'k \<Rightarrow> 'v \<Rightarrow> bool \<Rightarrow> (bool \<times> ('k, 'v) hash) option" where
  "hash_add h key v replace = do {
     let hv = hash_value h key;
     bucket \<leftarrow> hash_bucket h hv;
     (he, h1) \<leftarrow> hash_lookup_fast h bucket key hv;
     (case he of
        Some p \<Rightarrow>
          if replace
          then let l = hs_buckets h1 ! bucket
               in Some (True, set_bucket h1 bucket (l[p := (l ! p)\<lparr>he_value := v\<rparr>]))
          else Some (False, h1)
      | None \<Rightarrow> Some (True, hash_add_fast h1 bucket key hv v)) }"

subsection \<open>The iterator\<close>

fun remove_marked_loop :: "u32 \<Rightarrow> ('k, 'v) hash_element list \<Rightarrow> u32 \<times> ('k, 'v) hash_element list" where
  "remove_marked_loop n [] = (n, [])"
| "remove_marked_loop n (he # nxt) =
     (if he_key he = None then remove_marked_loop (n - 1) nxt
      else let (n', l) = remove_marked_loop n nxt in (n', he # l))"

definition hash_remove_marked :: "('k, 'v) hash \<Rightarrow> nat \<Rightarrow> ('k, 'v) hash" where
  "hash_remove_marked h bucket =
     (let (n, l) = remove_marked_loop (hs_n_elements h) (hs_buckets h ! bucket)
      in (set_bucket h bucket l)\<lparr>hs_n_elements := n\<rparr>)"

definition hash_iterator_init_range :: "('k, 'v) hash \<Rightarrow> u32 \<Rightarrow> u32 \<Rightarrow> hash_iterator option" where
  "hash_iterator_init_range h start_bucket end_bucket =
     (let e = (if end_bucket > hs_n_buckets h then hs_n_buckets h else end_bucket)
      in do {
        assertion (start_bucket \<le> e);
        Some \<lparr>hi_bucket_index = start_bucket - 1, hi_bucket = None, hi_elem = None, hi_last = None,
          hi_bucket_marked = False, hi_bucket_index_start = start_bucket, hi_bucket_index_end = e\<rparr> })"

definition hash_iterator_init :: "('k, 'v) hash \<Rightarrow> hash_iterator option" where
  "hash_iterator_init h = hash_iterator_init_range h 0 (hs_n_buckets h)"

definition hash_iterator_lock :: "hash_iterator \<Rightarrow> nat \<Rightarrow> hash_iterator" where
  "hash_iterator_lock hi b = hi\<lparr>hi_bucket := Some b, hi_last := None, hi_bucket_marked := False\<rparr>"

definition hash_iterator_unlock :: "('k, 'v) hash \<Rightarrow> hash_iterator \<Rightarrow> ('k, 'v) hash \<times> hash_iterator" where
  "hash_iterator_unlock h hi =
     (case hi_bucket hi of
        None \<Rightarrow> (h, hi)
      | Some b \<Rightarrow>
          let (h', hi') = (if hi_bucket_marked hi
                then (hash_remove_marked h b, hi\<lparr>hi_bucket_marked := False\<rparr>) else (h, hi))
          in (h', hi'\<lparr>hi_bucket := None, hi_last := None\<rparr>))"

definition hash_iterator_advance :: "('k, 'v) hash \<Rightarrow> hash_iterator \<Rightarrow> hash_iterator option" where
  \<comment> \<open>following the link of the element, which must exist\<close>
  "hash_iterator_advance h hi = do {
     b \<leftarrow> hi_bucket hi;
     p \<leftarrow> hi_elem hi;
     Some (hi\<lparr>hi_last := Some p,
       hi_elem := (if Suc p < length (hs_buckets h ! b) then Some (Suc p) else None)\<rparr>) }"

definition hash_iterator_free :: "('k, 'v) hash \<Rightarrow> hash_iterator \<Rightarrow> ('k, 'v) hash \<times> hash_iterator" where
  "hash_iterator_free h hi = hash_iterator_unlock h hi"

lemma unlock_index [simp]:
  "hi_bucket_index (snd (hash_iterator_unlock h hi)) = hi_bucket_index hi"
  "hi_bucket_index_end (snd (hash_iterator_unlock h hi)) = hi_bucket_index_end hi"
  by (simp_all add: hash_iterator_unlock_def split: option.split)

function iterator_scan ::
  "('k, 'v) hash \<Rightarrow> hash_iterator \<Rightarrow> ((nat \<times> nat) option \<times> ('k, 'v) hash \<times> hash_iterator) option" where
  \<comment> \<open>the loop over the buckets; the result is the bucket and the position of the element\<close>
  "iterator_scan h hi =
     (let hi1 = hi\<lparr>hi_bucket_index := hi_bucket_index hi + 1\<rparr>
      in if hi_bucket_index hi1 < hi_bucket_index_end hi1
         then let (h2, hi2) = hash_iterator_unlock h hi1; i = unat (hi_bucket_index hi2)
              in if i < length (hs_buckets h2)
                 then (if hs_buckets h2 ! i \<noteq> []
                       then do {
                         hi3 \<leftarrow> hash_iterator_advance h2 ((hash_iterator_lock hi2 i)\<lparr>hi_elem := Some 0\<rparr>);
                         Some (Some (i, 0), h2, hi3) }
                       else iterator_scan h2 hi2)
                 else None
         else Some (None, h, hi1))"
  by pat_completeness auto
termination
proof (relation "measure (\<lambda>(h, hi). if hi_bucket_index hi + 1 < hi_bucket_index_end hi
    then unat (hi_bucket_index_end hi) - unat (hi_bucket_index hi + 1) else 0)")
  show "((h2, hi2), h, hi) \<in> measure (\<lambda>(h, hi). if hi_bucket_index hi + 1 < hi_bucket_index_end hi
      then unat (hi_bucket_index_end hi) - unat (hi_bucket_index hi + 1) else 0)"
    if "hi1 = hi\<lparr>hi_bucket_index := hi_bucket_index hi + 1\<rparr>"
      and "hi_bucket_index hi1 < hi_bucket_index_end hi1" and "x = hash_iterator_unlock h hi1" and "(h2, hi2) = x"
    for h hi hi1 x h2 hi2 and i :: nat
  proof -
    have "hi2 = snd (hash_iterator_unlock h hi1)" using that(3,4) by (metis snd_conv)
    then have "hi_bucket_index hi2 = hi_bucket_index hi + 1" "hi_bucket_index_end hi2 = hi_bucket_index_end hi"
      using that(1) by simp_all
    then show ?thesis using that(1,2) unat_Suc_less [of "hi_bucket_index hi + 1" "hi_bucket_index_end hi"]
      by (simp add: word_less_nat_alt) linarith
  qed
qed auto

declare iterator_scan.simps [simp del]

definition hash_iterator_next ::
  "('k, 'v) hash \<Rightarrow> hash_iterator \<Rightarrow> ((nat \<times> nat) option \<times> ('k, 'v) hash \<times> hash_iterator) option" where
  "hash_iterator_next h hi =
     (case hi_elem hi of
        Some p \<Rightarrow> do {
          b \<leftarrow> hi_bucket hi;
          hi' \<leftarrow> hash_iterator_advance h hi;
          Some (Some (b, p), h, hi') }
      | None \<Rightarrow> iterator_scan h hi)"

definition hash_iterator_delete_element ::
  "('k, 'v) hash \<Rightarrow> hash_iterator \<Rightarrow> (('k, 'v) hash \<times> hash_iterator) option" where
  "hash_iterator_delete_element h hi = do {
     p \<leftarrow> hi_last hi;
     b \<leftarrow> hi_bucket hi;
     let l = hs_buckets h ! b;
     Some (set_bucket h b (l[p := (l ! p)\<lparr>he_key := None\<rparr>]), hi\<lparr>hi_bucket_marked := True\<rparr>) }"

partial_function (option) remove_by_value_loop ::
  "('k, 'v) hash \<Rightarrow> hash_iterator \<Rightarrow> 'v \<Rightarrow> (('k, 'v) hash \<times> hash_iterator) option" where
  "remove_by_value_loop h hi v = do {
     (he, h1, hi1) \<leftarrow> hash_iterator_next h hi;
     (case he of
        None \<Rightarrow> Some (h1, hi1)
      | Some (b, p) \<Rightarrow>
          if he_value (hs_buckets h1 ! b ! p) = v
          then do {
            (h2, hi2) \<leftarrow> hash_iterator_delete_element h1 hi1;
            remove_by_value_loop h2 hi2 v }
          else remove_by_value_loop h1 hi1 v) }"

definition hash_remove_by_value :: "('k, 'v) hash \<Rightarrow> 'v \<Rightarrow> ('k, 'v) hash option" where
  "hash_remove_by_value h v = do {
     hi \<leftarrow> hash_iterator_init h;
     (h1, hi1) \<leftarrow> remove_by_value_loop h hi v;
     Some (fst (hash_iterator_free h1 hi1)) }"

subsection \<open>Invariant and abstraction\<close>

definition key_is :: "('k, 'v) hash \<Rightarrow> 'k \<Rightarrow> ('k, 'v) hash_element \<Rightarrow> bool" where
  "key_is h k he = (case he_key he of None \<Rightarrow> False | Some k' \<Rightarrow> hs_compare_function h k k')"

definition bucket_of :: "('k, 'v) hash \<Rightarrow> 'k \<Rightarrow> nat" where
  "bucket_of h k = unat (hash_value h k AND hs_mask h)"

definition elem_ok :: "('k, 'v) hash \<Rightarrow> nat \<Rightarrow> ('k, 'v) hash_element \<Rightarrow> bool" where
  "elem_ok h b he \<longleftrightarrow> (\<exists>k. he_key he = Some k \<and> he_hash_value he = hash_value h k \<and> bucket_of h k = b)"

definition bucket_ok :: "('k, 'v) hash \<Rightarrow> nat \<Rightarrow> ('k, 'v) hash_element list \<Rightarrow> bool" where
  "bucket_ok h b l \<longleftrightarrow> (\<forall>he \<in> set l. elem_ok h b he) \<and> (\<forall>k. length (filter (key_is h k) l) \<le> 1)"

definition keys_ok :: "('k, 'v) hash \<Rightarrow> bool" where
  \<comment> \<open>comparison is an equivalence that the hash function respects\<close>
  "keys_ok h \<longleftrightarrow> equivp (hs_compare_function h)
     \<and> (\<forall>k k'. hs_compare_function h k k' \<longrightarrow> hash_value h k = hash_value h k')"

definition hash_wf :: "('k, 'v) hash \<Rightarrow> bool" where
  "hash_wf h \<longleftrightarrow> keys_ok h \<and> hs_n_buckets h \<noteq> 0 \<and> hs_mask h = hs_n_buckets h - 1
     \<and> length (hs_buckets h) = unat (hs_n_buckets h)
     \<and> (\<forall>b < length (hs_buckets h). bucket_ok h b (hs_buckets h ! b))
     \<and> hs_n_elements h = of_nat (sum_list (map length (hs_buckets h)))"

definition first_value :: "('k, 'v) hash_element list \<Rightarrow> 'v option" where
  "first_value l = (case l of [] \<Rightarrow> None | he # _ \<Rightarrow> Some (he_value he))"

definition hash_view :: "('k, 'v) hash \<Rightarrow> 'k \<Rightarrow> 'v option" where
  "hash_view h k = first_value (filter (key_is h k) (hs_buckets h ! bucket_of h k))"

lemma first_value_simps [simp]:
  "first_value [] = None" "first_value (he # l) = Some (he_value he)"
  by (simp_all add: first_value_def)

lemma hash_update_keys [simp]:
  "hash_value (h\<lparr>hs_buckets := bs\<rparr>) = hash_value h" "hash_value (h\<lparr>hs_n_elements := n\<rparr>) = hash_value h"
  "key_is (h\<lparr>hs_buckets := bs\<rparr>) = key_is h" "key_is (h\<lparr>hs_n_elements := n\<rparr>) = key_is h"
  "bucket_of (h\<lparr>hs_buckets := bs\<rparr>) = bucket_of h" "bucket_of (h\<lparr>hs_n_elements := n\<rparr>) = bucket_of h"
  by (simp_all add: fun_eq_iff hash_value_def key_is_def bucket_of_def split: option.split)

lemma hash_update_ok [simp]:
  "elem_ok (h\<lparr>hs_buckets := bs\<rparr>) = elem_ok h" "elem_ok (h\<lparr>hs_n_elements := n\<rparr>) = elem_ok h"
  "keys_ok (h\<lparr>hs_buckets := bs\<rparr>) = keys_ok h" "keys_ok (h\<lparr>hs_n_elements := n\<rparr>) = keys_ok h"
  by (simp_all add: fun_eq_iff elem_ok_def keys_ok_def)

lemma hash_update_bucket_ok [simp]:
  "bucket_ok (h\<lparr>hs_buckets := bs\<rparr>) = bucket_ok h" "bucket_ok (h\<lparr>hs_n_elements := n\<rparr>) = bucket_ok h"
  by (simp_all add: fun_eq_iff bucket_ok_def)

lemma key_is_cong:
  assumes "keys_ok h" and "hs_compare_function h k k'"
  shows "key_is h k' = key_is h k"
proof -
  have "hs_compare_function h k' = hs_compare_function h k" using assms by (metis equivp_def keys_ok_def)
  then show ?thesis by (intro ext) (simp only: key_is_def)
qed

lemma bucket_of_cong: "keys_ok h \<Longrightarrow> hs_compare_function h k k' \<Longrightarrow> bucket_of h k' = bucket_of h k"
  by (metis bucket_of_def keys_ok_def)

lemma key_is_disjoint:
  assumes "keys_ok h" and "\<not> hs_compare_function h k k'" and "key_is h k he"
  shows "\<not> key_is h k' he"
proof
  assume "key_is h k' he"
  with assms(3) obtain k2 where "hs_compare_function h k k2" "hs_compare_function h k' k2"
    by (auto simp: key_is_def split: option.splits)
  with assms(1,2) show False by (metis equivp_def keys_ok_def)
qed

lemma hash_bucket_wf:
  assumes "hash_wf h"
  shows "hash_bucket h (hash_value h k) = Some (bucket_of h k)" and "bucket_of h k < length (hs_buckets h)"
proof -
  have "hash_value h k AND hs_mask h \<le> hs_mask h" by (rule word_and_le1)
  moreover have "unat (hs_mask h) < unat (hs_n_buckets h)"
    using assms by (simp add: hash_wf_def unat_minus_one unat_gt_0)
  ultimately show *: "bucket_of h k < length (hs_buckets h)"
    using assms by (simp add: hash_wf_def bucket_of_def word_le_nat_alt)
  then show "hash_bucket h (hash_value h k) = Some (bucket_of h k)"
    by (simp add: hash_bucket_def bucket_of_def)
qed

lemma hash_wf_bucket: "hash_wf h \<Longrightarrow> b < length (hs_buckets h) \<Longrightarrow> bucket_ok h b (hs_buckets h ! b)"
  by (simp add: hash_wf_def)

lemma sum_length_update:
  "b < length bs \<Longrightarrow> sum_list (map length (bs[b := l])) + length (bs ! b) = sum_list (map length bs) + length l"
  by (induction bs arbitrary: b) (auto split: nat.splits simp: nth_Cons')

lemma set_bucket_wf:
  assumes "hash_wf h" and "b < length (hs_buckets h)" and "bucket_ok h b l"
    and "n + of_nat (length (hs_buckets h ! b)) = hs_n_elements h + of_nat (length l)"
  shows "hash_wf ((set_bucket h b l)\<lparr>hs_n_elements := n\<rparr>)"
proof -
  have "(of_nat (sum_list (map length ((hs_buckets h)[b := l])) + length (hs_buckets h ! b)) :: u32)
      = hs_n_elements h + of_nat (length l)"
    using sum_length_update [OF assms(2), of l] assms(1) by (simp add: hash_wf_def flip: of_nat_add)
  then have "n = of_nat (sum_list (map length ((hs_buckets h)[b := l])))"
    using assms(4) by (simp only: of_nat_add) (metis add_right_cancel)
  then show ?thesis using assms(1-3) by (auto simp: hash_wf_def set_bucket_def nth_list_update)
qed

lemma set_bucket_view:
  assumes "b < length (hs_buckets h)"
  shows "hash_view ((set_bucket h b l)\<lparr>hs_n_elements := n\<rparr>) k
    = (if bucket_of h k = b then first_value (filter (key_is h k) l) else hash_view h k)"
  using assms by (simp add: hash_view_def set_bucket_def)

lemma set_bucket_same: "(set_bucket h b l)\<lparr>hs_n_elements := hs_n_elements h\<rparr> = set_bucket h b l"
  by (simp add: set_bucket_def)

subsection \<open>The loops over a bucket\<close>

lemma he_matches_ok:
  assumes "keys_ok h" and "elem_ok h b he"
  shows "he_matches (hs_compare_function h) k (hash_value h k) he = Some (key_is h k he)"
  using assms by (auto simp: he_matches_def elem_ok_def key_is_def keys_ok_def)

lemma lookup_loop_ok:
  "keys_ok h \<Longrightarrow> \<forall>he \<in> set l. elem_ok h b he \<Longrightarrow>
    lookup_loop (hs_compare_function h) k (hash_value h k) pre l
      = Some (case List.extract (key_is h k) l of None \<Rightarrow> (None, pre @ l) | Some (ys, y, zs) \<Rightarrow> (Some 0, y # pre @ ys @ zs))"
proof (induction l arbitrary: pre)
  case Nil
  then show ?case by (simp add: List.extract_Nil_code)
next
  case (Cons he l)
  have "he_matches (hs_compare_function h) k (hash_value h k) he = Some (key_is h k he)"
    using he_matches_ok [OF Cons.prems(1), of b he] Cons.prems(2) by simp
  then show ?case using Cons.IH [of "pre @ [he]"] Cons.prems
    by (simp add: List.extract_Cons_code split: option.split prod.split)
qed

lemma remove_loop_ok:
  "keys_ok h \<Longrightarrow> \<forall>he \<in> set l. elem_ok h b he \<Longrightarrow>
    remove_loop (hs_compare_function h) k (hash_value h k) pre l
      = Some (case List.extract (key_is h k) l of None \<Rightarrow> (False, pre @ l) | Some (ys, y, zs) \<Rightarrow> (True, pre @ ys @ zs))"
proof (induction l arbitrary: pre)
  case Nil
  then show ?case by (simp add: List.extract_Nil_code)
next
  case (Cons he l)
  have "he_matches (hs_compare_function h) k (hash_value h k) he = Some (key_is h k he)"
    using he_matches_ok [OF Cons.prems(1), of b he] Cons.prems(2) by simp
  then show ?case using Cons.IH [of "pre @ [he]"] Cons.prems
    by (simp add: List.extract_Cons_code split: option.split prod.split)
qed

lemma bucket_split:
  assumes "bucket_ok h b (ys @ y # zs)" and "key_is h k y"
  shows "filter (key_is h k) ys = []" and "filter (key_is h k) zs = []"
proof -
  have "length (filter (key_is h k) (ys @ y # zs)) \<le> 1" using assms(1) by (simp add: bucket_ok_def)
  then show "filter (key_is h k) ys = []" "filter (key_is h k) zs = []" using assms(2) by simp_all
qed

lemma front_filter:
  assumes "bucket_ok h b (ys @ y # zs)"
  shows "filter (key_is h k) (y # ys @ zs) = filter (key_is h k) (ys @ y # zs)"
  using bucket_split [OF assms, of k] by (cases "key_is h k y") simp_all

lemma bucket_ok_front: "bucket_ok h b (ys @ y # zs) \<Longrightarrow> bucket_ok h b (y # ys @ zs)"
  using front_filter [of h b ys y zs] by (auto simp: bucket_ok_def)

lemma bucket_ok_drop: "bucket_ok h b (ys @ y # zs) \<Longrightarrow> bucket_ok h b (ys @ zs)"
proof -
  assume *: "bucket_ok h b (ys @ y # zs)"
  have "length (filter (key_is h k) (ys @ zs)) \<le> length (filter (key_is h k) (ys @ y # zs))" for k by simp
  moreover have "\<forall>he \<in> set (ys @ zs). elem_ok h b he" "\<forall>k. length (filter (key_is h k) (ys @ y # zs)) \<le> 1"
    using * by (auto simp: bucket_ok_def)
  ultimately show ?thesis unfolding bucket_ok_def using le_trans by blast
qed

lemma bucket_ok_add:
  assumes "bucket_ok h b l" and "filter (key_is h k) l = []" and "bucket_of h k = b" and "keys_ok h"
  shows "bucket_ok h b (\<lparr>he_value = v, he_key = Some k, he_hash_value = hash_value h k\<rparr> # l)"
proof -
  have "key_is h k' = key_is h k" if "hs_compare_function h k' k" for k'
    using key_is_cong [OF assms(4)] that assms(4) by (metis equivp_def keys_ok_def)
  then show ?thesis using assms
    by (auto simp: bucket_ok_def elem_ok_def key_is_def [of h _ "\<lparr>he_value = v, he_key = Some k, he_hash_value = hash_value h k\<rparr>"])
qed

subsection \<open>The table implements a map\<close>

lemma hash_wf_at:
  assumes "hash_wf h"
  shows "bucket_of h k < length (hs_buckets h)" "bucket_ok h (bucket_of h k) (hs_buckets h ! bucket_of h k)" "keys_ok h"
  using hash_bucket_wf(2) [OF assms, of k] assms by (simp_all add: hash_wf_def)

lemma hash_lookup_fast_ok:
  assumes "hash_wf h" and "b = bucket_of h k"
  obtains l where "hash_lookup_fast h b k (hash_value h k) = Some (if hash_view h k = None then None else Some 0, set_bucket h b l)"
    and "hash_wf (set_bucket h b l)" and "hash_view (set_bucket h b l) = hash_view h"
    and "bucket_ok h b l" and "length l = length (hs_buckets h ! b)"
    and "hash_view h k = None \<longrightarrow> filter (key_is h k) l = []"
    and "\<forall>v. hash_view h k = Some v \<longrightarrow> (\<exists>y l1. l = y # l1 \<and> he_value y = v \<and> key_is h k y)"
proof -
  let ?l = "hs_buckets h ! b"
  have b: "b < length (hs_buckets h)" and ok: "bucket_ok h b ?l" and keys: "keys_ok h"
    using hash_wf_at(1,2) [OF assms(1), of k] hash_wf_at(3) [OF assms(1)] assms by simp_all
  have loop: "lookup_loop (hs_compare_function h) k (hash_value h k) [] ?l
      = Some (case List.extract (key_is h k) ?l of None \<Rightarrow> (None, ?l) | Some (ys, y, zs) \<Rightarrow> (Some 0, y # ys @ zs))"
    using lookup_loop_ok [OF keys, of ?l b k "[]"] ok by (simp add: bucket_ok_def split: option.split)
  show thesis
  proof (cases "List.extract (key_is h k) ?l")
    case None
    then have none: "filter (key_is h k) ?l = []" by (auto simp: extract_None_iff filter_empty_conv)
    then have "hash_view h k = None" using assms(2) by (simp add: hash_view_def)
    moreover have "set_bucket h b ?l = h" by (simp add: set_bucket_def)
    ultimately show thesis using loop None assms(1) ok none by (intro that [of ?l]) (simp_all add: hash_lookup_fast_def)
  next
    case (Some t)
    then obtain ys y zs where t: "List.extract (key_is h k) ?l = Some (ys, y, zs)" by (cases t) auto
    then have split: "?l = ys @ y # zs" "key_is h k y" by (auto dest: extract_SomeE)
    then have v: "hash_view h k = Some (he_value y)"
      using bucket_split [of h b ys y zs k] ok assms(2) by (simp add: hash_view_def)
    let ?h = "set_bucket h b (y # ys @ zs)"
    have front: "bucket_ok h b (y # ys @ zs)" using ok split bucket_ok_front by metis
    have len: "length (y # ys @ zs) = length ?l" using split by simp
    have wf: "hash_wf ?h"
      using set_bucket_wf [OF assms(1) b front, of "hs_n_elements h"] len by (simp add: set_bucket_same del: list.size)
    have view: "hash_view ?h = hash_view h"
    proof
      show "hash_view ?h k' = hash_view h k'" for k'
        using set_bucket_view [OF b, of "hs_n_elements h" "y # ys @ zs" k'] front_filter [of h b ys y zs k'] ok split(1)
        by (cases "bucket_of h k' = b") (simp_all add: set_bucket_same hash_view_def)
    qed
    show thesis using loop t v wf view front len split(2)
      by (intro that [of "y # ys @ zs"]) (simp_all add: hash_lookup_fast_def)
  qed
qed

lemma hash_lookup_law:
  assumes "hash_wf h"
  shows "\<exists>h'. hash_lookup h k = Some (hash_view h k, h') \<and> hash_wf h'
    \<and> hs_compare_function h' = hs_compare_function h \<and> hash_view h' = hash_view h"
proof -
  let ?b = "bucket_of h k"
  obtain l where l: "hash_lookup_fast h ?b k (hash_value h k) = Some (if hash_view h k = None then None else Some 0, set_bucket h ?b l)"
    "hash_wf (set_bucket h ?b l)" "hash_view (set_bucket h ?b l) = hash_view h"
    "bucket_ok h ?b l" "length l = length (hs_buckets h ! ?b)" "hash_view h k = None \<longrightarrow> filter (key_is h k) l = []"
    "\<forall>v. hash_view h k = Some v \<longrightarrow> (\<exists>y l1. l = y # l1 \<and> he_value y = v \<and> key_is h k y)"
    by (rule hash_lookup_fast_ok [OF assms refl, of k])
  define h' where "h' = set_bucket h ?b l"
  note h' = l(1-3) [folded h'_def] h'_def l(7)
  have "hs_buckets h' ! ?b = l" using h'(4) hash_bucket_wf(2) [OF assms, of k] by (simp add: set_bucket_def)
  then have "hash_lookup h k = Some (hash_view h k, h')"
    using h'(1,5) hash_bucket_wf(1) [OF assms, of k]
    by (cases "hash_view h k") (auto simp: hash_lookup_def Let_def simp del: bind_Some_iff)
  moreover have "hs_compare_function h' = hs_compare_function h" using h'(4) by (simp add: set_bucket_def)
  ultimately show ?thesis using h' by blast
qed

lemma first_value_filter_replace:
  assumes "keys_ok h" and "key_is h k y" and "bucket_ok h b (y # l)"
  shows "first_value (filter (key_is h k') (y\<lparr>he_value := v\<rparr> # l))
    = (if hs_compare_function h k k' then Some v else first_value (filter (key_is h k') (y # l)))"
proof -
  have "key_is h k' (y\<lparr>he_value := v\<rparr>) = key_is h k' y" by (simp add: key_is_def split: option.split)
  moreover have "key_is h k' y \<longleftrightarrow> hs_compare_function h k k'"
    using key_is_cong [OF assms(1), of k k'] key_is_disjoint [OF assms(1), of k k' y] assms(2) by metis
  ultimately show ?thesis by simp
qed

lemma bucket_ok_replace:
  assumes "bucket_ok h b (y # l)"
  shows "bucket_ok h b (y\<lparr>he_value := v\<rparr> # l)"
proof -
  have "key_is h k (y\<lparr>he_value := v\<rparr>) = key_is h k y" for k by (simp add: key_is_def split: option.split)
  then have "length (filter (key_is h k) (y\<lparr>he_value := v\<rparr> # l)) = length (filter (key_is h k) (y # l))" for k by simp
  then show ?thesis using assms unfolding bucket_ok_def by (simp add: elem_ok_def del: filter.simps)
qed

lemma hash_add_law:
  assumes "hash_wf h"
  shows "\<exists>h'. hash_add h k v replace = Some (hash_view h k = None \<or> replace, h') \<and> hash_wf h'
    \<and> hs_compare_function h' = hs_compare_function h
    \<and> hash_view h' = (if hash_view h k = None \<or> replace
        then \<lambda>k'. if hs_compare_function h k k' then Some v else hash_view h k' else hash_view h)"
proof -
  let ?b = "bucket_of h k"
  obtain l where l: "hash_lookup_fast h ?b k (hash_value h k) = Some (if hash_view h k = None then None else Some 0, set_bucket h ?b l)"
    "hash_wf (set_bucket h ?b l)" "hash_view (set_bucket h ?b l) = hash_view h"
    "bucket_ok h ?b l" "length l = length (hs_buckets h ! ?b)" "hash_view h k = None \<longrightarrow> filter (key_is h k) l = []"
    "\<forall>v. hash_view h k = Some v \<longrightarrow> (\<exists>y l1. l = y # l1 \<and> he_value y = v \<and> key_is h k y)"
    by (rule hash_lookup_fast_ok [OF assms refl, of k])
  define h1 where "h1 = set_bucket h ?b l"
  note h1 = l(1-3) [folded h1_def] h1_def l(4-7)
  have b: "?b < length (hs_buckets h1)" and keys: "keys_ok h"
    using hash_bucket_wf(2) [OF assms, of k] assms h1(4) by (simp_all add: set_bucket_def hash_wf_def)
  have same: "hs_compare_function h1 = hs_compare_function h" "key_is h1 = key_is h" "bucket_of h1 = bucket_of h"
    "bucket_ok h1 = bucket_ok h" "hash_value h1 = hash_value h" "hs_buckets h1 ! ?b = l"
    using h1(4) b by (simp_all add: set_bucket_def)
  have cong: "bucket_of h k' = ?b" if "hs_compare_function h k k'" for k'
    using bucket_of_cong [OF keys that] .
  show ?thesis
  proof (cases "hash_view h k")
    case None
    let ?e = "\<lparr>he_value = v, he_key = Some k, he_hash_value = hash_value h k\<rparr>"
    let ?h = "hash_add_fast h1 ?b k (hash_value h k) v"
    have fast: "?h = (set_bucket h1 ?b (?e # l))\<lparr>hs_n_elements := hs_n_elements h1 + 1\<rparr>"
      using same by (simp add: hash_add_fast_def)
    have "bucket_ok h1 ?b (?e # l)" using bucket_ok_add [OF h1(5) _ refl keys, of v] h1(7) None same by simp
    then have wf: "hash_wf ?h" unfolding fast using h1(2) b same by (intro set_bucket_wf) simp_all
    have e: "key_is h k' ?e \<longleftrightarrow> hs_compare_function h k k'" for k'
      using keys by (simp add: key_is_def keys_ok_def) (metis equivp_def)
    have "hash_view ?h k' = (if hs_compare_function h k k' then Some v else hash_view h k')" for k'
      using cong [of k'] same h1(3) unfolding fast set_bucket_view [OF b]
      by (auto simp: e hash_view_def [of h1] simp flip: h1(3))
    moreover have "hs_compare_function ?h = hs_compare_function h" unfolding fast using same(1) by (simp add: set_bucket_def)
    ultimately show ?thesis using h1(1) wf None hash_bucket_wf(1) [OF assms, of k]
      by (intro exI [of _ ?h] conjI) (auto simp: hash_add_def Let_def fun_eq_iff simp del: bind_Some_iff)
  next
    case (Some w)
    then obtain y l1 where l: "l = y # l1" "key_is h k y" using h1(8) by blast
    let ?l = "y\<lparr>he_value := v\<rparr> # l1"
    let ?h = "set_bucket h1 ?b ?l"
    have "bucket_ok h1 ?b ?l" using bucket_ok_replace h1(5) l same by metis
    then have wf: "hash_wf ?h" using set_bucket_wf [OF h1(2) b, of ?l "hs_n_elements h1"] same l(1) by (simp add: set_bucket_same)
    have "hash_view ?h k' = (if hs_compare_function h k k' then Some v else hash_view h k')" for k'
      using set_bucket_view [OF b, of "hs_n_elements h1" ?l k'] first_value_filter_replace [OF keys l(2), of ?b l1 k' v]
        h1(5) l(1) cong [of k'] same by (auto simp: set_bucket_same hash_view_def [of h1] simp flip: h1(3))
    moreover have "hs_compare_function ?h = hs_compare_function h" using same by (simp add: set_bucket_def)
    ultimately show ?thesis using h1(1-3) wf Some hash_bucket_wf(1) [OF assms, of k] same l(1)
      by (cases replace) (auto simp: hash_add_def Let_def fun_eq_iff simp del: bind_Some_iff)
  qed
qed

lemma hash_remove_law:
  assumes "hash_wf h"
  shows "\<exists>h'. hash_remove h k = Some (hash_view h k \<noteq> None, h') \<and> hash_wf h'
    \<and> hs_compare_function h' = hs_compare_function h
    \<and> hash_view h' = (\<lambda>k'. if hs_compare_function h k k' then None else hash_view h k')"
proof -
  let ?b = "bucket_of h k" and ?l = "hs_buckets h ! bucket_of h k"
  have b: "?b < length (hs_buckets h)" and ok: "bucket_ok h ?b ?l" and keys: "keys_ok h"
    using hash_wf_at(1,2) [OF assms(1), of k] hash_wf_at(3) [OF assms(1)] assms by simp_all
  have loop: "remove_loop (hs_compare_function h) k (hash_value h k) [] ?l
      = Some (case List.extract (key_is h k) ?l of None \<Rightarrow> (False, ?l) | Some (ys, y, zs) \<Rightarrow> (True, ys @ zs))"
    using remove_loop_ok [OF keys, of ?l ?b k "[]"] ok by (simp add: bucket_ok_def split: option.split)
  have cong: "bucket_of h k' = ?b" "key_is h k' = key_is h k" if "hs_compare_function h k k'" for k'
    using bucket_of_cong [OF keys that] key_is_cong [OF keys that] by simp_all
  show ?thesis
  proof (cases "List.extract (key_is h k) ?l")
    case None
    then have none: "filter (key_is h k) ?l = []" by (auto simp: extract_None_iff filter_empty_conv)
    then have view: "hash_view h k = None" by (simp add: hash_view_def)
    have "hash_view h k' = None" if "hs_compare_function h k k'" for k'
      using cong [OF that] none by (simp add: hash_view_def)
    then have "hash_view h = (\<lambda>k'. if hs_compare_function h k k' then None else hash_view h k')" by auto
    then show ?thesis using loop None view hash_bucket_wf(1) [OF assms, of k] assms
      by (intro exI [of _ h] conjI) (auto simp: hash_remove_def hash_remove_fast_def Let_def simp del: bind_Some_iff)
  next
    case (Some t)
    then obtain ys y zs where t: "List.extract (key_is h k) ?l = Some (ys, y, zs)" by (cases t) auto
    then have split: "?l = ys @ y # zs" "key_is h k y" by (auto dest: extract_SomeE)
    have empty: "filter (key_is h k) (ys @ zs) = []" "hash_view h k = Some (he_value y)"
      using bucket_split [of h ?b ys y zs k] ok split by (simp_all add: hash_view_def)
    let ?h = "(set_bucket h ?b (ys @ zs))\<lparr>hs_n_elements := hs_n_elements h - 1\<rparr>"
    have "bucket_ok h ?b (ys @ zs)" using ok split bucket_ok_drop by metis
    then have wf: "hash_wf ?h" using assms b split by (intro set_bucket_wf) simp_all
    have "hash_view ?h k' = (if hs_compare_function h k k' then None else hash_view h k')" for k'
    proof (cases "hs_compare_function h k k'")
      case True
      then show ?thesis using cong [OF True] empty b by (simp add: set_bucket_view)
    next
      case False
      have "\<not> key_is h k' y" using key_is_disjoint [OF keys False split(2)] .
      then show ?thesis using False split b by (auto simp: set_bucket_view hash_view_def [of h])
    qed
    moreover have "hs_compare_function ?h = hs_compare_function h" by (simp add: set_bucket_def)
    ultimately show ?thesis using loop t empty(2) wf hash_bucket_wf(1) [OF assms, of k]
      by (intro exI [of _ ?h] conjI) (auto simp: hash_remove_def hash_remove_fast_def Let_def fun_eq_iff simp del: bind_Some_iff)
  qed
qed

interpretation ht: keyed_map hash_wf hs_compare_function hash_view hash_lookup hash_add hash_remove
proof unfold_locales
qed (rule hash_lookup_law hash_add_law hash_remove_law, assumption)+

end
