(* ===== verification/Hash_Table_Props.thy ===== *)
theory Hash_Table_Props
  imports Hash_Table
begin

text \<open>
  The removal of entries by value through the iterator, the hash function for byte strings
  (\<^verbatim>\<open>mix\<close> and \<^verbatim>\<open>hash_func\<close> of \<^verbatim>\<open>list.c\<close>), and the properties of the hash table.
\<close>

unbundle bit_operations_syntax

subsection \<open>Removal by value\<close>

lemma remove_marked_loop_eq:
  "remove_marked_loop n l
    = (n - of_nat (length (filter (\<lambda>he. he_key he = None) l)), filter (\<lambda>he. he_key he \<noteq> None) l)"
  by (induction l arbitrary: n) (simp_all add: algebra_simps)

definition mark :: "'v \<Rightarrow> ('k, 'v) hash_element \<Rightarrow> ('k, 'v) hash_element" where
  "mark v he = (if he_value he = v then he\<lparr>he_key := None\<rparr> else he)"

definition marked_from :: "'v \<Rightarrow> nat \<Rightarrow> ('k, 'v) hash_element list \<Rightarrow> ('k, 'v) hash_element list" where
  "marked_from v p l = take p l @ map (mark v) (drop p l)"

text \<open>
  The iterator inside a bucket: it stands behind the element at position \<open>p - 1\<close>. Running the
  loop to the end of the bucket marks the elements from \<open>p\<close> on that have the value.
\<close>

definition in_bucket :: "hash_iterator \<Rightarrow> nat \<Rightarrow> nat \<Rightarrow> ('k, 'v) hash_element list \<Rightarrow> bool" where
  "in_bucket hi b p l \<longleftrightarrow> hi_bucket hi = Some b \<and> unat (hi_bucket_index hi) = b \<and> 0 < p \<and> p \<le> length l
     \<and> hi_last hi = Some (p - 1) \<and> hi_elem hi = (if p < length l then Some p else None)
     \<and> (hi_bucket_marked hi \<or> (\<forall>he \<in> set l. he_key he \<noteq> None))"

lemma marked_from_step:
  "p < length l \<Longrightarrow> marked_from v (Suc p) (l[p := mark v (l ! p)]) = marked_from v p l"
  by (simp add: marked_from_def take_Suc_conv_app_nth Cons_nth_drop_Suc [symmetric] del: Cons_nth_drop_Suc)

lemma loop_visit:
  assumes "hash_iterator_next h hi = Some (Some (b, p), h1, hi1)" and "b < length (hs_buckets h1)"
    and "l = hs_buckets h1 ! b" and "p < length l" and "in_bucket hi1 b (Suc p) l"
  obtains hi2 where "remove_by_value_loop h hi v = remove_by_value_loop (set_bucket h1 b (l[p := mark v (l ! p)])) hi2 v"
    and "in_bucket hi2 b (Suc p) (l[p := mark v (l ! p)])"
    and "hi_bucket_index_end hi2 = hi_bucket_index_end hi1"
proof (cases "he_value (l ! p) = v")
  case True
  have "hash_iterator_delete_element h1 hi1 = Some (set_bucket h1 b (l[p := mark v (l ! p)]), hi1\<lparr>hi_bucket_marked := True\<rparr>)"
    using assms(3,5) True by (simp add: hash_iterator_delete_element_def in_bucket_def mark_def Let_def)
  then have "remove_by_value_loop h hi v
      = remove_by_value_loop (set_bucket h1 b (l[p := mark v (l ! p)])) (hi1\<lparr>hi_bucket_marked := True\<rparr>) v"
    using assms(1,3) True by (subst remove_by_value_loop.simps) (simp del: bind_Some_iff)
  then show thesis using assms(5) by (intro that [of "hi1\<lparr>hi_bucket_marked := True\<rparr>"]) (simp_all add: in_bucket_def)
next
  case False
  then have same: "l[p := mark v (l ! p)] = l" by (simp add: mark_def)
  then have "remove_by_value_loop h hi v = remove_by_value_loop (set_bucket h1 b (l[p := mark v (l ! p)])) hi1 v"
    using assms(1,3) False by (subst remove_by_value_loop.simps) (simp add: set_bucket_def del: bind_Some_iff)
  then show thesis using assms(5) same by (intro that [of hi1]) simp_all
qed

lemma set_bucket_twice [simp]: "set_bucket (set_bucket h b l) b l' = set_bucket h b l'"
  and set_bucket_nth [simp]: "b < length (hs_buckets h) \<Longrightarrow> hs_buckets (set_bucket h b l) ! b = l"
  and set_bucket_other [simp]: "b' \<noteq> b \<Longrightarrow> hs_buckets (set_bucket h b l) ! b' = hs_buckets h ! b'"
  and set_bucket_length [simp]: "length (hs_buckets (set_bucket h b l)) = length (hs_buckets h)"
  and set_bucket_id [simp]: "set_bucket h b (hs_buckets h ! b) = h"
  by (simp_all add: set_bucket_def)

lemma loop_bucket:
  assumes "in_bucket hi b p l" and "b < length (hs_buckets h)" and "l = hs_buckets h ! b"
  shows "\<exists>hi'. remove_by_value_loop h hi v = remove_by_value_loop (set_bucket h b (marked_from v p l)) hi' v
    \<and> in_bucket hi' b (length l) (marked_from v p l) \<and> hi_bucket_index_end hi' = hi_bucket_index_end hi"
  using assms
proof (induction "length l - p" arbitrary: p hi h l)
  case 0
  then have "p = length l" by (simp add: in_bucket_def)
  then show ?case using 0 by (intro exI [of _ hi]) (simp add: marked_from_def)
next
  case (Suc n)
  then have p: "p < length l" by simp
  let ?l = "l[p := mark v (l ! p)]"
  obtain hi1 where hi1: "hash_iterator_advance h hi = Some hi1" "in_bucket hi1 b (Suc p) l"
    "hi_bucket_index_end hi1 = hi_bucket_index_end hi"
    using Suc.prems p by (simp add: in_bucket_def hash_iterator_advance_def)
  have "hash_iterator_next h hi = Some (Some (b, p), h, hi1)"
    using Suc.prems p hi1(1) by (simp add: hash_iterator_next_def in_bucket_def)
  then obtain hi2 where hi2: "remove_by_value_loop h hi v = remove_by_value_loop (set_bucket h b ?l) hi2 v"
    "in_bucket hi2 b (Suc p) ?l" "hi_bucket_index_end hi2 = hi_bucket_index_end hi1"
    by (rule loop_visit [OF _ Suc.prems(2,3) p hi1(2)])
  have "\<exists>hi'. remove_by_value_loop (set_bucket h b ?l) hi2 v
        = remove_by_value_loop (set_bucket (set_bucket h b ?l) b (marked_from v (Suc p) ?l)) hi' v
      \<and> in_bucket hi' b (length ?l) (marked_from v (Suc p) ?l) \<and> hi_bucket_index_end hi' = hi_bucket_index_end hi2"
    using Suc.hyps(2) Suc.prems(2) by (intro Suc.hyps(1) hi2(2)) simp_all
  then show ?case using hi2(1,3) hi1(3) marked_from_step [OF p, of v] by simp
qed

definition swept_buckets :: "'v \<Rightarrow> nat \<Rightarrow> ('k, 'v) hash \<Rightarrow> ('k, 'v) hash_element list list" where
  "swept_buckets v i h = map (filter (\<lambda>he. he_value he \<noteq> v)) (take i (hs_buckets h)) @ drop i (hs_buckets h)"

definition swept :: "'v \<Rightarrow> nat \<Rightarrow> ('k, 'v) hash \<Rightarrow> ('k, 'v) hash" where
  \<comment> \<open>the table after the first \<open>i\<close> buckets have been gone through\<close>
  "swept v i h = h\<lparr>hs_buckets := swept_buckets v i h,
     hs_n_elements := of_nat (sum_list (map length (swept_buckets v i h)))\<rparr>"

lemma swept_fields [simp]:
  "length (hs_buckets (swept v i h)) = length (hs_buckets h)" "hs_n_buckets (swept v i h) = hs_n_buckets h"
  "i < length (hs_buckets h) \<Longrightarrow> hs_buckets (swept v i h) ! i = hs_buckets h ! i"
  by (simp_all add: swept_def swept_buckets_def nth_append)

lemma swept_0: "hash_wf h \<Longrightarrow> swept v 0 h = h"
  by (simp add: swept_def swept_buckets_def hash_wf_def)

lemma swept_buckets_Suc:
  assumes "i < length (hs_buckets h)"
  shows "swept_buckets v (Suc i) h = (swept_buckets v i h)[i := filter (\<lambda>he. he_value he \<noteq> v) (hs_buckets h ! i)]"
    and "i < length (swept_buckets v i h)" and "swept_buckets v i h ! i = hs_buckets h ! i"
  using assms by (simp_all add: swept_buckets_def take_Suc_conv_app_nth Cons_nth_drop_Suc [symmetric] nth_append list_update_append del: Cons_nth_drop_Suc)

lemma swept_Suc:
  assumes "i < length (hs_buckets h)" and "l = hs_buckets h ! i"
  shows "swept v (Suc i) h = (set_bucket (swept v i h) i (filter (\<lambda>he. he_value he \<noteq> v) l))
    \<lparr>hs_n_elements := hs_n_elements (swept v i h) - of_nat (length (filter (\<lambda>he. he_value he = v) l))\<rparr>"
proof -
  let ?l = "filter (\<lambda>he. he_value he \<noteq> v) l" and ?bs = "swept_buckets v i h"
  have "sum_list (map length (?bs[i := ?l])) + length l = sum_list (map length ?bs) + length ?l"
    using sum_length_update [OF swept_buckets_Suc(2) [OF assms(1)], of v ?l] swept_buckets_Suc(3) [OF assms(1), of v] assms(2) by simp
  moreover have "length l = length ?l + length (filter (\<lambda>he. he_value he = v) l)"
    using sum_length_filter_compl [of "\<lambda>he. he_value he = v" l] by simp
  ultimately have "sum_list (map length ?bs) = sum_list (map length (?bs[i := ?l])) + length (filter (\<lambda>he. he_value he = v) l)"
    by linarith
  then have "(of_nat (sum_list (map length (?bs[i := ?l]))) :: u32)
      = of_nat (sum_list (map length ?bs)) - of_nat (length (filter (\<lambda>he. he_value he = v) l))"
    by simp
  then show ?thesis using swept_buckets_Suc(1) [OF assms(1), of v] assms(2) by (simp add: swept_def set_bucket_def)
qed

lemma unlock_bucket:
  assumes "in_bucket hi b p (hs_buckets h ! b)"
  shows "fst (hash_iterator_unlock h hi) = (set_bucket h b (filter (\<lambda>he. he_key he \<noteq> None) (hs_buckets h ! b)))
    \<lparr>hs_n_elements := hs_n_elements h - of_nat (length (filter (\<lambda>he. he_key he = None) (hs_buckets h ! b)))\<rparr>"
proof (cases "hi_bucket_marked hi")
  case True
  then show ?thesis using assms
    by (simp add: hash_iterator_unlock_def in_bucket_def hash_remove_marked_def remove_marked_loop_eq)
next
  case False
  then have all: "\<forall>he \<in> set (hs_buckets h ! b). he_key he \<noteq> None" using assms by (simp add: in_bucket_def)
  then have "filter (\<lambda>he. he_key he \<noteq> None) (hs_buckets h ! b) = hs_buckets h ! b"
    "filter (\<lambda>he. he_key he = None) (hs_buckets h ! b) = []"
    by (simp_all only: filter_id_conv filter_empty_conv not_False_eq_True)
  then show ?thesis using False assms by (simp only: hash_iterator_unlock_def in_bucket_def) simp
qed

lemma unlock_index_update:
  "hash_iterator_unlock h (hi\<lparr>hi_bucket_index := i\<rparr>)
    = (fst (hash_iterator_unlock h hi), (snd (hash_iterator_unlock h hi))\<lparr>hi_bucket_index := i\<rparr>)"
  by (simp add: hash_iterator_unlock_def split: option.split)

lemma unlock_after: "hi_bucket (snd (hash_iterator_unlock h hi)) = None"
  "hi_elem (snd (hash_iterator_unlock h hi)) = hi_elem hi"
  by (simp_all add: hash_iterator_unlock_def split: option.split)

lemma unlock_unlocked: "hi_bucket hi = None \<Longrightarrow> hash_iterator_unlock h hi = (h, hi)"
  by (simp add: hash_iterator_unlock_def)

lemma filter_mark:
  assumes "\<forall>he \<in> set l. he_key he \<noteq> None"
  shows "filter (\<lambda>he. he_key he \<noteq> None) (map (mark v) l) = filter (\<lambda>he. he_value he \<noteq> v) l"
    and "length (filter (\<lambda>he. he_key he = None) (map (mark v) l)) = length (filter (\<lambda>he. he_value he = v) l)"
  using assms by (induction l) (auto simp: mark_def)

lemma loop_sweep:
  assumes "hash_wf h0" and "hi_elem hi = None" and "hi_bucket_index hi + 1 = of_nat i" and "i \<le> length (hs_buckets h0)"
    and "hi_bucket_index_end hi = hs_n_buckets h0" and "fst (hash_iterator_unlock h hi) = swept v i h0"
  shows "\<exists>h' hi'. remove_by_value_loop h hi v = Some (h', hi')
    \<and> fst (hash_iterator_unlock h' hi') = swept v (length (hs_buckets h0)) h0"
  using assms(2-6)
proof (induction "length (hs_buckets h0) - i" arbitrary: i h hi)
  case 0
  then have i: "i = length (hs_buckets h0)" by simp
  then have "(of_nat i :: u32) = hs_n_buckets h0" using assms(1) by (simp add: hash_wf_def)
  then have "iterator_scan h hi = Some (None, h, hi\<lparr>hi_bucket_index := of_nat i\<rparr>)"
    using 0 by (subst iterator_scan.simps) simp
  then have "remove_by_value_loop h hi v = Some (h, hi\<lparr>hi_bucket_index := of_nat i\<rparr>)"
    using 0 by (subst remove_by_value_loop.simps) (simp add: hash_iterator_next_def)
  then show ?case using 0 i by (simp add: unlock_index_update)
next
  case (Suc m)
  let ?l = "hs_buckets h0 ! i" and ?h2 = "swept v i h0"
  define hi2 where "hi2 = (snd (hash_iterator_unlock h hi))\<lparr>hi_bucket_index := of_nat i\<rparr>"
  have i: "i < length (hs_buckets h0)" using Suc.hyps(2) by simp
  have n: "length (hs_buckets h0) = unat (hs_n_buckets h0)" using assms(1) by (simp add: hash_wf_def)
  have "i < 4294967296" using i n unat_u32_less [of "hs_n_buckets h0"] by linarith
  then have idx: "unat (of_nat i :: u32) = i" by (simp add: unat_of_nat)
  have lt: "(of_nat i :: u32) < hs_n_buckets h0" using i n idx by (simp add: word_less_nat_alt)
  have keyed: "\<forall>he \<in> set ?l. he_key he \<noteq> None"
    using hash_wf_bucket [OF assms(1) i] by (auto simp: bucket_ok_def elem_ok_def)
  have un: "hash_iterator_unlock h (hi\<lparr>hi_bucket_index := of_nat i\<rparr>) = (?h2, hi2)"
    using Suc.prems(5) by (simp add: unlock_index_update hi2_def)
  have hi2: "hi_bucket hi2 = None" "hi_elem hi2 = None" "hi_bucket_index hi2 = of_nat i" "hi_bucket_index_end hi2 = hs_n_buckets h0"
    using Suc.prems by (simp_all add: hi2_def unlock_after)
  have next_i: "hi_bucket_index hi' + 1 = of_nat (Suc i)" if "unat (hi_bucket_index hi') = i" for hi'
  proof -
    have "hi_bucket_index hi' = of_nat i" using that by auto
    then show ?thesis by simp
  qed
  show ?case
  proof (cases "?l = []")
    case True
    then have "iterator_scan h hi = iterator_scan ?h2 hi2"
      using Suc.prems lt idx i un hi2 by (subst iterator_scan.simps) simp
    then have "remove_by_value_loop h hi v = remove_by_value_loop ?h2 hi2 v"
      using Suc.prems(1) hi2(2) by (subst (1 2) remove_by_value_loop.simps) (simp add: hash_iterator_next_def)
    moreover have "swept v (Suc i) h0 = ?h2" using swept_Suc [OF i refl, of v] True i
      by (simp add: swept_def set_bucket_def swept_buckets_def list_update_id list_update_same_conv nth_append)
    ultimately show ?thesis
      using Suc.hyps(1) [of "Suc i" hi2 ?h2] Suc.hyps(2) hi2 next_i [of hi2] idx i by (simp add: unlock_unlocked)
  next
    case False
    define hi3 where "hi3 = (hash_iterator_lock hi2 i)
      \<lparr>hi_elem := (if Suc 0 < length ?l then Some (Suc 0) else None), hi_last := Some 0\<rparr>"
    have "hash_iterator_advance ?h2 ((hash_iterator_lock hi2 i)\<lparr>hi_elem := Some 0\<rparr>) = Some hi3"
      using i by (simp add: hash_iterator_advance_def hash_iterator_lock_def hi3_def)
    then have "iterator_scan h hi = Some (Some (i, 0), ?h2, hi3)"
      using Suc.prems lt idx i un hi2 False by (subst iterator_scan.simps) simp
    then have nxt: "hash_iterator_next h hi = Some (Some (i, 0), ?h2, hi3)"
      using Suc.prems(1) by (simp add: hash_iterator_next_def)
    have in3: "in_bucket hi3 i (Suc 0) ?l"
      using False keyed idx hi2 by (cases ?l) (auto simp: in_bucket_def hi3_def hash_iterator_lock_def)
    have l2: "?l = hs_buckets ?h2 ! i" and i2: "i < length (hs_buckets ?h2)" using i by simp_all
    let ?l1 = "?l[0 := mark v (?l ! 0)]"
    obtain hi4 where hi4: "remove_by_value_loop h hi v = remove_by_value_loop (set_bucket ?h2 i ?l1) hi4 v"
      "in_bucket hi4 i (Suc 0) ?l1" "hi_bucket_index_end hi4 = hi_bucket_index_end hi3"
      using False by (auto intro: loop_visit [OF nxt i2 l2 _ in3])
    have all: "marked_from v (Suc 0) ?l1 = map (mark v) ?l"
      using False by (subst marked_from_step) (simp_all add: marked_from_def)
    obtain hi5 where hi5: "remove_by_value_loop h hi v = remove_by_value_loop (set_bucket ?h2 i (map (mark v) ?l)) hi5 v"
      "in_bucket hi5 i (length ?l) (map (mark v) ?l)" "hi_bucket_index_end hi5 = hi_bucket_index_end hi4"
      using loop_bucket [OF hi4(2), of "set_bucket ?h2 i ?l1" v] hi4(1) i all by auto
    have "fst (hash_iterator_unlock (set_bucket ?h2 i (map (mark v) ?l)) hi5) = swept v (Suc i) h0"
      using unlock_bucket [of hi5 i "length ?l" "set_bucket ?h2 i (map (mark v) ?l)"] hi5(2) i2
        filter_mark [OF keyed, of v] swept_Suc [OF i refl, of v] by (simp add: set_bucket_def)
    moreover have "hi_elem hi5 = None" "unat (hi_bucket_index hi5) = i" using hi5(2) by (simp_all add: in_bucket_def)
    moreover have "hi_bucket_index_end hi5 = hs_n_buckets h0"
      using hi5(3) hi4(3) hi2(4) by (simp add: hi3_def hash_iterator_lock_def)
    ultimately show ?thesis
      using Suc.hyps(1) [of "Suc i" hi5 "set_bucket ?h2 i (map (mark v) ?l)"] Suc.hyps(2) next_i [of hi5] i hi5(1) by simp
  qed
qed

lemma swept_wf:
  assumes "hash_wf h"
  shows "hash_wf (swept v (length (hs_buckets h)) h)"
proof -
  have ok: "bucket_ok h b (filter (\<lambda>he. he_value he \<noteq> v) (hs_buckets h ! b))" if b: "b < length (hs_buckets h)" for b
  proof -
    let ?f = "filter (\<lambda>he. he_value he \<noteq> v) (hs_buckets h ! b)"
    have "length (filter (key_is h k) ?f) \<le> 1" for k
    proof -
      have "filter (key_is h k) ?f = filter (\<lambda>he. he_value he \<noteq> v) (filter (key_is h k) (hs_buckets h ! b))"
        by (simp add: conj_commute)
      also have "length \<dots> \<le> length (filter (key_is h k) (hs_buckets h ! b))" by (rule length_filter_le)
      also have "\<dots> \<le> 1" using hash_wf_bucket [OF assms b] by (simp add: bucket_ok_def)
      finally show ?thesis .
    qed
    then show ?thesis using hash_wf_bucket [OF assms b] by (simp add: bucket_ok_def)
  qed
  have fields: "hs_n_buckets (swept v i h) = hs_n_buckets h" "hs_mask (swept v i h) = hs_mask h"
    "keys_ok (swept v i h) = keys_ok h" "bucket_ok (swept v i h) = bucket_ok h"
    "hs_n_elements (swept v i h) = of_nat (sum_list (map length (hs_buckets (swept v i h))))" for i
    by (simp_all add: swept_def)
  have buckets: "hs_buckets (swept v (length (hs_buckets h)) h) = map (filter (\<lambda>he. he_value he \<noteq> v)) (hs_buckets h)"
    by (simp add: swept_def swept_buckets_def)
  show ?thesis using assms ok unfolding hash_wf_def fields buckets by simp
qed

lemma swept_view:
  assumes "hash_wf h"
  shows "hash_view (swept v (length (hs_buckets h)) h) k = (if hash_view h k = Some v then None else hash_view h k)"
proof -
  let ?l = "hs_buckets h ! bucket_of h k"
  have b: "bucket_of h k < length (hs_buckets h)" and "length (filter (key_is h k) ?l) \<le> 1"
    using hash_wf_at(1,2) [OF assms, of k] by (simp_all add: bucket_ok_def)
  then consider "filter (key_is h k) ?l = []" | he where "filter (key_is h k) ?l = [he]"
    by (cases "filter (key_is h k) ?l") auto
  then have "first_value (filter (\<lambda>he. he_value he \<noteq> v) (filter (key_is h k) ?l))
      = (if hash_view h k = Some v then None else hash_view h k)"
    by cases (simp_all add: hash_view_def)
  moreover have "hash_view (swept v (length (hs_buckets h)) h) k
      = first_value (filter (\<lambda>he. he_value he \<noteq> v) (filter (key_is h k) ?l))"
    using b by (simp add: hash_view_def swept_def swept_buckets_def conj_commute)
  ultimately show ?thesis by simp
qed

lemma hash_remove_by_value_eq:
  assumes "hash_wf h"
  shows "hash_remove_by_value h v = Some (swept v (length (hs_buckets h)) h)"
proof -
  define hi where "hi = \<lparr>hi_bucket_index = (- 1 :: u32), hi_bucket = None, hi_elem = None, hi_last = None,
    hi_bucket_marked = False, hi_bucket_index_start = 0, hi_bucket_index_end = hs_n_buckets h\<rparr>"
  have init: "hash_iterator_init h = Some hi"
    by (simp add: hash_iterator_init_def hash_iterator_init_range_def hi_def Let_def)
  obtain h' hi' where "remove_by_value_loop h hi v = Some (h', hi')"
    "fst (hash_iterator_unlock h' hi') = swept v (length (hs_buckets h)) h"
    using loop_sweep [OF assms, of hi 0 h v] swept_0 [OF assms, of v] by (auto simp: hi_def unlock_unlocked)
  then show ?thesis using init by (simp add: hash_remove_by_value_def hash_iterator_free_def)
qed

lemma hash_init_wf:
  assumes "0 < n" and "unat n \<le> 2 ^ 31" and "equivp cmp" and "\<forall>k k'. cmp k k' \<longrightarrow> hf k iv = hf k' iv"
  shows "\<exists>h :: ('k, 'v) hash. hash_init n iv hf cmp = Some h \<and> hash_wf h \<and> hs_compare_function h = cmp \<and> hash_view h = (\<lambda>k. None)"
proof -
  obtain j r where r: "adjust_power_of_2 (ucast n) = Some r" "unat (ucast r :: u32) = 2 ^ j"
    using adjust_power_of_2_u32 [OF assms(2)] by blast
  define h :: "('k, 'v) hash" where "h = \<lparr>hs_n_buckets = ucast r, hs_n_elements = 0, hs_mask = ucast r - 1, hs_iv = iv,
    hs_hash_function = hf, hs_compare_function = cmp, hs_buckets = replicate (unat (ucast r :: u32)) []\<rparr>"
  have init: "hash_init n iv hf cmp = Some h" using assms(1) r(1) by (simp add: hash_init_def h_def)
  have "(ucast r :: u32) \<noteq> 0" using r(2) by (metis power_not_zero unat_0 zero_neq_numeral)
  then have wf: "hash_wf h"
    using assms(3,4) by (simp add: hash_wf_def h_def keys_ok_def hash_value_def bucket_ok_def sum_list_replicate)
  have "hash_view h = (\<lambda>k. None)"
    using hash_wf_at(1) [OF wf] by (intro ext) (simp add: hash_view_def, simp add: h_def)
  moreover have "hs_compare_function h = cmp" by (simp add: h_def)
  ultimately show ?thesis using init wf by blast
qed

subsection \<open>The hash function\<close>

text \<open>
  The macro \<open>mix\<close> has nine groups of three lines, each changing one variable by subtracting the two
  others and then a shift of one of them.
\<close>

definition mix_a :: "nat \<Rightarrow> u32 \<times> u32 \<times> u32 \<Rightarrow> u32 \<times> u32 \<times> u32" where
  "mix_a n = (\<lambda>(a, b, c). ((a - b - c) XOR drop_bit n c, b, c))"

definition mix_b :: "nat \<Rightarrow> u32 \<times> u32 \<times> u32 \<Rightarrow> u32 \<times> u32 \<times> u32" where
  "mix_b n = (\<lambda>(a, b, c). (a, (b - c - a) XOR push_bit n a, c))"

definition mix_c :: "nat \<Rightarrow> u32 \<times> u32 \<times> u32 \<Rightarrow> u32 \<times> u32 \<times> u32" where
  "mix_c n = (\<lambda>(a, b, c). (a, b, (c - a - b) XOR drop_bit n b))"

definition mix :: "u32 \<times> u32 \<times> u32 \<Rightarrow> u32 \<times> u32 \<times> u32" where
  "mix s =
     (let s1 = mix_c 13 (mix_b 8 (mix_a 13 s));
          s2 = mix_c 5 (mix_b 16 (mix_a 12 s1));
          s3 = mix_c 15 (mix_b 10 (mix_a 3 s2))
      in s3)"

definition k4 :: "u8 list \<Rightarrow> nat \<Rightarrow> u32" where
  \<comment> \<open>four bytes of the key from \<open>i\<close> on, least significant first\<close>
  "k4 k i = ucast (k ! i) + push_bit 8 (ucast (k ! (i + 1))) + push_bit 16 (ucast (k ! (i + 2)))
     + push_bit 24 (ucast (k ! (i + 3)))"

function hash_loop :: "u8 list \<Rightarrow> u32 \<Rightarrow> u32 \<times> u32 \<times> u32 \<Rightarrow> (u8 list \<times> u32 \<times> u32 \<times> u32 \<times> u32) option" where
  "hash_loop k len (a, b, c) =
     (if len \<ge> 12
      then if length k < 12 then None
           else hash_loop (drop 12 k) (len - 12) (mix (a + k4 k 0, b + k4 k 4, c + k4 k 8))
      else Some (k, len, a, b, c))"
  by pat_completeness auto
termination by (relation "measure (\<lambda>(k, len, _). length k)") auto

declare hash_loop.simps [simp del]

definition tail_byte :: "u8 list \<Rightarrow> u32 \<Rightarrow> nat \<Rightarrow> nat \<Rightarrow> u32" where
  \<comment> \<open>the case labels fall through: byte \<open>i\<close> is added for every length above \<open>i\<close>\<close>
  "tail_byte k len i shift = (if unat len > i then push_bit shift (ucast (k ! i)) else 0)"

definition hash_func :: "u8 list \<Rightarrow> u32 \<Rightarrow> u32 \<Rightarrow> u32 option" where
  "hash_func key len0 initval = do {
     (k, len, a, b, c) \<leftarrow> hash_loop key len0 (0x9e3779b9, 0x9e3779b9, initval);
     assertion (unat len \<le> length k);
     let c = c + len0 + tail_byte k len 10 24 + tail_byte k len 9 16 + tail_byte k len 8 8;
     let b = b + tail_byte k len 7 24 + tail_byte k len 6 16 + tail_byte k len 5 8 + tail_byte k len 4 0;
     let a = a + tail_byte k len 3 24 + tail_byte k len 2 16 + tail_byte k len 1 8 + tail_byte k len 0 0;
     let (_, _, r) = mix (a, b, c);
     Some r }"

definition unmix_a :: "nat \<Rightarrow> u32 \<times> u32 \<times> u32 \<Rightarrow> u32 \<times> u32 \<times> u32" where
  "unmix_a n = (\<lambda>(a, b, c). ((a XOR drop_bit n c) + c + b, b, c))"

definition unmix_b :: "nat \<Rightarrow> u32 \<times> u32 \<times> u32 \<Rightarrow> u32 \<times> u32 \<times> u32" where
  "unmix_b n = (\<lambda>(a, b, c). (a, (b XOR push_bit n a) + a + c, c))"

definition unmix_c :: "nat \<Rightarrow> u32 \<times> u32 \<times> u32 \<Rightarrow> u32 \<times> u32 \<times> u32" where
  "unmix_c n = (\<lambda>(a, b, c). (a, b, (c XOR drop_bit n b) + b + a))"

definition unmix :: "u32 \<times> u32 \<times> u32 \<Rightarrow> u32 \<times> u32 \<times> u32" where
  \<comment> \<open>the groups of \<open>mix\<close> undone in reverse order\<close>
  "unmix s = unmix_a 13 (unmix_b 8 (unmix_c 13 (unmix_a 12 (unmix_b 16 (unmix_c 5
     (unmix_a 3 (unmix_b 10 (unmix_c 15 s))))))))"

lemma unmix_groups:
  "unmix_a n (mix_a n s) = s" "unmix_b n (mix_b n s) = s" "unmix_c n (mix_c n s) = s"
  "mix_a n (unmix_a n s) = s" "mix_b n (unmix_b n s) = s" "mix_c n (unmix_c n s) = s"
  by (cases s; simp add: mix_a_def mix_b_def mix_c_def unmix_a_def unmix_b_def unmix_c_def xor.assoc)+

lemma unmix_mix: "unmix (mix s) = s"
  and mix_unmix: "mix (unmix s) = s"
  by (simp_all add: mix_def unmix_def unmix_groups)

lemma hash_loop_Some:
  "hash_loop k len s = Some (k', len', r) \<Longrightarrow> length k' + unat len = length k + unat len' \<and> unat len' < 12"
proof (induction k len s arbitrary: k' len' r rule: hash_loop.induct)
  case (1 k len a b c)
  show ?case
  proof (cases "len \<ge> 12")
    case True
    then have rest: "\<not> length k < 12"
      "hash_loop (drop 12 k) (len - 12) (mix (a + k4 k 0, b + k4 k 4, c + k4 k 8)) = Some (k', len', r)"
      using "1.prems" by (subst (asm) hash_loop.simps, simp split: if_splits)+
    have "unat (len - 12) = unat len - 12" "12 \<le> unat len" using True by (simp_all add: unat_diff_le word_le_nat_alt)
    then show ?thesis using "1.IH" [OF True rest] rest(1) by (simp, linarith)
  next
    case False
    then show ?thesis using "1.prems" by (subst (asm) hash_loop.simps) (simp add: word_le_nat_alt)
  qed
qed

lemma hash_loop_append:
  "unat len \<le> length k \<Longrightarrow> \<exists>k' len' r. hash_loop k len s = Some (k', len', r) \<and> hash_loop (k @ xs) len s = Some (k' @ xs, len', r)"
proof (induction k len s rule: hash_loop.induct)
  case (1 k len a b c)
  show ?case
  proof (cases "len \<ge> 12")
    case True
    then have n: "unat (len - 12) = unat len - 12" "12 \<le> unat len" by (simp_all add: unat_diff_le word_le_nat_alt)
    then have len: "\<not> length k < 12" "unat (len - 12) \<le> length (drop 12 k)" using "1.prems" by simp_all
    have "k4 (k @ xs) i = k4 k i" if "i < 9" for i using len(1) that by (simp add: k4_def nth_append)
    then show ?thesis using "1.IH" [OF True len] True len(1) by (subst (1 2) hash_loop.simps) simp
  next
    case False
    then show ?thesis by (subst (1 2) hash_loop.simps) simp
  qed
qed

lemma tail_byte_append: "unat len \<le> length k \<Longrightarrow> tail_byte (k @ xs) len i sh = tail_byte k len i sh"
  by (simp add: tail_byte_def nth_append)

subsection \<open>Properties\<close>

text \<open>
  C22. The hash table is a map. Created with any number of buckets up to \<open>2^31\<close> and with a comparison
  that is an equivalence and a hash function that respects it, the table answers every sequence of
  lookups, insertions and removals as a map does, never compares with a cleared key and
  never leaves its bucket array, although a lookup reorders the bucket.
\<close>

theorem hash_table_refines_map:
  assumes "0 < n" and "unat n \<le> 2 ^ 31" and "equivp cmp" and "\<forall>k k'. cmp k k' \<longrightarrow> hf k iv = hf k' iv"
  shows "\<exists>(h :: ('k, 'v) hash) h'. hash_init n iv hf cmp = Some h
    \<and> table_run hash_lookup hash_add hash_remove h ops = Some (map_run cmp (\<lambda>k. None) ops, h') \<and> hash_wf h'"
proof -
  obtain h :: "('k, 'v) hash" where h: "hash_init n iv hf cmp = Some h" "hash_wf h" "hs_compare_function h = cmp" "hash_view h = (\<lambda>k. None)"
    using hash_init_wf [of n cmp hf iv] assms by blast
  then show ?thesis using ht.run_refines_map [OF h(2), of ops] by auto
qed

theorem hash_table_refines_map_witness:
  "\<exists>h h'. hash_init 5 7 (\<lambda>k iv. of_nat (k mod 2) + iv) (\<lambda>j k. (j :: nat) mod 10 = k mod 10) = Some h
    \<and> table_run hash_lookup hash_add hash_remove h [Add 1 ''a'' False, Add 3 ''b'' False, Add 11 ''c'' False, Lookup 13, Remove 1, Lookup 1]
      = Some ([Done True, Done True, Done False, Found (Some ''b''), Done True, Found None], h') \<and> hash_wf h'"
proof -
  let ?ops = "[Add 1 ''a'' False, Add (3 :: nat) ''b'' False, Add 11 ''c'' False, Lookup 13, Remove 1, Lookup 1]"
  let ?cmp = "\<lambda>j k. (j :: nat) mod 10 = k mod 10" and ?hf = "\<lambda>k iv. of_nat (k mod 2) + iv :: u32"
  have "k mod 2 = k mod 10 mod 2" for k :: nat by (simp add: mod_mod_cancel)
  then have hf: "\<forall>k k'. ?cmp k k' \<longrightarrow> ?hf k 7 = ?hf k' 7" by (intro allI impI) metis
  have eq: "equivp ?cmp" by (intro equivpI reflpI sympI transpI) simp_all
  have "map_run ?cmp (\<lambda>k. None) ?ops = [Done True, Done True, Done False, Found (Some ''b''), Done True, Found None]" by simp
  moreover have "0 < (5 :: u32)" "unat (5 :: u32) \<le> 2 ^ 31" by simp_all
  ultimately show ?thesis using hash_table_refines_map [of 5 ?cmp ?hf 7 ?ops] eq hf by metis
qed

text \<open>
  C26. Removal by value. Going through the whole table with the iterator while marking, and removing
  what is marked when the iterator leaves a bucket, takes away exactly the entries with the
  value: the loop ends without a fault, every other key keeps its value and the element count is right.
\<close>

theorem hash_remove_by_value_exact:
  assumes "hash_wf h"
  shows "\<exists>h'. hash_remove_by_value h v = Some h' \<and> hash_wf h'
    \<and> hash_view h' = (\<lambda>k. if hash_view h k = Some v then None else hash_view h k)
    \<and> concat (hs_buckets h') = filter (\<lambda>he. he_value he \<noteq> v) (concat (hs_buckets h))"
proof -
  let ?h = "swept v (length (hs_buckets h)) h"
  have "hash_view ?h = (\<lambda>k. if hash_view h k = Some v then None else hash_view h k)"
    using swept_view [OF assms] by (intro ext) simp
  moreover have "concat (hs_buckets ?h) = filter (\<lambda>he. he_value he \<noteq> v) (concat (hs_buckets h))"
    by (simp add: swept_def swept_buckets_def filter_concat)
  ultimately show ?thesis using hash_remove_by_value_eq [OF assms] swept_wf [OF assms] by blast
qed

theorem hash_remove_by_value_exact_witness:
  "\<exists>h h'. hash_init 2 0 (\<lambda>k iv. of_nat k) (=) = Some (h :: (nat, nat) hash)
    \<and> hash_remove_by_value h 5 = Some h' \<and> hash_view h' = (\<lambda>k. None)"
proof -
  obtain h :: "(nat, nat) hash" where h: "hash_init 2 0 (\<lambda>k iv. of_nat k) (=) = Some h" "hash_wf h" "hash_view h = (\<lambda>k. None)"
    using hash_init_wf [of 2 "(=)" "\<lambda>k iv. of_nat k" 0] by (auto simp: identity_equivp)
  then show ?thesis using hash_remove_by_value_exact [OF h(2), of 5] by auto
qed

text \<open>
  The mixing step loses nothing: \<open>mix\<close> is a bijection on triples of 32-bit values, as the comment
  on it claims, with the inverse that undoes its nine lines from the last to the first.
\<close>

theorem hash_mix_reversible: "unmix (mix s) = s \<and> mix (unmix s) = s \<and> bij mix"
  using unmix_mix mix_unmix by (auto intro: o_bij [of unmix] simp: fun_eq_iff)

text \<open>
  The hash function reads exactly the bytes it is told to: it returns a value if and only if
  the key has at least \<open>n\<close> bytes, and the value does not depend on the bytes behind them.
\<close>

theorem hash_func_reads_exactly:
  "(hash_func key n iv \<noteq> None \<longleftrightarrow> unat n \<le> length key)
    \<and> (unat n \<le> length key \<longrightarrow> hash_func (key @ xs) n iv = hash_func key n iv)"
proof (cases "unat n \<le> length key")
  case True
  then obtain k' len' a b c where loop: "hash_loop key n (0x9e3779b9, 0x9e3779b9, iv) = Some (k', len', a, b, c)"
    "hash_loop (key @ xs) n (0x9e3779b9, 0x9e3779b9, iv) = Some (k' @ xs, len', a, b, c)"
    using hash_loop_append [of n key "(0x9e3779b9, 0x9e3779b9, iv)" xs] by auto
  then have "unat len' \<le> length k'" using hash_loop_Some [OF loop(1)] True by linarith
  then show ?thesis using loop True by (simp add: hash_func_def Let_def tail_byte_append split: prod.split)
next
  case False
  have "hash_func key n iv = None"
  proof (rule ccontr)
    assume "hash_func key n iv \<noteq> None"
    then obtain k' len' r where "hash_loop key n (0x9e3779b9, 0x9e3779b9, iv) = Some (k', len', r)" "unat len' \<le> length k'"
      by (auto simp: hash_func_def)
    then show False using hash_loop_Some [of key n "(0x9e3779b9, 0x9e3779b9, iv)" k' len' r] False by linarith
  qed
  with False show ?thesis by simp
qed

theorem hash_func_reads_exactly_witness:
  "hash_func [1, 2, 3] 3 0 \<noteq> None \<and> hash_func ([1, 2, 3] @ [4]) 3 0 = hash_func [1, 2, 3] 3 0"
  using hash_func_reads_exactly [of "[1, 2, 3]" 3 0 "[4]"] by simp

end
