(* ===== verification/Otime.thy ===== *)
theory Otime
  imports Integer_Ops
begin

text \<open>
  Time: \<^verbatim>\<open>otime.h\<close> and \<^verbatim>\<open>otime.c\<close>. The arithmetic and comparison of \<^verbatim>\<open>struct timeval\<close>, the filter that
  keeps the global clock from going back, and the limit on the frequency of events. The clock is a
  record of the three globals \<^verbatim>\<open>now\<close>, \<^verbatim>\<open>now_adj\<close> and \<^verbatim>\<open>now_usec\<close>; the system's time is an argument.
  A cast to \<^verbatim>\<open>int\<close> keeps the low 32 bits (\<open>c_int\<close>).
\<close>

unbundle bit_operations_syntax

record timeval =
  tv_sec :: int
  tv_usec :: int

definition c_int :: "int \<Rightarrow> int" where
  "c_int x = signed_take_bit 31 x"

definition tv_clear :: timeval where
  "tv_clear = \<lparr>tv_sec = 0, tv_usec = 0\<rparr>"

definition tv_defined :: "timeval \<Rightarrow> bool" where
  "tv_defined tv \<longleftrightarrow> tv_sec tv > 0 \<and> tv_usec tv > 0"

definition tv_subtract :: "timeval \<Rightarrow> timeval \<Rightarrow> int \<Rightarrow> int" where
  "tv_subtract tv1 tv2 max_seconds =
     (let max_usec = max_seconds * 1000000; sec_diff = tv_sec tv1 - tv_sec tv2
      in if sec_diff > max_seconds + 10 then max_usec
         else if sec_diff < - (max_seconds + 10) then - max_usec
         else let complete_diff = sec_diff * 1000000 + (tv_usec tv1 - tv_usec tv2)
              in constrain_int (c_int complete_diff) (- max_usec) max_usec)"

definition tv_add :: "timeval \<Rightarrow> timeval \<Rightarrow> timeval" where
  "tv_add dest src =
     (let sec = tv_sec dest + tv_sec src; usec = tv_usec dest + tv_usec src;
          sec = sec + drop_bit 20 usec; usec = usec AND 0x000FFFFF
      in if usec \<ge> 1000000 then \<lparr>tv_sec = sec + 1, tv_usec = usec - 1000000\<rparr>
         else \<lparr>tv_sec = sec, tv_usec = usec\<rparr>)"

definition tv_lt :: "timeval \<Rightarrow> timeval \<Rightarrow> bool" where
  "tv_lt t1 t2 = (if tv_sec t1 < tv_sec t2 then True else if tv_sec t1 > tv_sec t2 then False
     else tv_usec t1 < tv_usec t2)"

definition tv_le :: "timeval \<Rightarrow> timeval \<Rightarrow> bool" where
  "tv_le t1 t2 = (if tv_sec t1 < tv_sec t2 then True else if tv_sec t1 > tv_sec t2 then False
     else tv_usec t1 \<le> tv_usec t2)"

definition tv_ge :: "timeval \<Rightarrow> timeval \<Rightarrow> bool" where
  "tv_ge t1 t2 = (if tv_sec t1 > tv_sec t2 then True else if tv_sec t1 < tv_sec t2 then False
     else tv_usec t1 \<ge> tv_usec t2)"

definition tv_gt :: "timeval \<Rightarrow> timeval \<Rightarrow> bool" where
  "tv_gt t1 t2 = (if tv_sec t1 > tv_sec t2 then True else if tv_sec t1 < tv_sec t2 then False
     else tv_usec t1 > tv_usec t2)"

definition tv_eq :: "timeval \<Rightarrow> timeval \<Rightarrow> bool" where
  "tv_eq t1 t2 \<longleftrightarrow> tv_sec t1 = tv_sec t2 \<and> tv_usec t1 = tv_usec t2"

function borrow_loop :: "int \<Rightarrow> int \<Rightarrow> int \<times> int" where
  "borrow_loop sec usec = (if usec < 0 then borrow_loop (sec - 1) (usec + 1000000) else (sec, usec))"
  by pat_completeness auto
termination by (relation "measure (\<lambda>(sec, usec). nat (- usec))") auto

declare borrow_loop.simps [simp del]

definition tv_delta :: "timeval \<Rightarrow> timeval \<Rightarrow> timeval" where
  "tv_delta t1 t2 =
     (let (sec, usec) = borrow_loop (tv_sec t2 - tv_sec t1) (tv_usec t2 - tv_usec t1)
      in if sec < 0 then \<lparr>tv_sec = 0, tv_usec = 0\<rparr> else \<lparr>tv_sec = sec, tv_usec = usec\<rparr>)"

definition TV_WITHIN_SIGMA_MAX_SEC :: int where
  "TV_WITHIN_SIGMA_MAX_SEC = 600"

definition TV_WITHIN_SIGMA_MAX_USEC :: int where
  "TV_WITHIN_SIGMA_MAX_USEC = TV_WITHIN_SIGMA_MAX_SEC * 1000000"

definition tv_within_sigma :: "timeval \<Rightarrow> timeval \<Rightarrow> u32 \<Rightarrow> bool" where
  "tv_within_sigma t1 t2 sigma =
     (let delta = tv_subtract t1 t2 TV_WITHIN_SIGMA_MAX_SEC
      in - sint sigma \<le> delta \<and> delta \<le> sint sigma)"

definition interval_earliest_wakeup :: "int \<Rightarrow> time_t \<Rightarrow> time_t \<Rightarrow> int" where
  "interval_earliest_wakeup wakeup at current =
     (if at > current
      then let delta = c_int (at - current); wakeup = (if delta < wakeup then delta else wakeup)
           in if wakeup < 0 then 0 else wakeup
      else wakeup)"

subsection \<open>The clock\<close>

record clock =
  ck_now :: time_t
  ck_now_adj :: time_t
  ck_now_usec :: time_t

definition update_now :: "clock \<Rightarrow> time_t \<Rightarrow> clock" where
  "update_now c system_time =
     (let forward_threshold = 86400; backward_trigger = 10; real_time = system_time + ck_now_adj c
      in if real_time > ck_now c
         then let overshoot = real_time - ck_now c - 1
              in if overshoot > forward_threshold \<and> ck_now_adj c \<ge> overshoot
                 then c\<lparr>ck_now_adj := ck_now_adj c - overshoot, ck_now := real_time - overshoot\<rparr>
                 else c\<lparr>ck_now := real_time\<rparr>
         else if real_time < ck_now c - backward_trigger
         then c\<lparr>ck_now_adj := ck_now_adj c + (ck_now c - real_time)\<rparr>
         else c)"

definition update_now_usec :: "clock \<Rightarrow> timeval \<Rightarrow> clock" where
  "update_now_usec c tv =
     (let last = ck_now c; c' = update_now c (tv_sec tv)
      in if ck_now c' > last \<or> (ck_now c' = last \<and> tv_usec tv > ck_now_usec c') then c'\<lparr>ck_now_usec := tv_usec tv\<rparr> else c')"

definition openvpn_gettimeofday :: "clock \<Rightarrow> int \<Rightarrow> timeval \<Rightarrow> int \<times> timeval \<times> clock" where
  \<comment> \<open>the status and the time that \<open>gettimeofday\<close> gives are arguments\<close>
  "openvpn_gettimeofday c status tv =
     (if status = 0
      then let c' = update_now_usec c tv in (status, \<lparr>tv_sec = ck_now c', tv_usec = ck_now_usec c'\<rparr>, c')
      else (status, tv, c))"

definition update_time :: "clock \<Rightarrow> time_t \<Rightarrow> clock" where
  "update_time c t = (update_now c t)\<lparr>ck_now_usec := 0\<rparr>"

definition openvpn_time :: "clock \<Rightarrow> time_t \<Rightarrow> time_t \<times> clock" where
  "openvpn_time c t = (let c' = update_time c t in (ck_now c', c'))"

subsection \<open>Limiting the frequency of events\<close>

record frequency_limit =
  fl_max :: int
  fl_per :: int
  fl_n :: int
  fl_reset :: time_t

definition frequency_limit_init :: "int \<Rightarrow> int \<Rightarrow> frequency_limit option" where
  "frequency_limit_init mx per = do {
     assertion (mx \<ge> 0 \<and> per \<ge> 0);
     Some \<lparr>fl_max = mx, fl_per = per, fl_n = 0, fl_reset = 0\<rparr> }"

definition frequency_limit_event_allowed :: "time_t \<Rightarrow> frequency_limit \<Rightarrow> bool \<times> frequency_limit" where
  "frequency_limit_event_allowed now f =
     (if fl_per f \<noteq> 0
      then let f1 = (if now \<ge> fl_reset f + fl_per f then f\<lparr>fl_reset := now, fl_n := 0\<rparr> else f);
               f2 = f1\<lparr>fl_n := fl_n f1 + 1\<rparr>
           in (fl_n f2 \<le> fl_max f2, f2)
      else (True, f))"

subsection \<open>Time values as microseconds\<close>

definition tv_usecs :: "timeval \<Rightarrow> int" where
  "tv_usecs tv = tv_sec tv * 1000000 + tv_usec tv"

definition tv_norm :: "timeval \<Rightarrow> bool" where
  "tv_norm tv \<longleftrightarrow> 0 \<le> tv_usec tv \<and> tv_usec tv < 1000000"

lemma tv_order:
  assumes "tv_norm t1" and "tv_norm t2"
  shows "tv_lt t1 t2 \<longleftrightarrow> tv_usecs t1 < tv_usecs t2" and "tv_le t1 t2 \<longleftrightarrow> tv_usecs t1 \<le> tv_usecs t2"
    and "tv_gt t1 t2 \<longleftrightarrow> tv_usecs t1 > tv_usecs t2" and "tv_ge t1 t2 \<longleftrightarrow> tv_usecs t1 \<ge> tv_usecs t2"
    and "tv_eq t1 t2 \<longleftrightarrow> tv_usecs t1 = tv_usecs t2"
proof -
  have *: "0 \<le> tv_usec t1" "tv_usec t1 < 1000000" "0 \<le> tv_usec t2" "tv_usec t2 < 1000000"
    using assms by (simp_all add: tv_norm_def)
  then show "tv_lt t1 t2 \<longleftrightarrow> tv_usecs t1 < tv_usecs t2" "tv_le t1 t2 \<longleftrightarrow> tv_usecs t1 \<le> tv_usecs t2"
    "tv_gt t1 t2 \<longleftrightarrow> tv_usecs t1 > tv_usecs t2" "tv_ge t1 t2 \<longleftrightarrow> tv_usecs t1 \<ge> tv_usecs t2"
    by (auto simp: tv_lt_def tv_le_def tv_gt_def tv_ge_def tv_usecs_def)
  have "tv_sec t1 = tv_sec t2" if "tv_usecs t1 = tv_usecs t2" using * that unfolding tv_usecs_def by linarith
  then show "tv_eq t1 t2 \<longleftrightarrow> tv_usecs t1 = tv_usecs t2" by (auto simp: tv_eq_def tv_usecs_def)
qed

lemma c_int_id: "- (2 ^ 31) \<le> x \<Longrightarrow> x < 2 ^ 31 \<Longrightarrow> c_int x = x"
  by (simp add: c_int_def signed_take_bit_int_eq_self)

lemma tv_subtract_eq:
  assumes "tv_norm t1" and "tv_norm t2" and "0 \<le> m" and "m \<le> 2000"
  shows "tv_subtract t1 t2 m = max (- (m * 1000000)) (min (m * 1000000) (tv_usecs t1 - tv_usecs t2))"
proof -
  define d where "d = tv_sec t1 - tv_sec t2"
  define u where "u = tv_usec t1 - tv_usec t2"
  have diff: "tv_usecs t1 - tv_usecs t2 = d * 1000000 + u" by (simp add: tv_usecs_def d_def u_def algebra_simps)
  have u: "- 1000000 < u" "u < 1000000" using assms(1,2) by (auto simp: tv_norm_def u_def)
  have sub: "tv_subtract t1 t2 m = (if d > m + 10 then m * 1000000 else if d < - (m + 10) then - (m * 1000000)
      else constrain_int (c_int (d * 1000000 + u)) (- (m * 1000000)) (m * 1000000))"
    by (simp add: tv_subtract_def Let_def d_def u_def)
  consider "d > m + 10" | "d < - (m + 10)" | "\<bar>d\<bar> \<le> m + 10" by linarith
  then show ?thesis
  proof cases
    case 3
    then have "c_int (d * 1000000 + u) = d * 1000000 + u" using u assms(4) by (intro c_int_id) simp_all
    then show ?thesis using 3 assms(3) unfolding sub diff constrain_int_def by auto
  qed (use u assms(3) in \<open>simp_all add: sub diff\<close>)
qed

lemma tv_delta_eq:
  assumes "tv_norm t1" and "tv_norm t2"
  shows "tv_norm (tv_delta t1 t2) \<and> tv_usecs (tv_delta t1 t2) = max 0 (tv_usecs t2 - tv_usecs t1)"
proof -
  define d where "d = tv_sec t2 - tv_sec t1"
  define u where "u = tv_usec t2 - tv_usec t1"
  have diff: "tv_usecs t2 - tv_usecs t1 = d * 1000000 + u" by (simp add: tv_usecs_def d_def u_def algebra_simps)
  have u: "- 1000000 < u" "u < 1000000" using assms by (auto simp: tv_norm_def u_def)
  have loop: "borrow_loop d u = (if u < 0 then (d - 1, u + 1000000) else (d, u))"
    using u by (subst borrow_loop.simps, subst borrow_loop.simps) simp
  have "tv_delta t1 t2 = (let (sec, usec) = borrow_loop d u
      in if sec < 0 then \<lparr>tv_sec = 0, tv_usec = 0\<rparr> else \<lparr>tv_sec = sec, tv_usec = usec\<rparr>)"
    by (simp add: tv_delta_def d_def u_def)
  then show ?thesis unfolding diff loop using u by (auto simp: tv_norm_def tv_usecs_def)
qed

lemma usec_mask: "(x :: int) AND 0x000FFFFF = x mod 1048576"
  using take_bit_eq_mask [of 20 x] by (simp add: take_bit_eq_mod mask_eq_exp_minus_1)

lemma tv_add_eq:
  assumes "tv_norm t1" and "tv_norm t2"
  shows "tv_norm (tv_add t1 t2) \<and> tv_usecs (tv_add t1 t2) = tv_usecs t1 + tv_usecs t2
    - (if tv_usec t1 + tv_usec t2 < 1048576 then 0 else 48576)"
proof -
  define s where "s = tv_usec t1 + tv_usec t2"
  have s: "0 \<le> s" "s < 2000000" using assms by (auto simp: tv_norm_def s_def)
  have add: "tv_add t1 t2 = (let sec = tv_sec t1 + tv_sec t2 + s div 1048576; usec = s mod 1048576
      in if usec \<ge> 1000000 then \<lparr>tv_sec = sec + 1, tv_usec = usec - 1000000\<rparr> else \<lparr>tv_sec = sec, tv_usec = usec\<rparr>)"
    by (simp add: tv_add_def Let_def s_def usec_mask drop_bit_eq_div)
  have sum: "tv_usecs t1 + tv_usecs t2 = (tv_sec t1 + tv_sec t2) * 1000000 + s"
    by (simp add: tv_usecs_def s_def algebra_simps)
  show ?thesis
  proof (cases "s < 1048576")
    case True
    then have "s div 1048576 = 0" "s mod 1048576 = s" using s by simp_all
    then show ?thesis using s True by (simp add: add sum Let_def s_def [symmetric]) (simp add: tv_norm_def tv_usecs_def)
  next
    case False
    then have "s div 1048576 = 1" "s mod 1048576 = s - 1048576" using s int_div_pos_eq [of s 1048576 1 "s - 1048576"] int_mod_pos_eq [of s 1048576 1 "s - 1048576"] by simp_all
    then show ?thesis using s False by (simp add: add sum Let_def s_def [symmetric]) (simp add: tv_norm_def tv_usecs_def)
  qed
qed

subsection \<open>The clock\<close>

lemma update_now_mono: "ck_now c \<le> ck_now (update_now c t)"
  by (simp add: update_now_def Let_def)

lemma update_now_usec_keep [simp]: "ck_now_usec (update_now c t) = ck_now_usec c"
  by (simp add: update_now_def Let_def)

definition clock_before :: "clock \<Rightarrow> clock \<Rightarrow> bool" where
  "clock_before c c' \<longleftrightarrow> ck_now c < ck_now c' \<or> (ck_now c = ck_now c' \<and> ck_now_usec c \<le> ck_now_usec c')"

lemma clock_before_trans: "clock_before a b \<Longrightarrow> clock_before b c \<Longrightarrow> clock_before a c"
  by (auto simp: clock_before_def)

lemma update_now_usec_mono: "clock_before c (update_now_usec c tv)"
  using update_now_mono [of c "tv_sec tv"] by (auto simp: clock_before_def update_now_usec_def Let_def)

subsection \<open>Frequency limit\<close>

fun limit_run :: "frequency_limit \<Rightarrow> time_t list \<Rightarrow> bool list" where
  "limit_run f [] = []"
| "limit_run f (t # ts) = (let (ok, f') = frequency_limit_event_allowed t f in ok # limit_run f' ts)"

definition allowed :: "bool list \<Rightarrow> nat" where
  "allowed bs = length (filter id bs)"

lemma allowed_simps [simp]: "allowed [] = 0" "allowed (b # bs) = (if b then Suc (allowed bs) else allowed bs)"
  by (simp_all add: allowed_def)

lemma limit_no_reset:
  "fl_per f \<noteq> 0 \<Longrightarrow> \<forall>t \<in> set ts. t < fl_reset f + fl_per f \<Longrightarrow> allowed (limit_run f ts) \<le> nat (fl_max f - fl_n f)"
proof (induction ts arbitrary: f)
  case Nil
  then show ?case by simp
next
  case (Cons t ts)
  let ?f = "f\<lparr>fl_n := fl_n f + 1\<rparr>"
  have step: "frequency_limit_event_allowed t f = (fl_n f + 1 \<le> fl_max f, ?f)"
    using Cons.prems by (simp add: frequency_limit_event_allowed_def)
  have "allowed (limit_run ?f ts) \<le> nat (fl_max f - (fl_n f + 1))" using Cons.IH [of ?f] Cons.prems by simp
  then show ?case by (cases "fl_n f + 1 \<le> fl_max f"; simp add: step; linarith)
qed

lemma limit_one_reset:
  "0 < fl_per f \<Longrightarrow> 0 \<le> fl_max f \<Longrightarrow> \<forall>t \<in> set ts. t0 \<le> t \<and> t < t0 + fl_per f \<Longrightarrow>
    allowed (limit_run f ts) \<le> nat (fl_max f - fl_n f) + nat (fl_max f)"
proof (induction ts arbitrary: f)
  case Nil
  then show ?case by simp
next
  case (Cons t ts)
  show ?case
  proof (cases "t \<ge> fl_reset f + fl_per f")
    case True
    let ?f = "f\<lparr>fl_reset := t, fl_n := 1\<rparr>"
    have step: "frequency_limit_event_allowed t f = (1 \<le> fl_max f, ?f)"
      using Cons.prems True by (simp add: frequency_limit_event_allowed_def)
    have "\<forall>t' \<in> set ts. t' < fl_reset ?f + fl_per ?f" using Cons.prems by force
    then have "allowed (limit_run ?f ts) \<le> nat (fl_max f - 1)" using limit_no_reset [of ?f ts] Cons.prems(1) by simp
    then show ?thesis using Cons.prems(2) by (cases "1 \<le> fl_max f"; simp add: step; linarith)
  next
    case False
    let ?f = "f\<lparr>fl_n := fl_n f + 1\<rparr>"
    have step: "frequency_limit_event_allowed t f = (fl_n f + 1 \<le> fl_max f, ?f)"
      using Cons.prems(1) False by (simp add: frequency_limit_event_allowed_def)
    have "allowed (limit_run ?f ts) \<le> nat (fl_max f - (fl_n f + 1)) + nat (fl_max f)" using Cons.IH [of ?f] Cons.prems by simp
    then show ?thesis by (cases "fl_n f + 1 \<le> fl_max f"; simp add: step; linarith)
  qed
qed

lemma limit_run_split:
  "0 \<le> fl_n f \<Longrightarrow> \<exists>f'. limit_run f (pre @ ts) = limit_run f pre @ limit_run f' ts \<and> length (limit_run f pre) = length pre
    \<and> 0 \<le> fl_n f' \<and> fl_max f' = fl_max f \<and> fl_per f' = fl_per f"
proof (induction pre arbitrary: f)
  case Nil
  then show ?case by (intro exI [of _ f]) simp
next
  case (Cons t pre)
  obtain ok f1 where step: "frequency_limit_event_allowed t f = (ok, f1)" by fastforce
  then have "0 \<le> fl_n f1" "fl_max f1 = fl_max f" "fl_per f1 = fl_per f"
    using Cons.prems by (auto simp: frequency_limit_event_allowed_def Let_def split: if_splits)
  then show ?case using Cons.IH [of f1] step by auto
qed

subsection \<open>Properties\<close>

text \<open>
  Where \<open>tv_add\<close> is not addition. It carries into the seconds at \<open>2^20\<close> microseconds
  instead of \<open>10^6\<close>: the result is normal, and it is the sum exactly when the microseconds add up to less than
  1048576; otherwise it is 48576 microseconds short.
\<close>

theorem tv_add_short:
  assumes "tv_norm t1" and "tv_norm t2"
  shows "tv_norm (tv_add t1 t2) \<and> tv_usecs (tv_add t1 t2) = tv_usecs t1 + tv_usecs t2
    - (if tv_usec t1 + tv_usec t2 < 1048576 then 0 else 48576)"
  using assms by (rule tv_add_eq)

theorem tv_add_short_witness:
  "tv_usecs (tv_add \<lparr>tv_sec = 0, tv_usec = 900000\<rparr> \<lparr>tv_sec = 0, tv_usec = 900000\<rparr>) = 1751424"
  using tv_add_short [of "\<lparr>tv_sec = 0, tv_usec = 900000\<rparr>" "\<lparr>tv_sec = 0, tv_usec = 900000\<rparr>"]
  by (simp add: tv_norm_def tv_usecs_def)

text \<open>
  C27. Time differences. On normal times the comparisons are those of the microsecond counts;
  \<open>tv_delta\<close> is the difference cut off at zero; \<open>tv_subtract\<close>, with a bound up to 2000 seconds, is the
  difference clamped to the bound, without overflow of its 32-bit intermediate results; and
  \<open>tv_within_sigma\<close> tells, for a sigma below ten minutes, whether the distance is at most sigma.
\<close>

theorem timeval_arithmetic:
  assumes "tv_norm t1" and "tv_norm t2" and "0 \<le> m" and "m \<le> 2000" and "unat sigma < 600000000"
  shows "(tv_lt t1 t2 \<longleftrightarrow> tv_usecs t1 < tv_usecs t2) \<and> (tv_eq t1 t2 \<longleftrightarrow> tv_usecs t1 = tv_usecs t2)
    \<and> tv_usecs (tv_delta t1 t2) = max 0 (tv_usecs t2 - tv_usecs t1)
    \<and> tv_subtract t1 t2 m = max (- (m * 1000000)) (min (m * 1000000) (tv_usecs t1 - tv_usecs t2))
    \<and> (tv_within_sigma t1 t2 sigma \<longleftrightarrow> \<bar>tv_usecs t1 - tv_usecs t2\<bar> \<le> int (unat sigma))"
proof -
  have sigma: "sint sigma = int (unat sigma)"
  proof -
    have "unat sigma < 2 ^ (LENGTH(32) - 1)" using assms(5) by simp
    then show ?thesis using sint_of_nat_small [of "unat sigma", where ?'a = 32] by simp
  qed
  have "int (unat sigma) < 600000000" using assms(5) by linarith
  then have "tv_within_sigma t1 t2 sigma \<longleftrightarrow> \<bar>tv_usecs t1 - tv_usecs t2\<bar> \<le> int (unat sigma)"
    unfolding tv_within_sigma_def sigma Let_def TV_WITHIN_SIGMA_MAX_SEC_def
    using tv_subtract_eq [OF assms(1,2), of 600] by linarith
  then show ?thesis using tv_order [OF assms(1,2)] tv_delta_eq [OF assms(1,2)] tv_subtract_eq [OF assms(1-4)] by blast
qed

theorem timeval_arithmetic_witness:
  "tv_subtract \<lparr>tv_sec = 9, tv_usec = 5\<rparr> \<lparr>tv_sec = 7, tv_usec = 999999\<rparr> 1 = 1000000
    \<and> tv_within_sigma \<lparr>tv_sec = 9, tv_usec = 5\<rparr> \<lparr>tv_sec = 8, tv_usec = 999999\<rparr> 6"
  using timeval_arithmetic [of "\<lparr>tv_sec = 9, tv_usec = 5\<rparr>" "\<lparr>tv_sec = 7, tv_usec = 999999\<rparr>" 1 6]
    timeval_arithmetic [of "\<lparr>tv_sec = 9, tv_usec = 5\<rparr>" "\<lparr>tv_sec = 8, tv_usec = 999999\<rparr>" 1 6]
  by (simp add: tv_norm_def tv_usecs_def)

text \<open>
  C28. The clock never goes back. Whatever the system's clock does, over any sequence of updates the
  pair of \<open>now\<close> and \<open>now_usec\<close> kept by the program does not decrease.
\<close>

theorem clock_never_back: "clock_before c (foldl update_now_usec c tvs)"
proof (induction tvs arbitrary: c)
  case Nil
  then show ?case by (simp add: clock_before_def)
next
  case (Cons tv tvs)
  have "clock_before (update_now_usec c tv) (foldl update_now_usec (update_now_usec c tv) tvs)" by (rule Cons.IH)
  then show ?case using clock_before_trans [OF update_now_usec_mono] by simp
qed



end
