(* ===== verification/Event_Queue.thy ===== *)
theory Event_Queue
  imports Otime
begin

text \<open>
  The contract of a queue of timed events: the queue maps events to times; an event is added or
  moved, removed, and the queue names an event with the earliest time. From the contract
  follows that taking the earliest event again and again delivers all events in the order of their times.
\<close>

fun serve :: "('s \<Rightarrow> (('a \<times> timeval) option \<times> 's) option) \<Rightarrow> ('s \<Rightarrow> 'a \<Rightarrow> 's option) \<Rightarrow> nat \<Rightarrow> 's \<Rightarrow> (('a \<times> timeval) list \<times> 's) option" where
  "serve earliest remove 0 s = Some ([], s)"
| "serve earliest remove (Suc n) s = do {
     (r, s1) \<leftarrow> earliest s;
     (case r of
        None \<Rightarrow> Some ([], s1)
      | Some (a, tv) \<Rightarrow> do {
          s2 \<leftarrow> remove s1 a;
          (rest, s3) \<leftarrow> serve earliest remove n s2;
          Some ((a, tv) # rest, s3) }) }"

locale event_queue =
  fixes inv :: "'s \<Rightarrow> bool"
    and view :: "'s \<Rightarrow> 'a \<Rightarrow> timeval option"
    and known :: "'s \<Rightarrow> 'a \<Rightarrow> bool"
    and ready :: "'s \<Rightarrow> 'a \<Rightarrow> timeval \<Rightarrow> bool"
    and add :: "'s \<Rightarrow> 'a \<Rightarrow> timeval \<Rightarrow> 's option"
    and remove :: "'s \<Rightarrow> 'a \<Rightarrow> 's option"
    and earliest :: "'s \<Rightarrow> (('a \<times> timeval) option \<times> 's) option"
  assumes finite_view: "inv s \<Longrightarrow> finite (dom (view s))"
    and view_known: "inv s \<Longrightarrow> view s a \<noteq> None \<Longrightarrow> known s a"
    and add_law: "inv s \<Longrightarrow> known s a \<Longrightarrow> ready s a tv \<Longrightarrow> \<exists>s'. add s a tv = Some s' \<and> inv s' \<and> view s' = (view s)(a \<mapsto> tv)"
    and remove_law: "inv s \<Longrightarrow> known s a \<Longrightarrow> \<exists>s'. remove s a = Some s' \<and> inv s' \<and> view s' = (view s)(a := None)"
    and earliest_law: "inv s \<Longrightarrow> \<exists>r s'. earliest s = Some (r, s') \<and> inv s' \<and> view s' = view s
      \<and> (case r of None \<Rightarrow> dom (view s) = {}
         | Some (a, tv) \<Rightarrow> view s a = Some tv \<and> (\<forall>b tv'. view s b = Some tv' \<longrightarrow> tv_le tv tv'))"
begin

lemma serve_sorted:
  "inv s \<Longrightarrow> card (dom (view s)) < n \<Longrightarrow> \<exists>es s'. serve earliest remove n s = Some (es, s')
    \<and> inv s' \<and> view s' = Map.empty \<and> view s = map_of es \<and> distinct (map fst es) \<and> sorted_wrt (\<lambda>x y. tv_le (snd x) (snd y)) es"
proof (induction n arbitrary: s)
  case 0
  then show ?case by simp
next
  case (Suc n)
  obtain r s1 where s1: "earliest s = Some (r, s1)" "inv s1" "view s1 = view s"
    "case r of None \<Rightarrow> dom (view s) = {}
     | Some (a, tv) \<Rightarrow> view s a = Some tv \<and> (\<forall>b tv'. view s b = Some tv' \<longrightarrow> tv_le tv tv')"
    using earliest_law [OF Suc.prems(1)] by blast
  show ?case
  proof (cases r)
    case None
    then have "view s = Map.empty" using s1(4) by simp
    then show ?thesis using s1 None by (intro exI [of _ "[]"] exI [of _ s1]) simp
  next
    case (Some e)
    obtain a tv where e: "e = (a, tv)" by (cases e)
    then have a: "view s a = Some tv" "\<forall>b tv'. view s b = Some tv' \<longrightarrow> tv_le tv tv'" using s1(4) Some by simp_all
    obtain s2 where s2: "remove s1 a = Some s2" "inv s2" "view s2 = (view s)(a := None)"
      using remove_law [OF s1(2), of a] view_known [OF s1(2), of a] s1(3) a(1) by auto
    have dom2: "dom (view s2) = dom (view s) - {a}" using s2(3) by simp
    then have "card (dom (view s2)) < card (dom (view s))"
      using a(1) finite_view [OF Suc.prems(1)] by (intro psubset_card_mono) auto
    then have "card (dom (view s2)) < n" using Suc.prems(2) by simp
    then obtain es s' where es: "serve earliest remove n s2 = Some (es, s')" "inv s'" "view s' = Map.empty" "view s2 = map_of es"
      "distinct (map fst es)" "sorted_wrt (\<lambda>x y. tv_le (snd x) (snd y)) es"
      using Suc.IH [OF s2(2)] by blast
    have fresh: "a \<notin> fst ` set es" using es(4) dom2 dom_map_of_conv_image_fst [of es] by auto
    have "view s = map_of ((a, tv) # es)" using s2(3) es(4) a(1) by (auto simp: fun_eq_iff split: if_splits)
    moreover have "tv_le tv (snd x)" if "x \<in> set es" for x
    proof -
      obtain b tv' where x: "x = (b, tv')" by (cases x)
      then have "view s2 b = Some tv'" using that es(4,5) by simp
      then show ?thesis using a(2) s2(3) x by (auto split: if_splits)
    qed
    ultimately show ?thesis using s1(1) Some e s2(1) es fresh
      by (intro exI [of _ "(a, tv) # es"] exI [of _ s']) simp
  qed
qed

end

end
