(* ===== verification/Schedule.thy ===== *)
theory Schedule
  imports Event_Queue "HOL-Library.Tree"
begin

text \<open>
  The scheduler of \<^verbatim>\<open>schedule.h\<close> and \<^verbatim>\<open>schedule.c\<close>, a treap of entries ordered by wakeup time, linked by
  pointers to the parent and the two children. Entries live in a heap, a map from
  addresses to entries; every access through a pointer that does not point to an entry is a fault
  (\<open>None\<close>). The values that \<^verbatim>\<open>random()\<close> gives are an argument, the list of the values to come.
  The debug code under \<^verbatim>\<open>SCHEDULE_TEST\<close> is not compiled and not modelled.
\<close>

record schedule_entry =
  se_tv :: timeval
  se_pri :: u32
  se_parent :: "nat option"
  se_lt :: "nat option"
  se_gt :: "nat option"

record schedule =
  sc_earliest_wakeup :: "nat option"
  sc_root :: "nat option"

type_synonym sheap = "nat \<Rightarrow> schedule_entry option"

definition hmod :: "sheap \<Rightarrow> nat \<Rightarrow> (schedule_entry \<Rightarrow> schedule_entry) \<Rightarrow> sheap option" where
  \<comment> \<open>an assignment to fields of the entry at an address\<close>
  "hmod h a f = map_option (\<lambda>e. h(a \<mapsto> f e)) (h a)"

definition hmod_opt :: "sheap \<Rightarrow> nat option \<Rightarrow> (schedule_entry \<Rightarrow> schedule_entry) \<Rightarrow> sheap option" where
  "hmod_opt h p f = (case p of None \<Rightarrow> Some h | Some a \<Rightarrow> hmod h a f)"

definition rand_pri :: "u32 \<Rightarrow> u32" where
  "rand_pri r = (if r < 1 then 1 else r)"

definition schedule_set_pri :: "sheap \<Rightarrow> u32 list \<Rightarrow> nat \<Rightarrow> (sheap \<times> u32 list) option" where
  "schedule_set_pri h rs e =
     (case rs of
        [] \<Rightarrow> None
      | r # rs' \<Rightarrow> map_option (\<lambda>h'. (h', rs')) (hmod h e (\<lambda>x. x\<lparr>se_pri := rand_pri r\<rparr>)))"

definition schedule_entry_compare :: "schedule_entry \<Rightarrow> schedule_entry \<Rightarrow> int" where
  "schedule_entry_compare e1 e2 =
     (if tv_sec (se_tv e1) < tv_sec (se_tv e2) then - 1
      else if tv_sec (se_tv e1) > tv_sec (se_tv e2) then 1
      else if tv_usec (se_tv e1) < tv_usec (se_tv e2) then - 1
      else if tv_usec (se_tv e1) > tv_usec (se_tv e2) then 1
      else if se_pri e1 < se_pri e2 then - 1
      else if se_pri e1 > se_pri e2 then 1
      else 0)"

definition schedule_detach_parent :: "sheap \<Rightarrow> schedule \<Rightarrow> nat option \<Rightarrow> (sheap \<times> schedule) option" where
  "schedule_detach_parent h s ptr =
     (case ptr of
        None \<Rightarrow> Some (h, s)
      | Some e \<Rightarrow> do {
          x \<leftarrow> h e;
          (case se_parent x of
             Some p \<Rightarrow> do {
               y \<leftarrow> h p;
               h1 \<leftarrow> (if se_lt y = Some e then hmod h p (\<lambda>y. y\<lparr>se_lt := None\<rparr>)
                      else if se_gt y = Some e then hmod h p (\<lambda>y. y\<lparr>se_gt := None\<rparr>)
                      else None);
               h2 \<leftarrow> hmod h1 e (\<lambda>x. x\<lparr>se_parent := None\<rparr>);
               Some (h2, s) }
           | None \<Rightarrow> Some (h, if sc_root s = Some e then s\<lparr>sc_root := None\<rparr> else s)) })"

definition schedule_rotate_up :: "sheap \<Rightarrow> schedule \<Rightarrow> nat option \<Rightarrow> (sheap \<times> schedule) option" where
  "schedule_rotate_up h s ptr =
     (case ptr of
        None \<Rightarrow> Some (h, s)
      | Some e \<Rightarrow> do {
          x \<leftarrow> h e;
          (case se_parent x of
             None \<Rightarrow> Some (h, s)
           | Some p \<Rightarrow> do {
               y \<leftarrow> h p;
               let lt = se_lt x;
               let gt = se_gt x;
               let gp = se_parent y;
               (h1, s1) \<leftarrow>
                 (case gp of
                    Some g \<Rightarrow> do {
                      z \<leftarrow> h g;
                      h' \<leftarrow> (if se_gt z = Some p then hmod h g (\<lambda>z. z\<lparr>se_gt := Some e\<rparr>)
                             else if se_lt z = Some p then hmod h g (\<lambda>z. z\<lparr>se_lt := Some e\<rparr>)
                             else None);
                      Some (h', s) }
                  | None \<Rightarrow> Some (h, s\<lparr>sc_root := Some e\<rparr>));
               h2 \<leftarrow> hmod h1 e (\<lambda>x. x\<lparr>se_parent := gp\<rparr>);
               h3 \<leftarrow> hmod h2 p (\<lambda>y. y\<lparr>se_parent := Some e\<rparr>);
               y3 \<leftarrow> h3 p;
               h6 \<leftarrow>
                 (if se_gt y3 = Some e
                  then do {
                    h4 \<leftarrow> hmod h3 e (\<lambda>x. x\<lparr>se_lt := Some p\<rparr>);
                    h5 \<leftarrow> hmod h4 p (\<lambda>y. y\<lparr>se_gt := lt\<rparr>);
                    hmod_opt h5 lt (\<lambda>z. z\<lparr>se_parent := Some p\<rparr>) }
                  else if se_lt y3 = Some e
                  then do {
                    h4 \<leftarrow> hmod h3 e (\<lambda>x. x\<lparr>se_gt := Some p\<rparr>);
                    h5 \<leftarrow> hmod h4 p (\<lambda>y. y\<lparr>se_lt := gt\<rparr>);
                    hmod_opt h5 gt (\<lambda>z. z\<lparr>se_parent := Some p\<rparr>) }
                  else None);
               Some (h6, s1) }) })"

partial_function (option) remove_node_loop :: "sheap \<Rightarrow> schedule \<Rightarrow> nat \<Rightarrow> (sheap \<times> schedule) option" where
  "remove_node_loop h s e = do {
     x \<leftarrow> h e;
     (case (se_lt x, se_gt x) of
        (None, None) \<Rightarrow> Some (h, s)
      | (Some l, Some g) \<Rightarrow> do {
          y \<leftarrow> h l;
          z \<leftarrow> h g;
          (h', s') \<leftarrow> schedule_rotate_up h s (if se_pri y < se_pri z then Some l else Some g);
          remove_node_loop h' s' e }
      | (Some l, None) \<Rightarrow> do { (h', s') \<leftarrow> schedule_rotate_up h s (Some l); remove_node_loop h' s' e }
      | (None, Some g) \<Rightarrow> do { (h', s') \<leftarrow> schedule_rotate_up h s (Some g); remove_node_loop h' s' e }) }"

definition schedule_remove_node :: "sheap \<Rightarrow> schedule \<Rightarrow> nat \<Rightarrow> (sheap \<times> schedule) option" where
  "schedule_remove_node h s e = do {
     (h1, s1) \<leftarrow> remove_node_loop h s e;
     (h2, s2) \<leftarrow> schedule_detach_parent h1 s1 (Some e);
     h3 \<leftarrow> hmod h2 e (\<lambda>x. x\<lparr>se_pri := 0\<rparr>);
     Some (h3, s2) }"

partial_function (option) schedule_insert ::
  "sheap \<Rightarrow> schedule \<Rightarrow> u32 list \<Rightarrow> nat \<Rightarrow> nat option \<Rightarrow> (sheap \<times> u32 list) option" where
  \<comment> \<open>the loop, with the current node \<open>c\<close>; it starts at the root\<close>
  "schedule_insert h s rs e c = do {
     a \<leftarrow> c;
     x \<leftarrow> h e;
     y \<leftarrow> h a;
     (if schedule_entry_compare x y = - 1
      then (case se_lt y of
              Some b \<Rightarrow> schedule_insert h s rs e (Some b)
            | None \<Rightarrow> do {
                h1 \<leftarrow> hmod h a (\<lambda>y. y\<lparr>se_lt := Some e\<rparr>);
                h2 \<leftarrow> hmod h1 e (\<lambda>x. x\<lparr>se_parent := Some a\<rparr>);
                Some (h2, rs) })
      else if schedule_entry_compare x y = 1
      then (case se_gt y of
              Some b \<Rightarrow> schedule_insert h s rs e (Some b)
            | None \<Rightarrow> do {
                h1 \<leftarrow> hmod h a (\<lambda>y. y\<lparr>se_gt := Some e\<rparr>);
                h2 \<leftarrow> hmod h1 e (\<lambda>x. x\<lparr>se_parent := Some a\<rparr>);
                Some (h2, rs) })
      else do {
        (h1, rs1) \<leftarrow> schedule_set_pri h rs e;
        schedule_insert h1 s rs1 e (sc_root s) }) }"

partial_function (option) rotate_loop :: "sheap \<Rightarrow> schedule \<Rightarrow> nat \<Rightarrow> (sheap \<times> schedule) option" where
  "rotate_loop h s e = do {
     x \<leftarrow> h e;
     (case se_parent x of
        None \<Rightarrow> Some (h, s)
      | Some p \<Rightarrow> do {
          y \<leftarrow> h p;
          if se_pri y > se_pri x
          then do { (h', s') \<leftarrow> schedule_rotate_up h s (Some e); rotate_loop h' s' e }
          else Some (h, s) }) }"

definition IN_TREE :: "schedule_entry \<Rightarrow> bool" where
  "IN_TREE e \<longleftrightarrow> se_pri e \<noteq> 0"

definition schedule_add_modify ::
  "sheap \<Rightarrow> schedule \<Rightarrow> u32 list \<Rightarrow> nat \<Rightarrow> (sheap \<times> schedule \<times> u32 list) option" where
  "schedule_add_modify h s rs e = do {
     x \<leftarrow> h e;
     (h1, s1) \<leftarrow> (if IN_TREE x then schedule_remove_node h s e else Some (h, s));
     (h2, rs2) \<leftarrow> schedule_set_pri h1 rs e;
     (h3, s3, rs3) \<leftarrow>
       (if sc_root s1 \<noteq> None
        then do { (h', rs') \<leftarrow> schedule_insert h2 s1 rs2 e (sc_root s1); Some (h', s1, rs') }
        else Some (h2, s1\<lparr>sc_root := Some e\<rparr>, rs2));
     (h4, s4) \<leftarrow> rotate_loop h3 s3 e;
     Some (h4, s4, rs3) }"

partial_function (option) find_least_loop :: "sheap \<Rightarrow> nat \<Rightarrow> nat option" where
  "find_least_loop h e = do {
     x \<leftarrow> h e;
     (case se_lt x of Some l \<Rightarrow> find_least_loop h l | None \<Rightarrow> Some e) }"

definition schedule_find_least :: "sheap \<Rightarrow> nat option \<Rightarrow> nat option option" where
  "schedule_find_least h e = (case e of None \<Rightarrow> Some None | Some a \<Rightarrow> map_option Some (find_least_loop h a))"

definition schedule_init :: schedule where
  "schedule_init = \<lparr>sc_earliest_wakeup = None, sc_root = None\<rparr>"

definition schedule_remove_entry :: "sheap \<Rightarrow> schedule \<Rightarrow> nat \<Rightarrow> (sheap \<times> schedule) option" where
  "schedule_remove_entry h s e = schedule_remove_node h (s\<lparr>sc_earliest_wakeup := None\<rparr>) e"

definition schedule_add_entry ::
  "sheap \<Rightarrow> schedule \<Rightarrow> u32 list \<Rightarrow> nat \<Rightarrow> timeval \<Rightarrow> u32 \<Rightarrow> (sheap \<times> schedule \<times> u32 list) option" where
  "schedule_add_entry h s rs e tv sigma = do {
     x \<leftarrow> h e;
     if \<not> IN_TREE x \<or> sigma = 0 \<or> \<not> tv_within_sigma tv (se_tv x) sigma
     then do {
       h1 \<leftarrow> hmod h e (\<lambda>x. x\<lparr>se_tv := tv\<rparr>);
       (h2, s2, rs2) \<leftarrow> schedule_add_modify h1 s rs e;
       Some (h2, s2\<lparr>sc_earliest_wakeup := None\<rparr>, rs2) }
     else Some (h, s, rs) }"

definition schedule_get_earliest_wakeup ::
  "sheap \<Rightarrow> schedule \<Rightarrow> timeval \<Rightarrow> (nat option \<times> timeval \<times> schedule) option" where
  "schedule_get_earliest_wakeup h s wakeup = do {
     s1 \<leftarrow> (if sc_earliest_wakeup s = None
            then map_option (\<lambda>r. s\<lparr>sc_earliest_wakeup := r\<rparr>) (schedule_find_least h (sc_root s))
            else Some s);
     (case sc_earliest_wakeup s1 of
        None \<Rightarrow> Some (None, wakeup, s1)
      | Some a \<Rightarrow> do { x \<leftarrow> h a; Some (Some a, se_tv x, s1) }) }"

end
