(* ===== verification/Schedule_Tree.thy ===== *)
theory Schedule_Tree
  imports Schedule
begin

text \<open>
  The entries of a schedule as a binary tree in the heap: the shape predicates, the two rotations of
  \<^verbatim>\<open>schedule_rotate_up\<close>, and the removal of a node, which joins its subtrees by priority.
\<close>

subsection \<open>Trees in the heap\<close>

text \<open>
  The heap holds a binary tree of addresses below a pointer. A place in a tree is described by the
  frames on the way up to the root: \<open>LF a r\<close> for the left child of \<open>a\<close>, whose right subtree is
  \<open>r\<close>, and \<open>RF l a\<close> for the right child.
\<close>

fun tree_at :: "sheap \<Rightarrow> nat option \<Rightarrow> nat option \<Rightarrow> nat tree \<Rightarrow> bool" where
  "tree_at h par ptr Leaf \<longleftrightarrow> ptr = None"
| "tree_at h par ptr (Node l a r) \<longleftrightarrow> ptr = Some a \<and>
     (\<exists>x. h a = Some x \<and> se_parent x = par \<and> tree_at h (Some a) (se_lt x) l \<and> tree_at h (Some a) (se_gt x) r)"

datatype frame = LF nat "nat tree" | RF "nat tree" nat

fun plug :: "nat tree \<Rightarrow> frame list \<Rightarrow> nat tree" where
  "plug t [] = t"
| "plug t (LF a r # c) = plug (Node t a r) c"
| "plug t (RF l a # c) = plug (Node l a t) c"

fun ctx_at :: "sheap \<Rightarrow> nat option \<Rightarrow> nat option \<Rightarrow> nat option \<Rightarrow> frame list \<Rightarrow> bool" where
  "ctx_at h root par hole [] \<longleftrightarrow> par = None \<and> root = hole"
| "ctx_at h root par hole (LF a r # c) \<longleftrightarrow> par = Some a \<and>
     (\<exists>x. h a = Some x \<and> se_lt x = hole \<and> tree_at h (Some a) (se_gt x) r \<and> ctx_at h root (se_parent x) (Some a) c)"
| "ctx_at h root par hole (RF l a # c) \<longleftrightarrow> par = Some a \<and>
     (\<exists>x. h a = Some x \<and> se_gt x = hole \<and> tree_at h (Some a) (se_lt x) l \<and> ctx_at h root (se_parent x) (Some a) c)"

fun lefts :: "frame list \<Rightarrow> nat list" where
  "lefts [] = []"
| "lefts (LF a r # c) = lefts c"
| "lefts (RF l a # c) = lefts c @ inorder l @ [a]"

fun rights :: "frame list \<Rightarrow> nat list" where
  "rights [] = []"
| "rights (LF a r # c) = a # inorder r @ rights c"
| "rights (RF l a # c) = rights c"

definition ctx_nodes :: "frame list \<Rightarrow> nat set" where
  "ctx_nodes c = set (lefts c) \<union> set (rights c)"

definition same_keys :: "sheap \<Rightarrow> sheap \<Rightarrow> bool" where
  "same_keys h h' \<longleftrightarrow> (\<forall>a. map_option (\<lambda>x. (se_tv x, se_pri x)) (h' a) = map_option (\<lambda>x. (se_tv x, se_pri x)) (h a))"

lemma ctx_nodes_simps [simp]:
  "ctx_nodes [] = {}" "ctx_nodes (LF a r # c) = insert a (set_tree r \<union> ctx_nodes c)"
  "ctx_nodes (RF l a # c) = insert a (set_tree l \<union> ctx_nodes c)"
  by (auto simp: ctx_nodes_def)

lemma inorder_plug: "inorder (plug t c) = lefts c @ inorder t @ rights c"
  by (induction t c rule: plug.induct) simp_all

lemma set_tree_plug: "set_tree (plug t c) = set_tree t \<union> ctx_nodes c"
  by (induction t c rule: plug.induct) auto

lemma tree_at_cong: "\<forall>a \<in> set_tree t. h' a = h a \<Longrightarrow> tree_at h' par ptr t = tree_at h par ptr t"
  by (induction t arbitrary: par ptr) simp_all

lemma ctx_at_cong: "\<forall>a \<in> ctx_nodes c. h' a = h a \<Longrightarrow> ctx_at h' root par hole c = ctx_at h root par hole c"
proof (induction c arbitrary: par hole)
  case (Cons f c)
  show ?case
  proof (cases f)
    case (LF a r)
    then show ?thesis using Cons tree_at_cong [of r h' h] by simp
  next
    case (RF l a)
    then show ?thesis using Cons tree_at_cong [of l h' h] by simp
  qed
qed simp

lemma tree_at_upd [simp]: "a \<notin> set_tree t \<Longrightarrow> tree_at (h(a := v)) par ptr t = tree_at h par ptr t"
  by (rule tree_at_cong) auto

lemma ctx_at_upd [simp]: "a \<notin> ctx_nodes c \<Longrightarrow> ctx_at (h(a := v)) root par hole c = ctx_at h root par hole c"
  by (rule ctx_at_cong) auto

lemma tree_at_plug:
  "tree_at h None root (plug t c) \<longleftrightarrow> (\<exists>par hole. ctx_at h root par hole c \<and> tree_at h par hole t)"
proof (induction t c rule: plug.induct)
  case (1 t)
  then show ?case by simp
next
  case (2 t a r c)
  then show ?case by auto
next
  case (3 t l a c)
  then show ?case by auto
qed

lemma tree_at_ptr: "tree_at h par ptr t \<Longrightarrow> ptr = Some a \<Longrightarrow> a \<in> set_tree t"
  by (cases t) auto

lemma tree_at_alloc: "tree_at h par ptr t \<Longrightarrow> a \<in> set_tree t \<Longrightarrow> \<exists>x. h a = Some x"
  by (induction t arbitrary: par ptr) auto

lemma tree_at_None: "tree_at h par None t \<longleftrightarrow> t = Leaf"
  by (cases t) auto

lemma same_keys_refl [simp]: "same_keys h h"
  by (simp add: same_keys_def)

lemma same_keys_trans: "same_keys h1 h2 \<Longrightarrow> same_keys h2 h3 \<Longrightarrow> same_keys h1 h3"
  by (simp add: same_keys_def)

lemma same_keys_upd: "h a = Some x \<Longrightarrow> se_tv x' = se_tv x \<Longrightarrow> se_pri x' = se_pri x \<Longrightarrow> same_keys h (h(a \<mapsto> x'))"
  by (simp add: same_keys_def)

lemma hmod_Some: "h a = Some x \<Longrightarrow> hmod h a f = Some (h(a \<mapsto> f x))"
  by (simp add: hmod_def)

subsection \<open>Rotation\<close>

lemma reparent:
  assumes "tree_at h par ptr t" and "distinct (inorder t)"
  shows "\<exists>h'. hmod_opt h ptr (\<lambda>z. z\<lparr>se_parent := par'\<rparr>) = Some h' \<and> tree_at h' par' ptr t
    \<and> (\<forall>a. a \<notin> set_tree t \<longrightarrow> h' a = h a) \<and> same_keys h h'"
proof (cases t)
  case Leaf
  then show ?thesis using assms by (simp add: hmod_opt_def)
next
  case (Node l a r)
  then obtain x where x: "ptr = Some a" "h a = Some x" "tree_at h (Some a) (se_lt x) l" "tree_at h (Some a) (se_gt x) r"
    using assms(1) by auto
  let ?h = "h(a \<mapsto> x\<lparr>se_parent := par'\<rparr>)"
  have "tree_at ?h (Some a) (se_lt x) l" "tree_at ?h (Some a) (se_gt x) r"
    using x(3,4) assms(2) Node by simp_all
  then show ?thesis using x Node by (intro exI [of _ ?h]) (simp add: hmod_opt_def hmod_Some same_keys_upd)
qed

definition relink :: "sheap \<Rightarrow> schedule \<Rightarrow> nat option \<Rightarrow> nat \<Rightarrow> nat \<Rightarrow> (sheap \<times> schedule) option" where
  \<comment> \<open>the first part of \<open>schedule_rotate_up\<close>: \<open>e\<close> takes the place of \<open>p\<close> below the grandparent\<close>
  "relink h s gp p e =
     (case gp of
        Some g \<Rightarrow> do {
          z \<leftarrow> h g;
          h' \<leftarrow> (if se_gt z = Some p then hmod h g (\<lambda>z. z\<lparr>se_gt := Some e\<rparr>)
                 else if se_lt z = Some p then hmod h g (\<lambda>z. z\<lparr>se_lt := Some e\<rparr>)
                 else None);
          Some (h', s) }
      | None \<Rightarrow> Some (h, s\<lparr>sc_root := Some e\<rparr>))"

lemma relink_ok:
  assumes "ctx_at h (sc_root s) gp (Some p) c" and "distinct (lefts c @ rights c)" and "p \<notin> ctx_nodes c"
  shows "\<exists>h1 s1. relink h s gp p e = Some (h1, s1) \<and> ctx_at h1 (sc_root s1) gp (Some e) c
    \<and> (\<forall>a. a \<notin> ctx_nodes c \<longrightarrow> h1 a = h a) \<and> same_keys h h1 \<and> sc_earliest_wakeup s1 = sc_earliest_wakeup s"
proof (cases c)
  case Nil
  then show ?thesis using assms(1) by (simp add: relink_def)
next
  case (Cons f c')
  show ?thesis
  proof (cases f)
    case (LF g r)
    then obtain z where z: "gp = Some g" "h g = Some z" "se_lt z = Some p" "tree_at h (Some g) (se_gt z) r"
      "ctx_at h (sc_root s) (se_parent z) (Some g) c'"
      using assms(1) Cons by auto
    have "se_gt z \<noteq> Some p" using tree_at_ptr [OF z(4), of p] assms(3) Cons LF by auto
    moreover have "g \<notin> set_tree r" "g \<notin> ctx_nodes c'" using assms(2) Cons LF by (auto simp: ctx_nodes_def)
    ultimately show ?thesis using z Cons LF
      by (intro exI [of _ "h(g \<mapsto> z\<lparr>se_lt := Some e\<rparr>)"] exI [of _ s])
        (simp add: relink_def hmod_Some same_keys_upd)
  next
    case (RF l g)
    then obtain z where z: "gp = Some g" "h g = Some z" "se_gt z = Some p" "tree_at h (Some g) (se_lt z) l"
      "ctx_at h (sc_root s) (se_parent z) (Some g) c'"
      using assms(1) Cons by auto
    have "g \<notin> set_tree l" "g \<notin> ctx_nodes c'" using assms(2) Cons RF by (auto simp: ctx_nodes_def)
    then show ?thesis using z Cons RF
      by (intro exI [of _ "h(g \<mapsto> z\<lparr>se_gt := Some e\<rparr>)"] exI [of _ s])
        (simp add: relink_def hmod_Some same_keys_upd)
  qed
qed

text \<open>
  Both rotations: the child \<open>e\<close> of \<open>p\<close> takes its place, \<open>p\<close> becomes a child of \<open>e\<close>, and the inner
  subtree changes sides. Everything outside the tree and all times and priorities stay.
\<close>

lemma rotate_up_left:
  assumes "tree_at h None (sc_root s) (plug (Node (Node l e r) p b) c)"
    and "distinct (inorder (plug (Node (Node l e r) p b) c))"
  shows "\<exists>h' s'. schedule_rotate_up h s (Some e) = Some (h', s')
    \<and> tree_at h' None (sc_root s') (plug (Node l e (Node r p b)) c) \<and> same_keys h h'
    \<and> (\<forall>a. a \<notin> set_tree (plug (Node (Node l e r) p b) c) \<longrightarrow> h' a = h a)
    \<and> sc_earliest_wakeup s' = sc_earliest_wakeup s"
proof -
  obtain gp hole where ctx: "ctx_at h (sc_root s) gp hole c" and "tree_at h gp hole (Node (Node l e r) p b)"
    using assms(1) tree_at_plug by blast
  then obtain x y where hole: "hole = Some p" and y: "h p = Some y" "se_parent y = gp" "se_lt y = Some e"
    and x: "h e = Some x" "se_parent x = Some p"
    and l: "tree_at h (Some e) (se_lt x) l" and r: "tree_at h (Some e) (se_gt x) r" and b: "tree_at h (Some p) (se_gt y) b"
    by auto
  have d: "distinct (lefts c @ rights c)" "p \<notin> ctx_nodes c" "e \<notin> ctx_nodes c" "e \<noteq> p"
    "set_tree r \<inter> ctx_nodes c = {}" "set_tree l \<inter> ctx_nodes c = {}" "set_tree b \<inter> ctx_nodes c = {}"
    "e \<notin> set_tree l" "e \<notin> set_tree r" "e \<notin> set_tree b" "p \<notin> set_tree l" "p \<notin> set_tree r" "p \<notin> set_tree b"
    "set_tree l \<inter> set_tree r = {}" "set_tree b \<inter> set_tree r = {}" "distinct (inorder r)"
    using assms(2) by (auto simp: inorder_plug ctx_nodes_def)
  obtain h1 s1 where h1: "relink h s gp p e = Some (h1, s1)" "ctx_at h1 (sc_root s1) gp (Some e) c"
    "\<forall>a. a \<notin> ctx_nodes c \<longrightarrow> h1 a = h a" "same_keys h h1" "sc_earliest_wakeup s1 = sc_earliest_wakeup s"
    using relink_ok [of h s gp p c e] ctx d(1,2) hole by auto
  define x' where "x' = x\<lparr>se_parent := gp, se_gt := Some p\<rparr>"
  define y' where "y' = y\<lparr>se_parent := Some e, se_lt := se_gt x\<rparr>"
  define h5 where "h5 = h1(e \<mapsto> x', p \<mapsto> y')"
  have agree: "h1 a = h a" if "a \<notin> ctx_nodes c" for a using h1(3) that by blast
  have sub: "tree_at h1 (Some e) (se_lt x) l" "tree_at h1 (Some e) (se_gt x) r" "tree_at h1 (Some p) (se_gt y) b"
    using l r b tree_at_cong [of l h1 h] tree_at_cong [of r h1 h] tree_at_cong [of b h1 h] agree d(5-7) by blast+
  have h5: "tree_at h5 (Some e) (se_lt x) l" "tree_at h5 (Some e) (se_gt x) r" "tree_at h5 (Some p) (se_gt y) b"
    "ctx_at h5 (sc_root s1) gp (Some e) c" "h5 e = Some x'" "h5 p = Some y'"
    using sub h1(2) d by (simp_all add: h5_def)
  have "same_keys h1 (h1(e \<mapsto> x'))" "same_keys (h1(e \<mapsto> x')) h5"
    unfolding h5_def using agree d x(1) y(1) by (auto intro!: same_keys_upd simp: x'_def y'_def)
  then have keys5: "same_keys h1 h5" by (rule same_keys_trans)
  obtain h6 where h6: "hmod_opt h5 (se_gt x) (\<lambda>z. z\<lparr>se_parent := Some p\<rparr>) = Some h6" "tree_at h6 (Some p) (se_gt x) r"
    "\<forall>a. a \<notin> set_tree r \<longrightarrow> h6 a = h5 a" "same_keys h5 h6"
    using reparent [OF h5(2) d(16)] by blast
  have "se_gt y \<noteq> Some e" using tree_at_ptr [OF b, of e] d(10) by auto
  then have run: "schedule_rotate_up h s (Some e) = Some (h6, s1)"
    using x y h1(1) h6(1) agree d unfolding relink_def h5_def x'_def y'_def
    by (simp add: schedule_rotate_up_def Let_def hmod_Some fun_upd_twist del: bind_Some_iff)
  have "tree_at h6 (Some e) (se_lt x) l" "tree_at h6 (Some p) (se_gt y) b" "ctx_at h6 (sc_root s1) gp (Some e) c"
    using h5(1,3,4) tree_at_cong [of l h6 h5] tree_at_cong [of b h6 h5] ctx_at_cong [of c h6 h5] h6(3) d(5,14,15) by blast+
  moreover have "h6 e = Some x'" "h6 p = Some y'" using h6(3) h5(5,6) d by simp_all
  ultimately have "tree_at h6 gp (Some e) (Node l e (Node r p b))"
    using h6(2) by (simp add: x'_def y'_def)
  then have "tree_at h6 None (sc_root s1) (plug (Node l e (Node r p b)) c)"
    using \<open>ctx_at h6 (sc_root s1) gp (Some e) c\<close> tree_at_plug by blast
  moreover have "same_keys h h6" using h1(4) keys5 h6(4) same_keys_trans by blast
  moreover have "\<forall>a. a \<notin> set_tree (plug (Node (Node l e r) p b) c) \<longrightarrow> h6 a = h a"
    using h6(3) agree by (simp add: set_tree_plug h5_def)
  ultimately show ?thesis using run h1(5) by blast
qed

lemma rotate_up_right:
  assumes "tree_at h None (sc_root s) (plug (Node b p (Node l e r)) c)"
    and "distinct (inorder (plug (Node b p (Node l e r)) c))"
  shows "\<exists>h' s'. schedule_rotate_up h s (Some e) = Some (h', s')
    \<and> tree_at h' None (sc_root s') (plug (Node (Node b p l) e r) c) \<and> same_keys h h'
    \<and> (\<forall>a. a \<notin> set_tree (plug (Node b p (Node l e r)) c) \<longrightarrow> h' a = h a)
    \<and> sc_earliest_wakeup s' = sc_earliest_wakeup s"
proof -
  obtain gp hole where ctx: "ctx_at h (sc_root s) gp hole c" and "tree_at h gp hole (Node b p (Node l e r))"
    using assms(1) tree_at_plug by blast
  then obtain x y where hole: "hole = Some p" and y: "h p = Some y" "se_parent y = gp" "se_gt y = Some e"
    and x: "h e = Some x" "se_parent x = Some p"
    and l: "tree_at h (Some e) (se_lt x) l" and r: "tree_at h (Some e) (se_gt x) r" and b: "tree_at h (Some p) (se_lt y) b"
    by auto
  have d: "distinct (lefts c @ rights c)" "p \<notin> ctx_nodes c" "e \<notin> ctx_nodes c" "e \<noteq> p"
    "set_tree l \<inter> ctx_nodes c = {}" "set_tree r \<inter> ctx_nodes c = {}" "set_tree b \<inter> ctx_nodes c = {}"
    "e \<notin> set_tree l" "e \<notin> set_tree r" "e \<notin> set_tree b" "p \<notin> set_tree l" "p \<notin> set_tree r" "p \<notin> set_tree b"
    "set_tree r \<inter> set_tree l = {}" "set_tree b \<inter> set_tree l = {}" "distinct (inorder l)"
    using assms(2) by (auto simp: inorder_plug ctx_nodes_def)
  obtain h1 s1 where h1: "relink h s gp p e = Some (h1, s1)" "ctx_at h1 (sc_root s1) gp (Some e) c"
    "\<forall>a. a \<notin> ctx_nodes c \<longrightarrow> h1 a = h a" "same_keys h h1" "sc_earliest_wakeup s1 = sc_earliest_wakeup s"
    using relink_ok [of h s gp p c e] ctx d(1,2) hole by auto
  define x' where "x' = x\<lparr>se_parent := gp, se_lt := Some p\<rparr>"
  define y' where "y' = y\<lparr>se_parent := Some e, se_gt := se_lt x\<rparr>"
  define h5 where "h5 = h1(e \<mapsto> x', p \<mapsto> y')"
  have agree: "h1 a = h a" if "a \<notin> ctx_nodes c" for a using h1(3) that by blast
  have sub: "tree_at h1 (Some e) (se_lt x) l" "tree_at h1 (Some e) (se_gt x) r" "tree_at h1 (Some p) (se_lt y) b"
    using l r b tree_at_cong [of l h1 h] tree_at_cong [of r h1 h] tree_at_cong [of b h1 h] agree d(5-7) by blast+
  have h5: "tree_at h5 (Some e) (se_lt x) l" "tree_at h5 (Some e) (se_gt x) r" "tree_at h5 (Some p) (se_lt y) b"
    "ctx_at h5 (sc_root s1) gp (Some e) c" "h5 e = Some x'" "h5 p = Some y'"
    using sub h1(2) d by (simp_all add: h5_def)
  have "same_keys h1 (h1(e \<mapsto> x'))" "same_keys (h1(e \<mapsto> x')) h5"
    unfolding h5_def using agree d x(1) y(1) by (auto intro!: same_keys_upd simp: x'_def y'_def)
  then have keys5: "same_keys h1 h5" by (rule same_keys_trans)
  obtain h6 where h6: "hmod_opt h5 (se_lt x) (\<lambda>z. z\<lparr>se_parent := Some p\<rparr>) = Some h6" "tree_at h6 (Some p) (se_lt x) l"
    "\<forall>a. a \<notin> set_tree l \<longrightarrow> h6 a = h5 a" "same_keys h5 h6"
    using reparent [OF h5(1) d(16)] by blast
  have run: "schedule_rotate_up h s (Some e) = Some (h6, s1)"
    using x y h1(1) h6(1) agree d unfolding relink_def h5_def x'_def y'_def
    by (simp add: schedule_rotate_up_def Let_def hmod_Some fun_upd_twist del: bind_Some_iff)
  have "tree_at h6 (Some e) (se_gt x) r" "tree_at h6 (Some p) (se_lt y) b" "ctx_at h6 (sc_root s1) gp (Some e) c"
    using h5(2,3,4) tree_at_cong [of r h6 h5] tree_at_cong [of b h6 h5] ctx_at_cong [of c h6 h5] h6(3) d(5,14,15) by blast+
  moreover have "h6 e = Some x'" "h6 p = Some y'" using h6(3) h5(5,6) d by simp_all
  ultimately have "tree_at h6 gp (Some e) (Node (Node b p l) e r)"
    using h6(2) by (simp add: x'_def y'_def)
  then have "tree_at h6 None (sc_root s1) (plug (Node (Node b p l) e r) c)"
    using \<open>ctx_at h6 (sc_root s1) gp (Some e) c\<close> tree_at_plug by blast
  moreover have "same_keys h h6" using h1(4) keys5 h6(4) same_keys_trans by blast
  moreover have "\<forall>a. a \<notin> set_tree (plug (Node b p (Node l e r)) c) \<longrightarrow> h6 a = h a"
    using h6(3) agree by (simp add: set_tree_plug h5_def)
  ultimately show ?thesis using run h1(5) by blast
qed

subsection \<open>Removal\<close>

text \<open>
  What the removal loop computes: with the node gone, its two subtrees are joined by their
  priorities \<open>P\<close>.
\<close>

fun join :: "(nat \<Rightarrow> u32) \<Rightarrow> nat tree \<Rightarrow> nat tree \<Rightarrow> nat tree" where
  "join P Leaf r = r"
| "join P l Leaf = l"
| "join P (Node ll x lr) (Node rl y rr) =
     (if P x < P y then Node ll x (join P lr (Node rl y rr)) else Node (join P (Node ll x lr) rl) y rr)"

definition pri_of :: "sheap \<Rightarrow> nat \<Rightarrow> u32" where
  "pri_of h a = (case h a of Some x \<Rightarrow> se_pri x | None \<Rightarrow> 0)"

lemma pri_of_Some [simp]: "h a = Some x \<Longrightarrow> pri_of h a = se_pri x"
  by (simp add: pri_of_def)

lemma same_keys_pri: "same_keys h h' \<Longrightarrow> pri_of h' = pri_of h"
proof
  fix a
  assume "same_keys h h'"
  then have "map_option (\<lambda>x. (se_tv x, se_pri x)) (h' a) = map_option (\<lambda>x. (se_tv x, se_pri x)) (h a)"
    by (simp add: same_keys_def)
  then show "pri_of h' a = pri_of h a" by (cases "h a"; cases "h' a") (simp_all add: pri_of_def)
qed

lemma inorder_join: "inorder (join P l r) = inorder l @ inorder r"
  by (induction P l r rule: join.induct) simp_all

lemma tree_plug_node:
  assumes "tree_at h None root (plug (Node l e r) c)"
  shows "\<exists>x par. h e = Some x \<and> se_parent x = par \<and> ctx_at h root par (Some e) c
    \<and> tree_at h (Some e) (se_lt x) l \<and> tree_at h (Some e) (se_gt x) r"
  using assms by (auto simp: tree_at_plug)

definition leafed :: "sheap \<Rightarrow> schedule \<Rightarrow> nat \<Rightarrow> nat tree \<Rightarrow> nat tree \<Rightarrow> bool" where
  \<comment> \<open>the loop turns the tree \<open>t\<close> into one where \<open>e\<close> is a leaf whose removal gives \<open>t'\<close>\<close>
  "leafed h s e t t' \<longleftrightarrow> (\<exists>h' s' c. remove_node_loop h s e = Some (h', s')
     \<and> tree_at h' None (sc_root s') (plug (Node Leaf e Leaf) c) \<and> plug Leaf c = t'
     \<and> inorder (plug (Node Leaf e Leaf) c) = inorder t \<and> same_keys h h'
     \<and> (\<forall>a. a \<notin> set_tree t \<longrightarrow> h' a = h a) \<and> sc_earliest_wakeup s' = sc_earliest_wakeup s)"

lemma leafed_step:
  assumes "leafed h1 s1 e t1 t'" and "remove_node_loop h s e = remove_node_loop h1 s1 e" and "inorder t1 = inorder t"
    and "same_keys h h1" and "\<forall>a. a \<notin> set_tree t \<longrightarrow> h1 a = h a" and "sc_earliest_wakeup s1 = sc_earliest_wakeup s"
  shows "leafed h s e t t'"
proof -
  obtain h' s' c where h': "remove_node_loop h1 s1 e = Some (h', s')"
    "tree_at h' None (sc_root s') (plug (Node Leaf e Leaf) c)" "plug Leaf c = t'"
    "inorder (plug (Node Leaf e Leaf) c) = inorder t1" "same_keys h1 h'"
    "\<forall>a. a \<notin> set_tree t1 \<longrightarrow> h' a = h1 a" "sc_earliest_wakeup s' = sc_earliest_wakeup s1"
    using assms(1) by (auto simp: leafed_def)
  have "set_tree t1 = set_tree t" using assms(3) by (metis set_inorder)
  then show ?thesis unfolding leafed_def using h' assms(2-6) same_keys_trans [OF assms(4) h'(5)]
    by (intro exI [of _ h'] exI [of _ s'] exI [of _ c]) simp
qed

text \<open>One round of the loop, with the left or the right child rotated up.\<close>

lemma leafed_left:
  assumes "tree_at h None (sc_root s) (plug (Node (Node ll a lr) e r) c)" and "distinct (inorder (plug (Node (Node ll a lr) e r) c))"
    and "\<And>h' s'. schedule_rotate_up h s (Some a) = Some (h', s') \<Longrightarrow> remove_node_loop h s e = remove_node_loop h' s' e"
    and "\<And>h1 s1. tree_at h1 None (sc_root s1) (plug (Node lr e r) (RF ll a # c)) \<Longrightarrow>
      distinct (inorder (plug (Node lr e r) (RF ll a # c))) \<Longrightarrow> pri_of h1 = pri_of h \<Longrightarrow>
      leafed h1 s1 e (plug (Node lr e r) (RF ll a # c)) t'"
  shows "leafed h s e (plug (Node (Node ll a lr) e r) c) t'"
proof -
  obtain h1 s1 where h1: "schedule_rotate_up h s (Some a) = Some (h1, s1)"
    "tree_at h1 None (sc_root s1) (plug (Node ll a (Node lr e r)) c)" "same_keys h h1"
    "\<forall>b. b \<notin> set_tree (plug (Node (Node ll a lr) e r) c) \<longrightarrow> h1 b = h b" "sc_earliest_wakeup s1 = sc_earliest_wakeup s"
    using rotate_up_left [OF assms(1,2)] by blast
  have "inorder (plug (Node lr e r) (RF ll a # c)) = inorder (plug (Node (Node ll a lr) e r) c)" by (simp add: inorder_plug)
  then show ?thesis using h1 assms(2)
    by (intro leafed_step [OF assms(4) [of h1 s1] assms(3) [OF h1(1)]]) (simp_all add: same_keys_pri)
qed

lemma leafed_right:
  assumes "tree_at h None (sc_root s) (plug (Node l e (Node rl a rr)) c)" and "distinct (inorder (plug (Node l e (Node rl a rr)) c))"
    and "\<And>h' s'. schedule_rotate_up h s (Some a) = Some (h', s') \<Longrightarrow> remove_node_loop h s e = remove_node_loop h' s' e"
    and "\<And>h1 s1. tree_at h1 None (sc_root s1) (plug (Node l e rl) (LF a rr # c)) \<Longrightarrow>
      distinct (inorder (plug (Node l e rl) (LF a rr # c))) \<Longrightarrow> pri_of h1 = pri_of h \<Longrightarrow>
      leafed h1 s1 e (plug (Node l e rl) (LF a rr # c)) t'"
  shows "leafed h s e (plug (Node l e (Node rl a rr)) c) t'"
proof -
  obtain h1 s1 where h1: "schedule_rotate_up h s (Some a) = Some (h1, s1)"
    "tree_at h1 None (sc_root s1) (plug (Node (Node l e rl) a rr) c)" "same_keys h h1"
    "\<forall>b. b \<notin> set_tree (plug (Node l e (Node rl a rr)) c) \<longrightarrow> h1 b = h b" "sc_earliest_wakeup s1 = sc_earliest_wakeup s"
    using rotate_up_right [OF assms(1,2)] by blast
  have "inorder (plug (Node l e rl) (LF a rr # c)) = inorder (plug (Node l e (Node rl a rr)) c)" by (simp add: inorder_plug)
  then show ?thesis using h1 assms(2)
    by (intro leafed_step [OF assms(4) [of h1 s1] assms(3) [OF h1(1)]]) (simp_all add: same_keys_pri)
qed

lemma remove_node_loop_ok:
  assumes "tree_at h None (sc_root s) (plug (Node l e r) c)" and "distinct (inorder (plug (Node l e r) c))"
  shows "leafed h s e (plug (Node l e r) c) (plug (join (pri_of h) l r) c)"
  using assms
proof (induction "size l + size r" arbitrary: l r c h s rule: less_induct)
  case less
  obtain x where x: "h e = Some x" "tree_at h (Some e) (se_lt x) l" "tree_at h (Some e) (se_gt x) r"
    using tree_plug_node [OF less.prems(1)] by blast
  note IH = less.hyps
  show ?case
  proof (cases l)
    case Leaf
    show ?thesis
    proof (cases r)
      case Leaf
      then have "remove_node_loop h s e = Some (h, s)" using x \<open>l = Leaf\<close> by (subst remove_node_loop.simps) simp
      then show ?thesis using less.prems Leaf \<open>l = Leaf\<close> unfolding leafed_def
        by (intro exI [of _ h] exI [of _ s] exI [of _ c]) simp
    next
      case (Node rl a rr)
      have "remove_node_loop h s e = remove_node_loop h' s' e" if "schedule_rotate_up h s (Some a) = Some (h', s')" for h' s'
        using x that \<open>l = Leaf\<close> Node by (subst remove_node_loop.simps) simp
      then show ?thesis using less.prems \<open>l = Leaf\<close> IH [of Leaf rl _ _ "LF a rr # c"] unfolding Node
        by (intro leafed_right) simp_all
    qed
  next
    case l: (Node ll a lr)
    obtain y where y: "h a = Some y" using x(2) l by auto
    show ?thesis
    proof (cases r)
      case Leaf
      have "remove_node_loop h s e = remove_node_loop h' s' e" if "schedule_rotate_up h s (Some a) = Some (h', s')" for h' s'
        using x that l Leaf by (subst remove_node_loop.simps) simp
      moreover have "join P lr Leaf = lr" for P by (cases lr) simp_all
      ultimately show ?thesis using less.prems Leaf IH [of lr Leaf _ _ "RF ll a # c"] unfolding l
        by (intro leafed_left) simp_all
    next
      case r: (Node rl b rr)
      obtain z where z: "h b = Some z" using x(3) r by auto
      have step: "remove_node_loop h s e = remove_node_loop h' s' e"
        if "schedule_rotate_up h s (if se_pri y < se_pri z then Some a else Some b) = Some (h', s')" for h' s'
        using x that l r y z by (subst remove_node_loop.simps) simp
      show ?thesis
      proof (cases "se_pri y < se_pri z")
        case True
        have "leafed h1 s1 e (plug (Node lr e r) (RF ll a # c)) (plug (join (pri_of h) lr r) (RF ll a # c))"
          if "tree_at h1 None (sc_root s1) (plug (Node lr e r) (RF ll a # c))"
            "distinct (inorder (plug (Node lr e r) (RF ll a # c)))" "pri_of h1 = pri_of h" for h1 s1
          using IH [OF _ that(1,2)] that(3) l by simp
        then show ?thesis using less.prems y z r step True unfolding l by (intro leafed_left) simp_all
      next
        case False
        have "leafed h1 s1 e (plug (Node l e rl) (LF b rr # c)) (plug (join (pri_of h) l rl) (LF b rr # c))"
          if "tree_at h1 None (sc_root s1) (plug (Node l e rl) (LF b rr # c))"
            "distinct (inorder (plug (Node l e rl) (LF b rr # c)))" "pri_of h1 = pri_of h" for h1 s1
          using IH [OF _ that(1,2)] that(3) r by simp
        then show ?thesis using less.prems y z l step False unfolding r by (intro leafed_right) simp_all
      qed
    qed
  qed
qed

lemma detach_parent_ok:
  assumes "tree_at h None (sc_root s) (plug (Node Leaf e Leaf) c)" and "distinct (inorder (plug (Node Leaf e Leaf) c))"
    and "h e = Some x"
  shows "\<exists>h' s'. schedule_detach_parent h s (Some e) = Some (h', s') \<and> tree_at h' None (sc_root s') (plug Leaf c)
    \<and> h' e = Some (x\<lparr>se_parent := None, se_lt := None, se_gt := None\<rparr>) \<and> same_keys h h'
    \<and> (\<forall>a. a \<notin> set_tree (plug (Node Leaf e Leaf) c) \<longrightarrow> h' a = h a) \<and> sc_earliest_wakeup s' = sc_earliest_wakeup s"
proof -
  have x: "ctx_at h (sc_root s) (se_parent x) (Some e) c" "se_lt x = None" "se_gt x = None"
    using tree_plug_node [OF assms(1)] assms(3) by auto
  then have x': "x\<lparr>se_parent := None, se_lt := None, se_gt := None\<rparr> = x\<lparr>se_parent := None\<rparr>" by (cases x) simp
  have e: "e \<notin> ctx_nodes c" using assms(2) by (auto simp: inorder_plug ctx_nodes_def)
  show ?thesis
  proof (cases c)
    case Nil
    have "x\<lparr>se_parent := None, se_lt := None, se_gt := None\<rparr> = x" using x Nil by (cases x) simp
    then show ?thesis using x(1) Nil assms(3)
      by (intro exI [of _ h] exI [of _ "s\<lparr>sc_root := None\<rparr>"]) (simp add: schedule_detach_parent_def)
  next
    case (Cons f c')
    show ?thesis
    proof (cases f)
      case (LF g r)
      then obtain y where y: "se_parent x = Some g" "h g = Some y" "se_lt y = Some e" "tree_at h (Some g) (se_gt y) r"
        "ctx_at h (sc_root s) (se_parent y) (Some g) c'"
        using x(1) Cons by auto
      have d: "g \<notin> set_tree r" "g \<notin> ctx_nodes c'" "e \<noteq> g" "e \<notin> set_tree r" "e \<notin> ctx_nodes c'"
        using assms(2) e Cons LF by (auto simp: inorder_plug ctx_nodes_def)
      let ?h1 = "h(g \<mapsto> y\<lparr>se_lt := None\<rparr>)" and ?x = "x\<lparr>se_parent := None\<rparr>"
      have "same_keys h ?h1" "same_keys ?h1 (?h1(e \<mapsto> ?x))" using y(2) assms(3) d by (auto intro!: same_keys_upd)
      then have "same_keys h (?h1(e \<mapsto> ?x))" by (rule same_keys_trans)
      moreover have "tree_at (?h1(e \<mapsto> ?x)) None (sc_root s) (plug Leaf c)"
        using y d Cons LF unfolding tree_at_plug by (intro exI [of _ "Some g"] exI [of _ None]) simp
      ultimately show ?thesis using y d Cons LF assms(3) x'
        by (intro exI [of _ "?h1(e \<mapsto> ?x)"] exI [of _ s])
          (simp add: schedule_detach_parent_def hmod_Some set_tree_plug)
    next
      case (RF l g)
      then obtain y where y: "se_parent x = Some g" "h g = Some y" "se_gt y = Some e" "tree_at h (Some g) (se_lt y) l"
        "ctx_at h (sc_root s) (se_parent y) (Some g) c'"
        using x(1) Cons by auto
      have d: "g \<notin> set_tree l" "g \<notin> ctx_nodes c'" "e \<noteq> g" "e \<notin> set_tree l" "e \<notin> ctx_nodes c'"
        using assms(2) e Cons RF by (auto simp: inorder_plug ctx_nodes_def)
      have "se_lt y \<noteq> Some e" using tree_at_ptr [OF y(4), of e] d(4) by auto
      let ?h1 = "h(g \<mapsto> y\<lparr>se_gt := None\<rparr>)" and ?x = "x\<lparr>se_parent := None\<rparr>"
      have "same_keys h ?h1" "same_keys ?h1 (?h1(e \<mapsto> ?x))" using y(2) assms(3) d by (auto intro!: same_keys_upd)
      then have "same_keys h (?h1(e \<mapsto> ?x))" by (rule same_keys_trans)
      moreover have "tree_at (?h1(e \<mapsto> ?x)) None (sc_root s) (plug Leaf c)"
        using y d Cons RF unfolding tree_at_plug by (intro exI [of _ "Some g"] exI [of _ None]) simp
      ultimately show ?thesis using y d Cons RF assms(3) x' \<open>se_lt y \<noteq> Some e\<close>
        by (intro exI [of _ "?h1(e \<mapsto> ?x)"] exI [of _ s])
          (simp add: schedule_detach_parent_def hmod_Some set_tree_plug)
    qed
  qed
qed

definition unlinked :: "schedule_entry \<Rightarrow> schedule_entry" where
  \<comment> \<open>an entry that is not in the tree\<close>
  "unlinked x = x\<lparr>se_pri := 0, se_parent := None, se_lt := None, se_gt := None\<rparr>"

lemma same_keys_Some: "same_keys h h' \<Longrightarrow> h a = Some x \<Longrightarrow> \<exists>y. h' a = Some y \<and> se_tv y = se_tv x \<and> se_pri y = se_pri x"
  by (drule same_keys_def [THEN iffD1], drule spec [of _ a]) (cases "h' a"; simp)

lemma remove_node_ok:
  assumes "tree_at h None (sc_root s) (plug (Node l e r) c)" and "distinct (inorder (plug (Node l e r) c))"
    and "h e = Some x"
  shows "\<exists>h' s'. schedule_remove_node h s e = Some (h', s')
    \<and> tree_at h' None (sc_root s') (plug (join (pri_of h) l r) c)
    \<and> (\<exists>x'. h' e = Some x' \<and> x' = unlinked x' \<and> se_tv x' = se_tv x) \<and> same_keys (h(e := None)) (h'(e := None))
    \<and> (\<forall>a. a \<notin> set_tree (plug (Node l e r) c) \<longrightarrow> h' a = h a) \<and> sc_earliest_wakeup s' = sc_earliest_wakeup s"
proof -
  obtain h1 s1 c1 where h1: "remove_node_loop h s e = Some (h1, s1)"
    "tree_at h1 None (sc_root s1) (plug (Node Leaf e Leaf) c1)" "plug Leaf c1 = plug (join (pri_of h) l r) c"
    "inorder (plug (Node Leaf e Leaf) c1) = inorder (plug (Node l e r) c)" "same_keys h h1"
    "\<forall>a. a \<notin> set_tree (plug (Node l e r) c) \<longrightarrow> h1 a = h a" "sc_earliest_wakeup s1 = sc_earliest_wakeup s"
    using remove_node_loop_ok [OF assms(1,2)] by (auto simp: leafed_def)
  have set1: "set_tree (plug (Node Leaf e Leaf) c1) = set_tree (plug (Node l e r) c)" using h1(4) by (metis set_inorder)
  obtain x1 where x1: "h1 e = Some x1" "se_tv x1 = se_tv x" using same_keys_Some [OF h1(5) assms(3)] by blast
  obtain h2 s2 where h2: "schedule_detach_parent h1 s1 (Some e) = Some (h2, s2)" "tree_at h2 None (sc_root s2) (plug Leaf c1)"
    "h2 e = Some (x1\<lparr>se_parent := None, se_lt := None, se_gt := None\<rparr>)" "same_keys h1 h2"
    "\<forall>a. a \<notin> set_tree (plug (Node Leaf e Leaf) c1) \<longrightarrow> h2 a = h1 a" "sc_earliest_wakeup s2 = sc_earliest_wakeup s1"
    using detach_parent_ok [OF h1(2) _ x1(1)] h1(4) assms(2) by auto
  let ?x = "unlinked x1" and ?h = "h2(e \<mapsto> unlinked x1)"
  have run: "schedule_remove_node h s e = Some (?h, s2)"
    using h1(1) h2(1,3) by (cases x1) (simp add: schedule_remove_node_def hmod_Some unlinked_def)
  have "distinct (inorder (plug (Node Leaf e Leaf) c1))" using h1(4) assms(2) by simp
  then have "e \<notin> set_tree (plug Leaf c1)" by (auto simp: inorder_plug set_tree_plug ctx_nodes_def)
  then have "tree_at ?h None (sc_root s2) (plug (join (pri_of h) l r) c)" using h2(2) h1(3) by simp
  moreover have "same_keys (h(e := None)) (?h(e := None))"
    using same_keys_trans [OF h1(5) h2(4)] by (simp add: same_keys_def)
  moreover have "?x = unlinked ?x" "se_tv ?x = se_tv x" using x1 by (simp_all add: unlinked_def)
  moreover have "\<forall>a. a \<notin> set_tree (plug (Node l e r) c) \<longrightarrow> ?h a = h a"
    using h2(5) h1(6) set1 by (auto simp: set_tree_plug)
  ultimately show ?thesis using run h2(6) h1(7) by (intro exI [of _ ?h] exI [of _ s2]) auto
qed

subsection \<open>Priorities\<close>

fun pri_heap :: "(nat \<Rightarrow> u32) \<Rightarrow> nat tree \<Rightarrow> bool" where
  "pri_heap P Leaf \<longleftrightarrow> True"
| "pri_heap P (Node l a r) \<longleftrightarrow> (\<forall>x \<in> set_tree l \<union> set_tree r. P a \<le> P x) \<and> pri_heap P l \<and> pri_heap P r"

fun spine :: "frame list \<Rightarrow> nat set" where
  "spine [] = {}"
| "spine (LF a r # c) = insert a (spine c)"
| "spine (RF l a # c) = insert a (spine c)"

lemma pri_heap_plug:
  "pri_heap P (plug t c) \<longleftrightarrow> pri_heap P t \<and> pri_heap P (plug Leaf c) \<and> (\<forall>a \<in> spine c. \<forall>x \<in> set_tree t. P a \<le> P x)"
proof (induction c arbitrary: t)
  case Nil
  then show ?case by simp
next
  case (Cons f c)
  show ?case
  proof (cases f)
    case (LF a r)
    then show ?thesis using Cons.IH [of "Node t a r"] Cons.IH [of "Node Leaf a r"] by auto
  next
    case (RF l a)
    then show ?thesis using Cons.IH [of "Node l a t"] Cons.IH [of "Node l a Leaf"] by auto
  qed
qed

lemma set_tree_join: "set_tree (join P l r) = set_tree l \<union> set_tree r"
  using inorder_join [of P l r] by (metis set_append set_inorder)

lemma pri_heap_join: "pri_heap P l \<Longrightarrow> pri_heap P r \<Longrightarrow> pri_heap P (join P l r)"
proof (induction P l r rule: join.induct)
  case (3 P ll x lr rl y rr)
  have "P x \<le> P z" if "P x < P y" "z \<in> set_tree rl \<union> set_tree rr" for z
    using that 3(4) order.trans [of "P x" "P y" "P z"] by auto
  moreover have "P y \<le> P z" if "\<not> P x < P y" "z \<in> set_tree ll \<union> set_tree lr" for z
    using that 3(3) order.trans [of "P y" "P x" "P z"] by auto
  ultimately show ?case using 3 by (auto simp: set_tree_join)
qed simp_all

lemma pri_heap_cong: "\<forall>a \<in> set_tree t. P a = Q a \<Longrightarrow> pri_heap P t = pri_heap Q t"
  by (induction t) auto

end
