(* ===== verification/Schedule_Order.thy ===== *)
theory Schedule_Order
  imports Schedule_Tree
begin

text \<open>
  The order of the entries by time and priority, the descent of \<^verbatim>\<open>schedule_insert\<close> with its retries on a
  key collision, and the rotations that restore the order of the priorities.
\<close>

subsection \<open>The order of the entries\<close>

definition before :: "sheap \<Rightarrow> nat \<Rightarrow> nat \<Rightarrow> bool" where
  "before h a b \<longleftrightarrow> (\<exists>x y. h a = Some x \<and> h b = Some y \<and> schedule_entry_compare x y = - 1)"

lemma compare_lt_iff:
  "schedule_entry_compare x y = - 1 \<longleftrightarrow> tv_lt (se_tv x) (se_tv y) \<or> (se_tv x = se_tv y \<and> se_pri x < se_pri y)"
  by (auto simp: schedule_entry_compare_def tv_lt_def)

lemma compare_gt_iff: "schedule_entry_compare x y = 1 \<longleftrightarrow> schedule_entry_compare y x = - 1"
  by (auto simp: schedule_entry_compare_def)

lemma compare_eq_iff: "schedule_entry_compare x y = 0 \<longleftrightarrow> se_tv x = se_tv y \<and> se_pri x = se_pri y"
  by (auto simp: schedule_entry_compare_def)

lemma compare_cases: "schedule_entry_compare x y = - 1 \<or> schedule_entry_compare x y = 1 \<or> schedule_entry_compare x y = 0"
  by (simp add: schedule_entry_compare_def)

lemma compare_trans:
  "schedule_entry_compare x y = - 1 \<Longrightarrow> schedule_entry_compare y z = - 1 \<Longrightarrow> schedule_entry_compare x z = - 1"
  by (auto simp: compare_lt_iff tv_lt_def split: if_splits)

lemma before_trans: "before h a b \<Longrightarrow> before h b c \<Longrightarrow> before h a c"
  using compare_trans by (fastforce simp: before_def)

lemma before_same_keys: "same_keys h h' \<Longrightarrow> before h a b \<Longrightarrow> before h' a b"
proof -
  assume keys: "same_keys h h'" and "before h a b"
  then obtain x y where xy: "h a = Some x" "h b = Some y" "schedule_entry_compare x y = - 1" by (auto simp: before_def)
  obtain x' y' where "h' a = Some x'" "h' b = Some y'" "se_tv x' = se_tv x" "se_pri x' = se_pri x" "se_tv y' = se_tv y" "se_pri y' = se_pri y"
    using same_keys_Some [OF keys xy(1)] same_keys_Some [OF keys xy(2)] by blast
  then show ?thesis using xy(3) by (auto simp: before_def compare_lt_iff)
qed

lemma same_keys_sym: "same_keys h h' \<Longrightarrow> same_keys h' h"
  by (simp add: same_keys_def)

lemma before_same_keys_eq: "same_keys h h' \<Longrightarrow> before h' = before h"
  by (intro ext) (metis before_same_keys same_keys_sym)

subsection \<open>Insertion\<close>

definition collides :: "sheap \<Rightarrow> nat set \<Rightarrow> schedule_entry \<Rightarrow> bool" where
  "collides h A x \<longleftrightarrow> (\<exists>a \<in> A. \<exists>y. h a = Some y \<and> schedule_entry_compare x y = 0)"

definition attached :: "sheap \<Rightarrow> schedule \<Rightarrow> u32 list \<Rightarrow> nat \<Rightarrow> nat tree \<Rightarrow> frame list \<Rightarrow> bool" where
  \<comment> \<open>the descent from the subtree \<open>t\<close> attaches \<open>e\<close> as a leaf at its place in the order\<close>
  "attached h s rs e t c \<longleftrightarrow> (\<exists>h' c' A B. schedule_insert h s rs e (case t of Leaf \<Rightarrow> None | Node _ a _ \<Rightarrow> Some a) = Some (h', rs)
     \<and> tree_at h' None (sc_root s) (plug (Node Leaf e Leaf) c') \<and> plug Leaf c' = plug t c
     \<and> inorder t = A @ B \<and> lefts c' = lefts c @ A \<and> rights c' = B @ rights c
     \<and> (\<forall>a \<in> set A. before h a e) \<and> (\<forall>b \<in> set B. before h e b) \<and> same_keys h h'
     \<and> (\<forall>a. a \<notin> set_tree (plug t c) \<and> a \<noteq> e \<longrightarrow> h' a = h a))"

lemma insert_attach:
  assumes "tree_at h None (sc_root s) (plug t c)" and "t \<noteq> Leaf" and "distinct (inorder (plug t c))"
    and "e \<notin> set_tree (plug t c)" and "h e = Some x" and "se_lt x = None" and "se_gt x = None"
    and "sorted_wrt (before h) (inorder t)" and "\<not> collides h (set_tree t) x"
  shows "attached h s rs e t c"
  using assms(1-4,8,9)
proof (induction t arbitrary: c)
  case Leaf
  then show ?case by simp
next
  case (Node l a r)
  obtain y where y: "h a = Some y" "tree_at h (Some a) (se_lt y) l" "tree_at h (Some a) (se_gt y) r"
    "ctx_at h (sc_root s) (se_parent y) (Some a) c"
    using tree_plug_node [OF Node.prems(1)] by blast
  have d: "a \<noteq> e" "a \<notin> set_tree l" "a \<notin> set_tree r" "a \<notin> ctx_nodes c" "e \<notin> set_tree l" "e \<notin> set_tree r" "e \<notin> ctx_nodes c"
    using Node.prems(3,4) by (auto simp: inorder_plug set_tree_plug ctx_nodes_def)
  have ord: "\<forall>b \<in> set_tree l. before h b a" "\<forall>b \<in> set_tree r. before h a b"
    "sorted_wrt (before h) (inorder l)" "sorted_wrt (before h) (inorder r)"
    using Node.prems(5) by (auto simp: sorted_wrt_append)
  have free: "\<not> collides h (set_tree l) x" "\<not> collides h (set_tree r) x" "schedule_entry_compare x y \<noteq> 0"
    using Node.prems(6) y(1) by (auto simp: collides_def)
  let ?x = "x\<lparr>se_parent := Some a\<rparr>"
  show ?case
  proof (cases "schedule_entry_compare x y = - 1")
    case True
    then have ea: "before h e a" using y(1) assms(5) by (auto simp: before_def)
    then have er: "\<forall>b \<in> set_tree r. before h e b" using ord(2) before_trans by blast
    show ?thesis
    proof (cases l)
      case Leaf
      let ?h = "h(a \<mapsto> y\<lparr>se_lt := Some e\<rparr>, e \<mapsto> ?x)"
      have "se_lt y = None" using y(2) Leaf by simp
      then have run: "schedule_insert h s rs e (Some a) = Some (?h, rs)"
        using y(1) assms(5) True d by (subst schedule_insert.simps) (simp add: hmod_Some)
      have "same_keys h (h(a \<mapsto> y\<lparr>se_lt := Some e\<rparr>))" "same_keys (h(a \<mapsto> y\<lparr>se_lt := Some e\<rparr>)) ?h"
        using y(1) assms(5) d by (auto intro!: same_keys_upd)
      then have "same_keys h ?h" by (rule same_keys_trans)
      moreover have "tree_at ?h None (sc_root s) (plug (Node Leaf e Leaf) (LF a r # c))"
        unfolding tree_at_plug using y d assms(6,7) by (intro exI [of _ "Some a"] exI [of _ "Some e"]) simp
      ultimately show ?thesis unfolding attached_def using run Leaf ea er
        by (intro exI [of _ ?h] exI [of _ "LF a r # c"] exI [of _ "[]"] exI [of _ "a # inorder r"]) (simp add: set_tree_plug)
    next
      case (Node l1 b r1)
      have "attached h s rs e l (LF a r # c)"
        using Node.prems ord(3) free(1) Node by (intro Node.IH(1)) simp_all
      then obtain h' c' A B where i: "schedule_insert h s rs e (Some b) = Some (h', rs)"
        "tree_at h' None (sc_root s) (plug (Node Leaf e Leaf) c')" "plug Leaf c' = plug l (LF a r # c)"
        "inorder l = A @ B" "lefts c' = lefts (LF a r # c) @ A" "rights c' = B @ rights (LF a r # c)"
        "\<forall>a \<in> set A. before h a e" "\<forall>b \<in> set B. before h e b" "same_keys h h'"
        "\<forall>d. d \<notin> set_tree (plug l (LF a r # c)) \<and> d \<noteq> e \<longrightarrow> h' d = h d"
        using Node by (auto simp: attached_def)
      have "schedule_insert h s rs e (Some a) = schedule_insert h s rs e (Some b)"
        using y(1,2) assms(5) True Node by (subst schedule_insert.simps) simp
      then show ?thesis unfolding attached_def using i ea er
        by (intro exI [of _ h'] exI [of _ c'] exI [of _ A] exI [of _ "B @ a # inorder r"]) auto
    qed
  next
    case False
    then have gt: "schedule_entry_compare x y = 1" using free(3) compare_cases by blast
    then have ae: "before h a e" using y(1) assms(5) by (auto simp: before_def compare_gt_iff)
    then have le: "\<forall>b \<in> set_tree l. before h b e" using ord(1) before_trans by blast
    show ?thesis
    proof (cases r)
      case Leaf
      let ?h = "h(a \<mapsto> y\<lparr>se_gt := Some e\<rparr>, e \<mapsto> ?x)"
      have "se_gt y = None" using y(3) Leaf by simp
      then have run: "schedule_insert h s rs e (Some a) = Some (?h, rs)"
        using y(1) assms(5) gt d by (subst schedule_insert.simps) (simp add: hmod_Some)
      have "same_keys h (h(a \<mapsto> y\<lparr>se_gt := Some e\<rparr>))" "same_keys (h(a \<mapsto> y\<lparr>se_gt := Some e\<rparr>)) ?h"
        using y(1) assms(5) d by (auto intro!: same_keys_upd)
      then have "same_keys h ?h" by (rule same_keys_trans)
      moreover have "tree_at ?h None (sc_root s) (plug (Node Leaf e Leaf) (RF l a # c))"
        unfolding tree_at_plug using y d assms(6,7) by (intro exI [of _ "Some a"] exI [of _ "Some e"]) simp
      ultimately show ?thesis unfolding attached_def using run Leaf ae le
        by (intro exI [of _ ?h] exI [of _ "RF l a # c"] exI [of _ "inorder l @ [a]"] exI [of _ "[]"]) (auto simp: set_tree_plug)
    next
      case (Node l1 b r1)
      have "attached h s rs e r (RF l a # c)"
        using Node.prems ord(4) free(2) Node by (intro Node.IH(2)) simp_all
      then obtain h' c' A B where i: "schedule_insert h s rs e (Some b) = Some (h', rs)"
        "tree_at h' None (sc_root s) (plug (Node Leaf e Leaf) c')" "plug Leaf c' = plug r (RF l a # c)"
        "inorder r = A @ B" "lefts c' = lefts (RF l a # c) @ A" "rights c' = B @ rights (RF l a # c)"
        "\<forall>a \<in> set A. before h a e" "\<forall>b \<in> set B. before h e b" "same_keys h h'"
        "\<forall>d. d \<notin> set_tree (plug r (RF l a # c)) \<and> d \<noteq> e \<longrightarrow> h' d = h d"
        using Node by (auto simp: attached_def)
      have "schedule_insert h s rs e (Some a) = schedule_insert h s rs e (Some b)"
        using y(1,3) assms(5) gt Node by (subst schedule_insert.simps) simp
      then show ?thesis unfolding attached_def using i ae le
        by (intro exI [of _ h'] exI [of _ c'] exI [of _ "inorder l @ a # A"] exI [of _ B]) auto
    qed
  qed
qed

text \<open>On a collision of the key the entry gets a new priority and the descent starts again.\<close>

lemma insert_collide:
  assumes "tree_at h par ptr t" and "h e = Some x" and "sorted_wrt (before h) (inorder t)" and "collides h (set_tree t) x"
  shows "schedule_insert h s rs e ptr = do { (h1, rs1) \<leftarrow> schedule_set_pri h rs e; schedule_insert h1 s rs1 e (sc_root s) }"
  using assms(1,3,4)
proof (induction t arbitrary: par ptr)
  case Leaf
  then show ?case by (simp add: collides_def)
next
  case (Node l a r)
  then obtain y where y: "ptr = Some a" "h a = Some y" "tree_at h (Some a) (se_lt y) l" "tree_at h (Some a) (se_gt y) r" by auto
  obtain b z where b: "b \<in> set_tree (Node l a r)" "h b = Some z" "se_tv x = se_tv z" "se_pri x = se_pri z"
    using Node.prems(3) by (auto simp: collides_def compare_eq_iff)
  have ord: "\<forall>b \<in> set_tree l. before h b a" "\<forall>b \<in> set_tree r. before h a b"
    "sorted_wrt (before h) (inorder l)" "sorted_wrt (before h) (inorder r)"
    using Node.prems(2) by (auto simp: sorted_wrt_append)
  have cmp: "schedule_entry_compare x y = schedule_entry_compare z y"
    using b by (simp add: schedule_entry_compare_def)
  have zx: "schedule_entry_compare x z = 0" using b by (simp add: compare_eq_iff)
  consider "b = a" | "b \<in> set_tree l" | "b \<in> set_tree r" using b(1) by auto
  then show ?case
  proof cases
    case 1
    then have "schedule_entry_compare x y = 0" using b(2) y(2) zx by simp
    then show ?thesis using y(1,2) assms(2) by (subst schedule_insert.simps) (simp add: split_beta)
  next
    case 2
    then have "schedule_entry_compare z y = - 1" using ord(1) b(2) y(2) by (auto simp: before_def)
    moreover obtain p where p: "se_lt y = Some p" using 2 y(3) by (cases l) auto
    ultimately have "schedule_insert h s rs e ptr = schedule_insert h s rs e (Some p)"
      using y(1,2) assms(2) cmp by (subst schedule_insert.simps) simp
    moreover have "collides h (set_tree l) x" using 2 b(2) zx by (auto simp: collides_def)
    ultimately show ?thesis using Node.IH(1) [OF _ ord(3)] y(3) p by simp
  next
    case 3
    then have "schedule_entry_compare z y = 1" using ord(2) b(2) y(2) by (auto simp: before_def compare_gt_iff)
    moreover obtain p where p: "se_gt y = Some p" using 3 y(4) by (cases r) auto
    ultimately have "schedule_insert h s rs e ptr = schedule_insert h s rs e (Some p)"
      using y(1,2) assms(2) cmp by (subst schedule_insert.simps) simp
    moreover have "collides h (set_tree r) x" using 3 b(2) zx by (auto simp: collides_def)
    ultimately show ?thesis using Node.IH(2) [OF _ ord(4)] y(4) p by simp
  qed
qed

lemma before_upd: "a \<noteq> e \<Longrightarrow> b \<noteq> e \<Longrightarrow> before (h(e := v)) a b = before h a b"
  by (simp add: before_def)

lemma sorted_before_upd: "e \<notin> set xs \<Longrightarrow> sorted_wrt (before (h(e := v))) xs = sorted_wrt (before h) xs"
proof -
  assume e: "e \<notin> set xs"
  have "before (h(e := v)) a b = before h a b" if "a \<in> set xs" "b \<in> set xs" for a b
    using that e by (intro before_upd) auto
  then show ?thesis using sorted_wrt_mono_rel [of xs "before h"] sorted_wrt_mono_rel [of xs "before (h(e := v))"] by blast
qed

lemma collides_upd: "e \<notin> A \<Longrightarrow> collides (h(e := v)) A x = collides h A x"
  unfolding collides_def by (metis fun_upd_other)

definition lucky :: "sheap \<Rightarrow> nat set \<Rightarrow> u32 list \<Rightarrow> schedule_entry \<Rightarrow> bool" where
  \<comment> \<open>one of the random values to come gives a priority that makes the key unique\<close>
  "lucky h A rs x \<longleftrightarrow> (\<exists>r \<in> set rs. \<not> collides h A (x\<lparr>se_pri := rand_pri r\<rparr>))"

lemma rand_pri_pos: "rand_pri r \<noteq> 0"
  by (auto simp: rand_pri_def word_less_nat_alt)

lemma insert_retry:
  assumes "tree_at h None (sc_root s) t" and "e \<notin> set_tree t" and "sorted_wrt (before h) (inorder t)"
    and "h e = Some x" and "se_pri x \<noteq> 0" and "\<not> collides h (set_tree t) x \<or> lucky h (set_tree t) rs x"
  shows "\<exists>p rs'. p \<noteq> 0 \<and> \<not> collides h (set_tree t) (x\<lparr>se_pri := p\<rparr>)
    \<and> schedule_insert h s rs e (sc_root s) = schedule_insert (h(e \<mapsto> x\<lparr>se_pri := p\<rparr>)) s rs' e (sc_root s)"
  using assms
proof (induction rs arbitrary: h x)
  case Nil
  then have "x\<lparr>se_pri := se_pri x\<rparr> = x" "h(e \<mapsto> x) = h" by auto
  then show ?case using Nil by (intro exI [of _ "se_pri x"] exI [of _ "[]"]) (auto simp: lucky_def)
next
  case (Cons r rs)
  show ?case
  proof (cases "collides h (set_tree t) x")
    case False
    have "x\<lparr>se_pri := se_pri x\<rparr> = x" "h(e \<mapsto> x) = h" using Cons.prems(4) by auto
    then show ?thesis using False Cons.prems(5) by (intro exI [of _ "se_pri x"] exI [of _ "r # rs"]) simp
  next
    case True
    let ?x = "x\<lparr>se_pri := rand_pri r\<rparr>" and ?h = "h(e \<mapsto> x\<lparr>se_pri := rand_pri r\<rparr>)"
    have run: "schedule_insert h s (r # rs) e (sc_root s) = schedule_insert ?h s rs e (sc_root s)"
      using insert_collide [OF Cons.prems(1,4,3) True, of s "r # rs"] Cons.prems(4)
      by (simp add: schedule_set_pri_def hmod_Some)
    have "\<not> collides h (set_tree t) ?x \<or> lucky h (set_tree t) rs ?x"
      using Cons.prems(6) True by (auto simp: lucky_def)
    then have l: "\<not> collides ?h (set_tree t) ?x \<or> lucky ?h (set_tree t) rs ?x"
      using Cons.prems(2) by (simp add: lucky_def collides_upd)
    have t: "tree_at ?h None (sc_root s) t" "sorted_wrt (before ?h) (inorder t)" "?h e = Some ?x" "se_pri ?x \<noteq> 0"
      using Cons.prems(1-3) rand_pri_pos by (simp_all add: sorted_before_upd)
    have "\<exists>p rs'. p \<noteq> 0 \<and> \<not> collides ?h (set_tree t) (?x\<lparr>se_pri := p\<rparr>)
        \<and> schedule_insert ?h s rs e (sc_root s) = schedule_insert (?h(e \<mapsto> ?x\<lparr>se_pri := p\<rparr>)) s rs' e (sc_root s)"
      by (rule Cons.IH [OF t(1) Cons.prems(2) t(2-4) l])
    then obtain p rs' where p: "p \<noteq> 0" "\<not> collides ?h (set_tree t) (?x\<lparr>se_pri := p\<rparr>)"
      "schedule_insert ?h s rs e (sc_root s) = schedule_insert (?h(e \<mapsto> ?x\<lparr>se_pri := p\<rparr>)) s rs' e (sc_root s)" by blast
    have "\<not> collides h (set_tree t) (x\<lparr>se_pri := p\<rparr>)" using p(2) Cons.prems(2) by (simp add: collides_upd)
    moreover have "schedule_insert h s (r # rs) e (sc_root s) = schedule_insert (h(e \<mapsto> x\<lparr>se_pri := p\<rparr>)) s rs' e (sc_root s)"
      using run p(3) by simp
    ultimately show ?thesis using p(1) by blast
  qed
qed

subsection \<open>Restoring the heap order\<close>

definition up_ok :: "(nat \<Rightarrow> u32) \<Rightarrow> nat tree \<Rightarrow> nat \<Rightarrow> nat tree \<Rightarrow> frame list \<Rightarrow> bool" where
  \<comment> \<open>the heap order holds except that the priority of \<open>e\<close> may be too low for its place\<close>
  "up_ok P l e r c \<longleftrightarrow> pri_heap P (Node l e r) \<and> pri_heap P (plug Leaf c)
     \<and> (\<forall>a \<in> spine c. \<forall>x \<in> set_tree l \<union> set_tree r. P a \<le> P x)"

lemma up_ok_left:
  assumes "up_ok P l e r (LF p b # c)" and "P e \<le> P p"
  shows "up_ok P l e (Node r p b) c"
proof -
  have "pri_heap P (Node Leaf p b)" "pri_heap P (plug Leaf c)" "\<forall>a \<in> spine c. \<forall>x \<in> insert p (set_tree b). P a \<le> P x"
    using assms(1) pri_heap_plug [of P "Node Leaf p b" c] by (simp_all add: up_ok_def)
  then show ?thesis using assms order.trans [of "P e" "P p"] by (auto simp: up_ok_def)
qed

lemma up_ok_right:
  assumes "up_ok P l e r (RF b p # c)" and "P e \<le> P p"
  shows "up_ok P (Node b p l) e r c"
proof -
  have "pri_heap P (Node b p Leaf)" "pri_heap P (plug Leaf c)" "\<forall>a \<in> spine c. \<forall>x \<in> insert p (set_tree b). P a \<le> P x"
    using assms(1) pri_heap_plug [of P "Node b p Leaf" c] by (simp_all add: up_ok_def)
  then show ?thesis using assms order.trans [of "P e" "P p"] by (auto simp: up_ok_def)
qed

lemma up_ok_done:
  assumes "up_ok P l e r c" and "\<forall>a \<in> spine c. P a \<le> P e"
  shows "pri_heap P (plug (Node l e r) c)"
  using assms pri_heap_plug [of P "Node l e r" c] by (auto simp: up_ok_def)

lemma spine_top:
  assumes "pri_heap P (plug Leaf (f # c))" and "a \<in> spine c"
  shows "P a \<le> P (case f of LF p b \<Rightarrow> p | RF b p \<Rightarrow> p)"
proof (cases f)
  case (LF p b)
  then show ?thesis using assms pri_heap_plug [of P "Node Leaf p b" c] by simp
next
  case (RF b p)
  then show ?thesis using assms pri_heap_plug [of P "Node b p Leaf" c] by simp
qed

end
