(* ===== verification/Schedule_Props.thy ===== *)
theory Schedule_Props
  imports Schedule_Order
begin

text \<open>
  The invariant of the scheduler, its public operations, their interpretation as a queue of timed events, and
  the properties of the scheduler.
\<close>

definition settled :: "sheap \<Rightarrow> schedule \<Rightarrow> nat \<Rightarrow> nat tree \<Rightarrow> bool" where
  \<comment> \<open>rotating \<open>e\<close> up gives a tree with the same sequence of entries and in heap order\<close>
  "settled h s e t \<longleftrightarrow> (\<exists>h' s' t'. rotate_loop h s e = Some (h', s') \<and> tree_at h' None (sc_root s') t'
     \<and> inorder t' = inorder t \<and> pri_heap (pri_of h) t' \<and> same_keys h h' \<and> (\<forall>a. a \<notin> set_tree t \<longrightarrow> h' a = h a)
     \<and> sc_earliest_wakeup s' = sc_earliest_wakeup s)"

lemma settled_step:
  assumes "settled h1 s1 e t1" and "rotate_loop h s e = rotate_loop h1 s1 e" and "inorder t1 = inorder t"
    and "same_keys h h1" and "\<forall>a. a \<notin> set_tree t \<longrightarrow> h1 a = h a" and "sc_earliest_wakeup s1 = sc_earliest_wakeup s"
  shows "settled h s e t"
proof -
  obtain h' s' t' where h': "rotate_loop h1 s1 e = Some (h', s')" "tree_at h' None (sc_root s') t'" "inorder t' = inorder t1"
    "pri_heap (pri_of h1) t'" "same_keys h1 h'" "\<forall>a. a \<notin> set_tree t1 \<longrightarrow> h' a = h1 a" "sc_earliest_wakeup s' = sc_earliest_wakeup s1"
    using assms(1) by (auto simp: settled_def)
  have "set_tree t1 = set_tree t" using assms(3) by (metis set_inorder)
  then show ?thesis unfolding settled_def
    using h' assms(2-6) same_keys_trans [OF assms(4) h'(5)] same_keys_pri [OF assms(4)]
    by (intro exI [of _ h'] exI [of _ s'] exI [of _ t']) simp
qed

lemma rotate_loop_ok:
  assumes "tree_at h None (sc_root s) (plug (Node l e r) c)" and "distinct (inorder (plug (Node l e r) c))"
    and "up_ok (pri_of h) l e r c"
  shows "settled h s e (plug (Node l e r) c)"
  using assms
proof (induction c arbitrary: h s l r)
  case Nil
  then obtain x where "h e = Some x" "se_parent x = None" by auto
  then have "rotate_loop h s e = Some (h, s)" by (subst rotate_loop.simps) simp
  then show ?case unfolding settled_def using Nil
    by (intro exI [of _ h] exI [of _ s] exI [of _ "Node l e r"]) (simp add: up_ok_def)
next
  case (Cons f c)
  define p where "p = (case f of LF p b \<Rightarrow> p | RF b p \<Rightarrow> p)"
  obtain x where x: "h e = Some x" "ctx_at h (sc_root s) (se_parent x) (Some e) (f # c)"
    using tree_plug_node [OF Cons.prems(1)] by blast
  then obtain y where y: "se_parent x = Some p" "h p = Some y" by (cases f) (auto simp: p_def)
  show ?case
  proof (cases "se_pri y > se_pri x")
    case False
    then have run: "rotate_loop h s e = Some (h, s)" using x y by (subst rotate_loop.simps) simp
    have "pri_of h a \<le> pri_of h e" if "a \<in> spine (f # c)" for a
    proof -
      have "pri_of h p \<le> pri_of h e" using False x y by simp
      moreover have "a = p \<or> a \<in> spine c" using that by (cases f) (auto simp: p_def)
      ultimately show ?thesis using Cons.prems(3) spine_top [of "pri_of h" f c a] by (auto simp: up_ok_def p_def)
    qed
    then have "pri_heap (pri_of h) (plug (Node l e r) (f # c))" using Cons.prems(3) by (intro up_ok_done) auto
    then show ?thesis unfolding settled_def using run Cons.prems
      by (intro exI [of _ h] exI [of _ s] exI [of _ "plug (Node l e r) (f # c)"]) simp
  next
    case True
    then have step: "rotate_loop h s e = rotate_loop h' s' e" if "schedule_rotate_up h s (Some e) = Some (h', s')" for h' s'
      using x y that by (subst rotate_loop.simps) simp
    have pri: "pri_of h e \<le> pri_of h p" using True x y by simp
    show ?thesis
    proof (cases f)
      case (LF q b)
      then have q: "q = p" by (simp add: p_def)
      obtain h1 s1 where h1: "schedule_rotate_up h s (Some e) = Some (h1, s1)"
        "tree_at h1 None (sc_root s1) (plug (Node l e (Node r p b)) c)" "same_keys h h1"
        "\<forall>a. a \<notin> set_tree (plug (Node (Node l e r) p b) c) \<longrightarrow> h1 a = h a" "sc_earliest_wakeup s1 = sc_earliest_wakeup s"
        using rotate_up_left [of h s l e r p b c] Cons.prems(1,2) LF q by auto
      have "up_ok (pri_of h1) l e (Node r p b) c"
        using up_ok_left [of "pri_of h" l e r p b c] Cons.prems(3) pri LF q same_keys_pri [OF h1(3)] by simp
      moreover have "inorder (plug (Node l e (Node r p b)) c) = inorder (plug (Node l e r) (f # c))" using LF q by (simp add: inorder_plug)
      ultimately show ?thesis using h1 Cons.prems(2) LF q
        by (intro settled_step [OF Cons.IH [OF h1(2)] step [OF h1(1)]]) simp_all
    next
      case (RF b q)
      then have q: "q = p" by (simp add: p_def)
      obtain h1 s1 where h1: "schedule_rotate_up h s (Some e) = Some (h1, s1)"
        "tree_at h1 None (sc_root s1) (plug (Node (Node b p l) e r) c)" "same_keys h h1"
        "\<forall>a. a \<notin> set_tree (plug (Node b p (Node l e r)) c) \<longrightarrow> h1 a = h a" "sc_earliest_wakeup s1 = sc_earliest_wakeup s"
        using rotate_up_right [of h s b p l e r c] Cons.prems(1,2) RF q by auto
      have "up_ok (pri_of h1) (Node b p l) e r c"
        using up_ok_right [of "pri_of h" l e r b p c] Cons.prems(3) pri RF q same_keys_pri [OF h1(3)] by simp
      moreover have "inorder (plug (Node (Node b p l) e r) c) = inorder (plug (Node l e r) (f # c))" using RF q by (simp add: inorder_plug)
      ultimately show ?thesis using h1 Cons.prems(2) RF q
        by (intro settled_step [OF Cons.IH [OF h1(2)] step [OF h1(1)]]) simp_all
    qed
  qed
qed

subsection \<open>The invariant of the scheduler\<close>

definition sched_tree :: "sheap \<Rightarrow> schedule \<Rightarrow> nat tree \<Rightarrow> bool" where
  \<comment> \<open>the tree below the root: linked both ways, ordered by key and by priority, and an entry is in it
    exactly if its priority is not 0; all other entries are unlinked\<close>
  "sched_tree h s t \<longleftrightarrow> tree_at h None (sc_root s) t \<and> distinct (inorder t) \<and> sorted_wrt (before h) (inorder t)
     \<and> pri_heap (pri_of h) t
     \<and> (\<forall>a x. h a = Some x \<longrightarrow> (se_pri x \<noteq> 0 \<longleftrightarrow> a \<in> set_tree t) \<and> (a \<notin> set_tree t \<longrightarrow> x = unlinked x))"

definition sched_inv :: "sheap \<Rightarrow> schedule \<Rightarrow> bool" where
  "sched_inv h s \<longleftrightarrow> (\<exists>t. sched_tree h s t
     \<and> (sc_earliest_wakeup s = None \<or> (\<exists>a as. inorder t = a # as \<and> sc_earliest_wakeup s = Some a)))"

definition sched_view :: "sheap \<Rightarrow> nat \<Rightarrow> timeval option" where
  "sched_view h a = (case h a of Some x \<Rightarrow> if se_pri x \<noteq> 0 then Some (se_tv x) else None | None \<Rightarrow> None)"

lemma set_tree_split: "e \<in> set_tree t \<Longrightarrow> \<exists>l r c. t = plug (Node l e r) c"
proof (induction t)
  case (Node l a r)
  then consider "e = a" | l' r' c' where "l = plug (Node l' e r') c'" | l' r' c' where "r = plug (Node l' e r') c'" by auto
  then show ?case
  proof cases
    case 1
    then show ?thesis by (intro exI [of _ l] exI [of _ r] exI [of _ "[]"]) simp
  next
    case 2
    have "plug t (c @ d) = plug (plug t c) d" for t c d by (induction t c rule: plug.induct) simp_all
    then show ?thesis using 2 by (intro exI [of _ l'] exI [of _ r'] exI [of _ "c' @ [LF a r]"]) simp
  next
    case 3
    have "plug t (c @ d) = plug (plug t c) d" for t c d by (induction t c rule: plug.induct) simp_all
    then show ?thesis using 3 by (intro exI [of _ l'] exI [of _ r'] exI [of _ "c' @ [RF l a]"]) simp
  qed
qed simp

definition sched_shape :: "sheap \<Rightarrow> schedule \<Rightarrow> nat tree \<Rightarrow> nat \<Rightarrow> bool" where
  \<comment> \<open>as \<open>sched_tree\<close>, but the time of \<open>e\<close> may have been changed in place\<close>
  "sched_shape h s t e \<longleftrightarrow> tree_at h None (sc_root s) t \<and> distinct (inorder t)
     \<and> sorted_wrt (before h) (filter (\<lambda>a. a \<noteq> e) (inorder t)) \<and> pri_heap (pri_of h) t
     \<and> (\<forall>a x. h a = Some x \<longrightarrow> (se_pri x \<noteq> 0 \<longleftrightarrow> a \<in> set_tree t) \<and> (a \<notin> set_tree t \<longrightarrow> x = unlinked x))"

lemma filter_neq: "e \<notin> set xs \<Longrightarrow> filter (\<lambda>a. a \<noteq> e) xs = xs"
  by (auto simp: filter_id_conv)

lemma sched_tree_shape: "sched_tree h s t \<Longrightarrow> sched_shape h s t e"
  by (auto simp: sched_tree_def sched_shape_def sorted_wrt_filter)

lemma sched_shape_tree: "sched_shape h s t e \<Longrightarrow> e \<notin> set_tree t \<Longrightarrow> sched_tree h s t"
proof -
  assume *: "sched_shape h s t e" "e \<notin> set_tree t"
  then have "filter (\<lambda>a. a \<noteq> e) (inorder t) = inorder t" by (simp add: filter_neq)
  then show ?thesis using * by (simp add: sched_tree_def sched_shape_def)
qed

lemma view_same_keys: "same_keys h h' \<Longrightarrow> sched_view h' = sched_view h"
proof
  fix a
  assume "same_keys h h'"
  then have "map_option (\<lambda>x. (se_tv x, se_pri x)) (h' a) = map_option (\<lambda>x. (se_tv x, se_pri x)) (h a)"
    by (simp add: same_keys_def)
  then show "sched_view h' a = sched_view h a" by (cases "h a"; cases "h' a") (simp_all add: sched_view_def)
qed

lemma view_other:
  assumes "same_keys (h(e := None)) (h'(e := None))" and "a \<noteq> e"
  shows "sched_view h' a = sched_view h a" and "pri_of h' a = pri_of h a" and "(h' a = None) = (h a = None)"
proof -
  have "map_option (\<lambda>x. (se_tv x, se_pri x)) (h' a) = map_option (\<lambda>x. (se_tv x, se_pri x)) (h a)"
    using assms by (auto simp: same_keys_def split: if_splits)
  then show "sched_view h' a = sched_view h a" "pri_of h' a = pri_of h a" "(h' a = None) = (h a = None)"
    by (cases "h a"; cases "h' a"; simp add: sched_view_def pri_of_def)+
qed

lemma before_other:
  assumes "same_keys (h(e := None)) (h'(e := None))" and "e \<notin> set xs"
  shows "sorted_wrt (before h') xs = sorted_wrt (before h) xs"
  using before_same_keys_eq [OF assms(1)] sorted_before_upd [OF assms(2)] by metis

lemma unlinked_fields:
  assumes "x = unlinked x"
  shows "se_lt x = None" and "se_gt x = None" and "se_parent x = None" and "se_pri x = 0"
  by (subst assms, simp add: unlinked_def)+

lemma remove_node_absent:
  assumes "sched_tree h s t" and "h e = Some x" and "e \<notin> set_tree t"
  shows "schedule_remove_node h s e = Some (h, s)"
proof -
  have x: "x = unlinked x" using assms by (auto simp: sched_tree_def)
  note f = unlinked_fields [OF x]
  then have "x\<lparr>se_pri := 0\<rparr> = x" by (cases x) simp
  moreover have "sc_root s \<noteq> Some e" using assms(1,3) tree_at_ptr by (auto simp: sched_tree_def)
  moreover have "remove_node_loop h s e = Some (h, s)" using assms(2) f by (subst remove_node_loop.simps) simp
  ultimately show ?thesis using assms(2) f
    by (simp add: schedule_remove_node_def schedule_detach_parent_def hmod_Some fun_upd_idem)
qed

lemma remove_node_law:
  assumes "sched_shape h s t e" and "h e = Some x"
  shows "\<exists>h' s' t'. schedule_remove_node h s e = Some (h', s') \<and> sched_tree h' s' t'
    \<and> inorder t' = filter (\<lambda>a. a \<noteq> e) (inorder t) \<and> (\<exists>x'. h' e = Some x' \<and> x' = unlinked x' \<and> se_tv x' = se_tv x)
    \<and> same_keys (h(e := None)) (h'(e := None)) \<and> sc_earliest_wakeup s' = sc_earliest_wakeup s"
proof (cases "e \<in> set_tree t")
  case False
  then have t: "sched_tree h s t" using sched_shape_tree assms(1) by blast
  moreover have "filter (\<lambda>a. a \<noteq> e) (inorder t) = inorder t" using False by (simp add: filter_neq)
  moreover have "x = unlinked x" using assms False by (auto simp: sched_shape_def)
  ultimately show ?thesis using remove_node_absent [OF t assms(2) False] assms(2)
    by (intro exI [of _ h] exI [of _ s] exI [of _ t]) auto
next
  case True
  then obtain l r c where t: "t = plug (Node l e r) c" using set_tree_split by blast
  let ?t = "plug (join (pri_of h) l r) c"
  have sh: "tree_at h None (sc_root s) t" "distinct (inorder t)" "sorted_wrt (before h) (filter (\<lambda>a. a \<noteq> e) (inorder t))"
    "pri_heap (pri_of h) t" "\<And>a x. h a = Some x \<Longrightarrow> (se_pri x \<noteq> 0 \<longleftrightarrow> a \<in> set_tree t) \<and> (a \<notin> set_tree t \<longrightarrow> x = unlinked x)"
    using assms(1) by (auto simp: sched_shape_def)
  obtain h' s' x' where h': "schedule_remove_node h s e = Some (h', s')" "tree_at h' None (sc_root s') ?t"
    "h' e = Some x'" "x' = unlinked x'" "se_tv x' = se_tv x" "same_keys (h(e := None)) (h'(e := None))"
    "\<forall>a. a \<notin> set_tree t \<longrightarrow> h' a = h a" "sc_earliest_wakeup s' = sc_earliest_wakeup s"
    using remove_node_ok [of h s l e r c x] sh(1,2) assms(2) t by auto
  have inord: "inorder ?t = filter (\<lambda>a. a \<noteq> e) (inorder t)" and "e \<notin> set_tree ?t"
    using sh(2) by (auto simp: t inorder_plug inorder_join filter_neq set_tree_plug set_tree_join ctx_nodes_def)
  then have set': "set_tree ?t = set_tree t - {e}" using sh(2)
    by (auto simp: t set_tree_plug set_tree_join inorder_plug ctx_nodes_def)
  have "sorted_wrt (before h') (inorder ?t)"
    using before_other [OF h'(6), of "inorder ?t"] sh(3) inord \<open>e \<notin> set_tree ?t\<close> by simp
  moreover have "pri_heap (pri_of h) ?t"
    using sh(4) pri_heap_plug [of "pri_of h" "Node l e r" c] pri_heap_plug [of "pri_of h" "join (pri_of h) l r" c]
    by (auto simp: t set_tree_join intro: pri_heap_join)
  then have "pri_heap (pri_of h') ?t"
    using pri_heap_cong [of ?t "pri_of h'" "pri_of h"] view_other(2) [OF h'(6)] \<open>e \<notin> set_tree ?t\<close> by metis
  moreover have "(se_pri y \<noteq> 0 \<longleftrightarrow> a \<in> set_tree ?t) \<and> (a \<notin> set_tree ?t \<longrightarrow> y = unlinked y)" if y: "h' a = Some y" for a y
  proof (cases "a = e")
    case True
    then show ?thesis using y h'(3,4) unlinked_fields(4) \<open>e \<notin> set_tree ?t\<close> by auto
  next
    case False
    then obtain z where z: "h a = Some z" "se_pri z = se_pri y"
      using view_other(2,3) [OF h'(6) False] y by (cases "h a") (auto simp: pri_of_def)
    then show ?thesis using sh(5) [OF z(1)] h'(7) y False set' by auto
  qed
  ultimately have "sched_tree h' s' ?t" using h'(2) inord sh(2) by (simp add: sched_tree_def)
  then show ?thesis using h' inord by blast
qed

subsection \<open>Insertion of an entry that is not in the tree\<close>

text \<open>After the entry is attached as a leaf, rotating it up restores the whole invariant.\<close>

lemma attach_settle:
  assumes "sched_tree h0 s0 t0" and "e \<notin> set_tree t0" and "same_keys (h0(e := None)) (h(e := None))"
    and "\<forall>a. a \<notin> set_tree t0 \<and> a \<noteq> e \<longrightarrow> h a = h0 a"
    and "tree_at h None (sc_root s) (plug (Node Leaf e Leaf) c)" and "plug Leaf c = t0" and "inorder t0 = A @ B"
    and "lefts c = A" and "rights c = B" and "\<forall>a \<in> set A. before h a e" and "\<forall>b \<in> set B. before h e b"
    and "h e = Some x" and "se_pri x \<noteq> 0"
  shows "\<exists>h' s' t'. rotate_loop h s e = Some (h', s') \<and> sched_tree h' s' t' \<and> same_keys h h'
    \<and> sc_earliest_wakeup s' = sc_earliest_wakeup s"
proof -
  have t0: "distinct (A @ B)" "sorted_wrt (before h0) (A @ B)" "pri_heap (pri_of h0) t0" "set_tree t0 = set A \<union> set B"
    "\<And>a x. h0 a = Some x \<Longrightarrow> (se_pri x \<noteq> 0 \<longleftrightarrow> a \<in> set_tree t0) \<and> (a \<notin> set_tree t0 \<longrightarrow> x = unlinked x)"
    using assms(1,7) set_inorder [of t0] by (auto simp: sched_tree_def)
  have e: "e \<notin> set A" "e \<notin> set B" using assms(2) t0(4) by auto
  have inord: "inorder (plug (Node Leaf e Leaf) c) = A @ e # B" using assms(8,9) by (simp add: inorder_plug)
  have "pri_heap (pri_of h) t0"
    using pri_heap_cong [of t0 "pri_of h" "pri_of h0"] view_other(2) [OF assms(3)] assms(2) t0(3) by metis
  then have "up_ok (pri_of h) Leaf e Leaf c" using assms(6) by (simp add: up_ok_def)
  then have "settled h s e (plug (Node Leaf e Leaf) c)"
    using rotate_loop_ok [OF assms(5)] inord t0(1) e by simp
  then obtain h' s' t' where h': "rotate_loop h s e = Some (h', s')" "tree_at h' None (sc_root s') t'"
    "inorder t' = A @ e # B" "pri_heap (pri_of h) t'" "same_keys h h'"
    "\<forall>a. a \<notin> set_tree (plug (Node Leaf e Leaf) c) \<longrightarrow> h' a = h a" "sc_earliest_wakeup s' = sc_earliest_wakeup s"
    using inord by (auto simp: settled_def)
  have set': "set_tree t' = insert e (set_tree t0)" using h'(3) t0(4) set_inorder [of t'] by auto
  have out: "h' a = h0 a" if "a \<notin> set_tree t'" for a
    using that h'(6) assms(4) set' inord t0(4) set_inorder [of "plug (Node Leaf e Leaf) c"] by auto
  have "sorted_wrt (before h) (A @ B)" using before_other [OF assms(3), of "A @ B"] e t0(2) by simp
  then have "sorted_wrt (before h) (A @ e # B)" using assms(10,11) by (auto simp: sorted_wrt_append)
  moreover have "(se_pri y \<noteq> 0 \<longleftrightarrow> a \<in> set_tree t') \<and> (a \<notin> set_tree t' \<longrightarrow> y = unlinked y)" if y: "h' a = Some y" for a y
  proof (cases "a \<in> set_tree t'")
    case False
    then show ?thesis using out [OF False] y t0(5) [of a y] set' by auto
  next
    case True
    have "pri_of h a = se_pri y" using same_keys_pri [OF h'(5)] y by (metis pri_of_Some)
    moreover have "pri_of h a \<noteq> 0"
    proof (cases "a = e")
      case False
      then have "a \<in> set_tree t0" "tree_at h0 None (sc_root s0) t0" using True set' assms(1) by (auto simp: sched_tree_def)
      then obtain z where z: "h0 a = Some z" "a \<in> set_tree t0" using tree_at_alloc by blast
      then show ?thesis using t0(5) [OF z(1)] view_other(2) [OF assms(3) False] by simp
    qed (use assms(12,13) in simp)
    ultimately show ?thesis using True by simp
  qed
  ultimately have "sched_tree h' s' t'"
    using h' t0(1) e same_keys_pri [OF h'(5)] before_same_keys_eq [OF h'(5)] by (auto simp: sched_tree_def)
  then show ?thesis using h' by blast
qed

lemma insert_new:
  assumes "sched_tree h s t" and "e \<notin> set_tree t" and "h e = Some x" and "lucky h (set_tree t) (r # rs) x"
  defines "h2 \<equiv> h(e \<mapsto> x\<lparr>se_pri := rand_pri r\<rparr>)"
  shows "\<exists>h3 s3 rs3 h4 s4 t4.
    (if sc_root s \<noteq> None then do { (h', rs') \<leftarrow> schedule_insert h2 s rs e (sc_root s); Some (h', s, rs') }
     else Some (h2, s\<lparr>sc_root := Some e\<rparr>, rs)) = Some (h3, s3, rs3)
    \<and> rotate_loop h3 s3 e = Some (h4, s4) \<and> sched_tree h4 s4 t4 \<and> same_keys (h(e := None)) (h4(e := None))
    \<and> (\<exists>x4. h4 e = Some x4 \<and> se_tv x4 = se_tv x \<and> se_pri x4 \<noteq> 0) \<and> sc_earliest_wakeup s4 = sc_earliest_wakeup s"
proof -
  have tr: "tree_at h None (sc_root s) t" "distinct (inorder t)" "sorted_wrt (before h) (inorder t)"
    using assms(1) by (simp_all add: sched_tree_def)
  have x: "x = unlinked x" using assms(1-3) by (auto simp: sched_tree_def)
  have tr2: "tree_at h2 None (sc_root s) t" "sorted_wrt (before h2) (inorder t)" "h2 e = Some (x\<lparr>se_pri := rand_pri r\<rparr>)"
    using tr assms(2) by (simp_all add: h2_def sorted_before_upd)
  show ?thesis
  proof (cases t)
    case Leaf
    let ?s = "s\<lparr>sc_root := Some e\<rparr>"
    have root: "sc_root s = None" using tr(1) Leaf by simp
    have "\<exists>h' s' t'. rotate_loop h2 ?s e = Some (h', s') \<and> sched_tree h' s' t' \<and> same_keys h2 h'
        \<and> sc_earliest_wakeup s' = sc_earliest_wakeup ?s"
      using Leaf tr2(3) unlinked_fields [OF x] rand_pri_pos
      by (intro attach_settle [OF assms(1,2), of h2 ?s "[]" "[]" "[]" "x\<lparr>se_pri := rand_pri r\<rparr>"]) (simp_all add: h2_def)
    then obtain h' s' t' where h': "rotate_loop h2 ?s e = Some (h', s')" "sched_tree h' s' t'" "same_keys h2 h'"
      "sc_earliest_wakeup s' = sc_earliest_wakeup s" by auto
    then show ?thesis using root same_keys_Some [OF h'(3) tr2(3)] rand_pri_pos [of r]
      by (intro exI [of _ h2] exI [of _ ?s] exI [of _ rs] exI [of _ h'] exI [of _ s'] exI [of _ t'])
        (auto simp: same_keys_def h2_def)
  next
    case (Node l a r')
    have root: "sc_root s = Some a" using tr(1) Node by auto
    have "\<not> collides h2 (set_tree t) (x\<lparr>se_pri := rand_pri r\<rparr>) \<or> lucky h2 (set_tree t) rs (x\<lparr>se_pri := rand_pri r\<rparr>)"
      using assms(2,4) by (auto simp: h2_def lucky_def collides_upd)
    then obtain p rs' where p: "p \<noteq> 0" "\<not> collides h2 (set_tree t) (x\<lparr>se_pri := p\<rparr>)"
      "schedule_insert h2 s rs e (sc_root s) = schedule_insert (h2(e \<mapsto> x\<lparr>se_pri := p\<rparr>)) s rs' e (sc_root s)"
      using insert_retry [OF tr2(1) assms(2) tr2(2,3), of rs] rand_pri_pos [of r] by auto
    define h5 where "h5 = h(e \<mapsto> x\<lparr>se_pri := p\<rparr>)"
    have h5: "h2(e \<mapsto> x\<lparr>se_pri := p\<rparr>) = h5" "tree_at h5 None (sc_root s) (plug t [])" "sorted_wrt (before h5) (inorder t)"
      "\<not> collides h5 (set_tree t) (x\<lparr>se_pri := p\<rparr>)" "h5 e = Some (x\<lparr>se_pri := p\<rparr>)"
      using tr p(2) assms(2) by (simp_all add: h5_def h2_def sorted_before_upd collides_upd)
    then have "attached h5 s rs' e t []"
      using tr(2) assms(2) Node unlinked_fields [OF x] by (intro insert_attach [OF h5(2), of e "x\<lparr>se_pri := p\<rparr>"]) simp_all
    then obtain h3 c A B where h3: "schedule_insert h5 s rs' e (sc_root s) = Some (h3, rs')"
      "tree_at h3 None (sc_root s) (plug (Node Leaf e Leaf) c)" "plug Leaf c = t" "inorder t = A @ B" "lefts c = A" "rights c = B"
      "\<forall>a \<in> set A. before h5 a e" "\<forall>b \<in> set B. before h5 e b" "same_keys h5 h3" "\<forall>a. a \<notin> set_tree t \<and> a \<noteq> e \<longrightarrow> h3 a = h5 a"
      using root Node by (auto simp: attached_def)
    obtain x3 where x3: "h3 e = Some x3" "se_tv x3 = se_tv x" "se_pri x3 = p" using same_keys_Some [OF h3(9) h5(5)] by auto
    have keys: "same_keys (h(e := None)) (h3(e := None))" using h3(9) by (simp add: same_keys_def h5_def)
    have "\<exists>h' s' t'. rotate_loop h3 s e = Some (h', s') \<and> sched_tree h' s' t' \<and> same_keys h3 h' \<and> sc_earliest_wakeup s' = sc_earliest_wakeup s"
      using h3 keys p(1) x3 before_same_keys_eq [OF h3(9)] by (intro attach_settle [OF assms(1,2), of h3 s c A B x3]) (simp_all add: h5_def)
    then obtain h' s' t' where h': "rotate_loop h3 s e = Some (h', s')" "sched_tree h' s' t'" "same_keys h3 h'"
      "sc_earliest_wakeup s' = sc_earliest_wakeup s" by blast
    have "same_keys (h3(e := None)) (h'(e := None))" using h'(3) by (simp add: same_keys_def)
    then have "same_keys (h(e := None)) (h'(e := None))" by (rule same_keys_trans [OF keys])
    then show ?thesis using root p(1,3) h5(1) h3(1) h' x3 same_keys_Some [OF h'(3) x3(1)]
      by (intro exI [of _ h3] exI [of _ s] exI [of _ rs'] exI [of _ h'] exI [of _ s'] exI [of _ t']) auto
  qed
qed

lemma sched_view_Some: "h a = Some x \<Longrightarrow> sched_view h a = (if se_pri x \<noteq> 0 then Some (se_tv x) else None)"
  by (simp add: sched_view_def)

lemma collides_key:
  "collides h A x \<longleftrightarrow> (\<exists>a \<in> A. map_option (\<lambda>y. (se_tv y, se_pri y)) (h a) = Some (se_tv x, se_pri x))"
  unfolding collides_def compare_eq_iff by (intro bex_cong refl) auto

lemma collides_other:
  assumes "same_keys (h(e := None)) (h1(e := None))" and "se_tv x1 = se_tv x" and "A1 = A" and "e \<notin> A"
  shows "collides h1 A1 (x1\<lparr>se_pri := p\<rparr>) = collides h A (x\<lparr>se_pri := p\<rparr>)"
proof -
  have "map_option (\<lambda>y. (se_tv y, se_pri y)) (h1 a) = map_option (\<lambda>y. (se_tv y, se_pri y)) (h a)" if "a \<in> A" for a
    using assms(1,4) that by (auto simp: same_keys_def split: if_splits)
  then show ?thesis using assms(2,3) by (auto simp: collides_key simp del: map_option_eq_Some)
qed

lemma add_modify_law:
  assumes "sched_shape h s t e" and "h e = Some x" and "lucky h (set_tree t - {e}) rs x"
  shows "\<exists>h' s' rs' t'. schedule_add_modify h s rs e = Some (h', s', rs') \<and> sched_tree h' s' t'
    \<and> sched_view h' = (sched_view h)(e \<mapsto> se_tv x) \<and> dom h' = dom h"
proof -
  obtain h1 s1 t1 x1 where h1: "schedule_remove_node h s e = Some (h1, s1)" "sched_tree h1 s1 t1"
    "inorder t1 = filter (\<lambda>a. a \<noteq> e) (inorder t)" "h1 e = Some x1" "x1 = unlinked x1" "se_tv x1 = se_tv x"
    "same_keys (h(e := None)) (h1(e := None))"
    using remove_node_law [OF assms(1,2)] by blast
  have set1: "set_tree t1 = set_tree t - {e}" using h1(3) set_inorder [of t1] set_inorder [of t] by auto
  have first: "(if IN_TREE x then schedule_remove_node h s e else Some (h, s)) = Some (h1, s1)"
  proof (cases "se_pri x = 0")
    case True
    then have "e \<notin> set_tree t" using assms(1,2) by (auto simp: sched_shape_def)
    then have "schedule_remove_node h s e = Some (h, s)"
      using remove_node_absent [OF sched_shape_tree [OF assms(1)] assms(2)] by blast
    then show ?thesis using True h1(1) by (simp add: IN_TREE_def)
  qed (simp add: IN_TREE_def h1(1))
  obtain r rs0 where rs: "rs = r # rs0" using assms(3) by (cases rs) (auto simp: lucky_def)
  have same: "collides h1 (set_tree t1) (x1\<lparr>se_pri := p\<rparr>) = collides h (set_tree t - {e}) (x\<lparr>se_pri := p\<rparr>)" for p
    using h1(6,7) set1 by (intro collides_other [of h e]) simp_all
  have lucky1: "lucky h1 (set_tree t1) (r # rs0) x1" using assms(3) same rs by (auto simp: lucky_def)
  have e1: "e \<notin> set_tree t1" using set1 by simp
  let ?h2 = "h1(e \<mapsto> x1\<lparr>se_pri := rand_pri r\<rparr>)"
  obtain h3 s3 rs3 h4 s4 t4 x4 where h4:
    "(if sc_root s1 \<noteq> None then do { (h', rs') \<leftarrow> schedule_insert ?h2 s1 rs0 e (sc_root s1); Some (h', s1, rs') }
      else Some (?h2, s1\<lparr>sc_root := Some e\<rparr>, rs0)) = Some (h3, s3, rs3)"
    "rotate_loop h3 s3 e = Some (h4, s4)" "sched_tree h4 s4 t4" "same_keys (h1(e := None)) (h4(e := None))"
    "h4 e = Some x4" "se_tv x4 = se_tv x1" "se_pri x4 \<noteq> 0"
    using insert_new [OF h1(2) e1 h1(4) lucky1] by blast
  have "schedule_set_pri h1 rs e = Some (?h2, rs0)" using rs h1(4) by (simp add: schedule_set_pri_def hmod_Some)
  then have run: "schedule_add_modify h s rs e = Some (h4, s4, rs3)"
    using assms(2) first h4(1,2) by (simp add: schedule_add_modify_def del: bind_Some_iff)
  have keys: "same_keys (h(e := None)) (h4(e := None))" using same_keys_trans [OF h1(7) h4(4)] .
  have "sched_view h4 = (sched_view h)(e \<mapsto> se_tv x)"
    using view_other(1) [OF keys] h4(5-7) h1(6) by (intro ext) (simp add: sched_view_Some)
  moreover have "dom h4 = dom h"
  proof -
    have "(h4 a = None) = (h a = None)" for a using view_other(3) [OF keys, of a] h4(5) assms(2) by (cases "a = e") simp_all
    then show ?thesis by (auto simp: dom_def)
  qed
  ultimately show ?thesis using run h4(3) by blast
qed

lemma retime_shape:
  assumes "sched_tree h s t" and "h e = Some x"
  shows "sched_shape (h(e \<mapsto> x\<lparr>se_tv := tv\<rparr>)) s t e"
proof -
  let ?h = "h(e \<mapsto> x\<lparr>se_tv := tv\<rparr>)"
  have "tree_at ?h par ptr t' = tree_at h par ptr t'" for par ptr t'
    using assms(2) by (induction t' arbitrary: par ptr) auto
  moreover have "pri_of ?h = pri_of h" using assms(2) by (auto simp: fun_eq_iff pri_of_def)
  moreover have "sorted_wrt (before ?h) (filter (\<lambda>a. a \<noteq> e) (inorder t))"
    using assms(1) by (simp add: sorted_before_upd sched_tree_def sorted_wrt_filter)
  moreover have "(x\<lparr>se_tv := tv\<rparr> = unlinked (x\<lparr>se_tv := tv\<rparr>)) = (x = unlinked x)" by (cases x) (simp add: unlinked_def)
  ultimately show ?thesis using assms by (auto simp: sched_tree_def sched_shape_def)
qed

lemma lucky_retime:
  assumes "e \<notin> A"
  shows "lucky (h(e := v)) A rs x = lucky h A rs x"
  using collides_upd [OF assms] by (simp add: lucky_def)

text \<open>The earliest entry is the leftmost one.\<close>

lemma find_least_ok: "tree_at h par (Some p) t \<Longrightarrow> \<exists>a as. inorder t = a # as \<and> find_least_loop h p = Some a"
proof (induction t arbitrary: par p)
  case (Node l a r)
  then obtain x where x: "p = a" "h a = Some x" "tree_at h (Some a) (se_lt x) l" by auto
  show ?case
  proof (cases l)
    case Leaf
    then have "find_least_loop h p = Some a" using x by (subst find_least_loop.simps) simp
    then show ?thesis using Leaf by simp
  next
    case (Node l1 b r1)
    then have lt: "se_lt x = Some b" using x(3) by simp
    then obtain a1 as where "inorder l = a1 # as" "find_least_loop h b = Some a1" using Node.IH(1) [of "Some a" b] x(3) by auto
    moreover have "find_least_loop h p = find_least_loop h b" using x lt by (subst find_least_loop.simps) simp
    ultimately show ?thesis by simp
  qed
qed simp

lemma schedule_find_least_ok:
  assumes "tree_at h None root t"
  shows "schedule_find_least h root = Some (case inorder t of [] \<Rightarrow> None | a # _ \<Rightarrow> Some a)"
proof (cases root)
  case None
  then show ?thesis using assms by (simp add: schedule_find_least_def tree_at_None)
next
  case (Some p)
  then show ?thesis using find_least_ok [of h None p t] assms by (auto simp: schedule_find_least_def)
qed

lemma sched_view_tree:
  assumes "sched_tree h s t"
  shows "sched_view h a = (if a \<in> set_tree t then map_option se_tv (h a) else None)"
proof (cases "h a")
  case None
  then show ?thesis by (simp add: sched_view_def)
next
  case (Some x)
  then show ?thesis using assms by (auto simp: sched_view_def sched_tree_def)
qed

lemma first_is_earliest:
  assumes "sched_tree h s t" and "inorder t = a # as"
  obtains x where "h a = Some x" and "sched_view h a = Some (se_tv x)"
    and "\<forall>b tv. sched_view h b = Some tv \<longrightarrow> tv_le (se_tv x) tv"
proof -
  have a: "a \<in> set_tree t" using assms(2) by (metis list.set_intros(1) set_inorder)
  then obtain x where x: "h a = Some x" using assms(1) tree_at_alloc unfolding sched_tree_def by blast
  have "tv_le (se_tv x) tv" if "sched_view h b = Some tv" for b tv
  proof -
    have b: "b \<in> set_tree t" "map_option se_tv (h b) = Some tv" using that sched_view_tree [OF assms(1), of b] by (auto split: if_splits)
    have "before h a b" if "b \<noteq> a" using assms b(1) that set_inorder [of t] by (auto simp: sched_tree_def)
    then show ?thesis using b(2) x by (cases "b = a") (auto simp: before_def compare_lt_iff tv_lt_def tv_le_def split: if_splits)
  qed
  then show thesis using that [OF x] sched_view_tree [OF assms(1), of a] a x by simp
qed

subsection \<open>The public operations\<close>

lemma dom_sched_view:
  assumes "sched_tree h s t"
  shows "dom (sched_view h) = set_tree t"
proof -
  have "\<exists>x. h a = Some x" if "a \<in> set_tree t" for a using that assms tree_at_alloc unfolding sched_tree_def by blast
  then show ?thesis using sched_view_tree [OF assms] by (fastforce simp: dom_def split: if_splits)
qed

lemma sched_tree_cache: "sched_tree h (s\<lparr>sc_earliest_wakeup := c\<rparr>) t = sched_tree h s t"
  by (simp add: sched_tree_def)

lemma schedule_add_entry_law:
  assumes "sched_inv h s" and "h e = Some x" and "lucky h (dom (sched_view h) - {e}) rs (x\<lparr>se_tv := tv\<rparr>)"
    and "se_pri x = 0 \<or> sigma = 0 \<or> \<not> tv_within_sigma tv (se_tv x) sigma"
  shows "\<exists>h' s' rs'. schedule_add_entry h s rs e tv sigma = Some (h', s', rs') \<and> sched_inv h' s'
    \<and> sched_view h' = (sched_view h)(e \<mapsto> tv) \<and> dom h' = dom h"
proof -
  obtain t where t: "sched_tree h s t" using assms(1) by (auto simp: sched_inv_def)
  let ?h = "h(e \<mapsto> x\<lparr>se_tv := tv\<rparr>)"
  have "lucky ?h (set_tree t - {e}) rs (x\<lparr>se_tv := tv\<rparr>)"
    using assms(3) dom_sched_view [OF t] by (simp add: lucky_retime)
  then obtain h' s' rs' t' where h': "schedule_add_modify ?h s rs e = Some (h', s', rs')" "sched_tree h' s' t'"
    "sched_view h' = (sched_view ?h)(e \<mapsto> tv)" "dom h' = dom ?h"
    using add_modify_law [OF retime_shape [OF t assms(2), of tv], of "x\<lparr>se_tv := tv\<rparr>" rs] by auto
  have "schedule_add_entry h s rs e tv sigma = Some (h', s'\<lparr>sc_earliest_wakeup := None\<rparr>, rs')"
    using assms(2,4) h'(1) by (auto simp: schedule_add_entry_def IN_TREE_def hmod_Some simp del: bind_Some_iff)
  moreover have "sched_inv h' (s'\<lparr>sc_earliest_wakeup := None\<rparr>)" using h'(2) by (auto simp: sched_inv_def sched_tree_cache)
  moreover have "sched_view h' = (sched_view h)(e \<mapsto> tv)" unfolding h'(3) by (auto simp: fun_eq_iff sched_view_def)
  moreover have "dom h' = dom h" using h'(4) assms(2) by auto
  ultimately show ?thesis by blast
qed

lemma schedule_remove_entry_law:
  assumes "sched_inv h s" and "h e = Some x"
  shows "\<exists>h' s'. schedule_remove_entry h s e = Some (h', s') \<and> sched_inv h' s' \<and> sched_view h' = (sched_view h)(e := None) \<and> dom h' = dom h"
proof -
  obtain t where "sched_tree h s t" using assms(1) by (auto simp: sched_inv_def)
  then have t: "sched_shape h (s\<lparr>sc_earliest_wakeup := None\<rparr>) t e" using sched_tree_shape sched_tree_cache by blast
  obtain h' s' t' x' where h': "schedule_remove_node h (s\<lparr>sc_earliest_wakeup := None\<rparr>) e = Some (h', s')" "sched_tree h' s' t'"
    "h' e = Some x'" "x' = unlinked x'" "same_keys (h(e := None)) (h'(e := None))" "sc_earliest_wakeup s' = None"
    using remove_node_law [OF t assms(2)] by auto
  have "sched_view h' = (sched_view h)(e := None)"
    using view_other(1) [OF h'(5)] h'(3) unlinked_fields(4) [OF h'(4)] by (intro ext) (simp add: sched_view_Some)
  moreover have "dom h' = dom h"
  proof -
    have "(h' a = None) = (h a = None)" for a using view_other(3) [OF h'(5), of a] h'(3) assms(2) by (cases "a = e") simp_all
    then show ?thesis by (auto simp: dom_def)
  qed
  ultimately show ?thesis using h' by (auto simp: schedule_remove_entry_def sched_inv_def)
qed

lemma schedule_get_earliest_law:
  assumes "sched_inv h s"
  shows "\<exists>r w s'. schedule_get_earliest_wakeup h s w0 = Some (r, w, s') \<and> sched_inv h s'
    \<and> (case r of None \<Rightarrow> dom (sched_view h) = {}
       | Some a \<Rightarrow> sched_view h a = Some w \<and> (\<forall>b tv. sched_view h b = Some tv \<longrightarrow> tv_le w tv))"
proof -
  obtain t where t: "sched_tree h s t"
    and cache: "sc_earliest_wakeup s = None \<or> (\<exists>a as. inorder t = a # as \<and> sc_earliest_wakeup s = Some a)"
    using assms by (auto simp: sched_inv_def)
  have least: "schedule_find_least h (sc_root s) = Some (case inorder t of [] \<Rightarrow> None | a # _ \<Rightarrow> Some a)"
    using schedule_find_least_ok t by (simp add: sched_tree_def)
  show ?thesis
  proof (cases "inorder t")
    case Nil
    then have "t = Leaf" by (cases t) auto
    then have "dom (sched_view h) = {}" using dom_sched_view [OF t] by simp
    then show ?thesis using Nil least cache assms
      by (intro exI [of _ None] exI [of _ w0] exI [of _ "s\<lparr>sc_earliest_wakeup := None\<rparr>"])
        (simp add: schedule_get_earliest_wakeup_def, metis sched_inv_def sched_tree_cache schedule.select_convs(1) schedule.surjective schedule.update_convs(1) t)
  next
    case (Cons a as)
    obtain x where x: "h a = Some x" "sched_view h a = Some (se_tv x)" "\<forall>b tv. sched_view h b = Some tv \<longrightarrow> tv_le (se_tv x) tv"
      by (rule first_is_earliest [OF t Cons])
    let ?s = "s\<lparr>sc_earliest_wakeup := Some a\<rparr>"
    have "?s = s" if "sc_earliest_wakeup s = Some a" using that by (cases s) simp
    then have "schedule_get_earliest_wakeup h s w0 = Some (Some a, se_tv x, ?s)"
      using least cache Cons x(1) by (auto simp: schedule_get_earliest_wakeup_def simp del: bind_Some_iff)
    moreover have "sched_inv h ?s" using t Cons by (auto simp: sched_inv_def sched_tree_cache)
    ultimately show ?thesis using x by (intro exI [of _ "Some a"] exI [of _ "se_tv x"] exI [of _ ?s]) simp
  qed
qed

type_synonym squeue = "sheap \<times> schedule \<times> u32 list"

definition sq_inv :: "squeue \<Rightarrow> bool" where
  "sq_inv = (\<lambda>(h, s, rs). sched_inv h s)"

definition sq_view :: "squeue \<Rightarrow> nat \<Rightarrow> timeval option" where
  "sq_view = (\<lambda>(h, s, rs). sched_view h)"

definition sq_known :: "squeue \<Rightarrow> nat \<Rightarrow> bool" where
  "sq_known = (\<lambda>(h, s, rs) a. h a \<noteq> None)"

definition sq_ready :: "squeue \<Rightarrow> nat \<Rightarrow> timeval \<Rightarrow> bool" where
  "sq_ready = (\<lambda>(h, s, rs) a tv. \<exists>x. h a = Some x \<and> lucky h (dom (sched_view h) - {a}) rs (x\<lparr>se_tv := tv\<rparr>))"

definition sq_add :: "squeue \<Rightarrow> nat \<Rightarrow> timeval \<Rightarrow> squeue option" where
  "sq_add = (\<lambda>(h, s, rs) a tv. schedule_add_entry h s rs a tv 0)"

definition sq_remove :: "squeue \<Rightarrow> nat \<Rightarrow> squeue option" where
  "sq_remove = (\<lambda>(h, s, rs) a. map_option (\<lambda>(h', s'). (h', s', rs)) (schedule_remove_entry h s a))"

definition sq_earliest :: "squeue \<Rightarrow> ((nat \<times> timeval) option \<times> squeue) option" where
  "sq_earliest = (\<lambda>(h, s, rs). map_option (\<lambda>(r, w, s'). (map_option (\<lambda>a. (a, w)) r, h, s', rs))
     (schedule_get_earliest_wakeup h s tv_clear))"

lemmas sq_defs = sq_inv_def sq_view_def sq_known_def sq_ready_def sq_add_def sq_remove_def sq_earliest_def

interpretation sq: event_queue sq_inv sq_view sq_known sq_ready sq_add sq_remove sq_earliest
proof
  fix q :: squeue and a tv
  obtain h s rs where q: "q = (h, s, rs)" by (cases q)
  assume inv: "sq_inv q"
  then have i: "sched_inv h s" by (simp add: q sq_defs)
  then obtain t where t: "sched_tree h s t" by (auto simp: sched_inv_def)
  show "finite (dom (sq_view q))" using dom_sched_view [OF t] by (simp add: q sq_defs)
  show "sq_known q a" if "sq_view q a \<noteq> None" using that by (auto simp: q sq_defs sched_view_def split: option.splits)
  show "\<exists>q'. sq_add q a tv = Some q' \<and> sq_inv q' \<and> sq_view q' = (sq_view q)(a \<mapsto> tv)" if "sq_known q a" "sq_ready q a tv"
    using that schedule_add_entry_law [OF i, of a _ rs tv 0] by (auto simp: q sq_defs)
  show "\<exists>q'. sq_remove q a = Some q' \<and> sq_inv q' \<and> sq_view q' = (sq_view q)(a := None)" if "sq_known q a"
    using that schedule_remove_entry_law [OF i, of a] by (auto simp: q sq_defs)
  obtain r w s' where "schedule_get_earliest_wakeup h s tv_clear = Some (r, w, s')" "sched_inv h s'"
    "case r of None \<Rightarrow> dom (sched_view h) = {} | Some a \<Rightarrow> sched_view h a = Some w \<and> (\<forall>b tv. sched_view h b = Some tv \<longrightarrow> tv_le w tv)"
    using schedule_get_earliest_law [OF i] by blast
  then show "\<exists>r q'. sq_earliest q = Some (r, q') \<and> sq_inv q' \<and> sq_view q' = sq_view q
      \<and> (case r of None \<Rightarrow> dom (sq_view q) = {}
         | Some (a, tv) \<Rightarrow> sq_view q a = Some tv \<and> (\<forall>b tv'. sq_view q b = Some tv' \<longrightarrow> tv_le tv tv'))"
    by (intro exI [of _ "map_option (\<lambda>a. (a, w)) r"] exI [of _ "(h, s', rs)"]) (auto simp: q sq_defs split: option.splits)
qed

text \<open>The steps a program can take with a schedule.\<close>

inductive sched_step :: "sheap \<times> schedule \<Rightarrow> sheap \<times> schedule \<Rightarrow> bool" where
  add: "h e = Some x \<Longrightarrow> lucky h (dom (sched_view h) - {e}) rs (x\<lparr>se_tv := tv\<rparr>) \<Longrightarrow>
    schedule_add_entry h s rs e tv sigma = Some (h', s', rs') \<Longrightarrow> sched_step (h, s) (h', s')"
| remove: "h e = Some x \<Longrightarrow> schedule_remove_entry h s e = Some (h', s') \<Longrightarrow> sched_step (h, s) (h', s')"
| earliest: "schedule_get_earliest_wakeup h s w0 = Some (r, w, s') \<Longrightarrow> sched_step (h, s) (h, s')"

inductive_cases sched_stepE: "sched_step (h, s) (h', s')"

lemma add_entry_within_sigma:
  assumes "h e = Some x" and "se_pri x \<noteq> 0" and "sigma \<noteq> 0" and "tv_within_sigma tv (se_tv x) sigma"
  shows "schedule_add_entry h s rs e tv sigma = Some (h, s, rs)"
  using assms by (simp add: schedule_add_entry_def IN_TREE_def)

lemma sched_step_inv: "sched_step (h, s) (h', s') \<Longrightarrow> sched_inv h s \<Longrightarrow> sched_inv h' s'"
proof (erule sched_stepE)
  fix e x rs tv sigma rs'
  assume *: "sched_inv h s" "h e = Some x" "lucky h (dom (sched_view h) - {e}) rs (x\<lparr>se_tv := tv\<rparr>)"
    "schedule_add_entry h s rs e tv sigma = Some (h', s', rs')"
  show "sched_inv h' s'"
  proof (cases "se_pri x = 0 \<or> sigma = 0 \<or> \<not> tv_within_sigma tv (se_tv x) sigma")
    case True
    then show ?thesis using schedule_add_entry_law [OF *(1-3) True] *(4) by auto
  next
    case False
    then show ?thesis using add_entry_within_sigma [of h e x sigma tv s rs] * by simp
  qed
next
  fix e x
  assume "sched_inv h s" "h e = Some x" "schedule_remove_entry h s e = Some (h', s')"
  then show "sched_inv h' s'" using schedule_remove_entry_law [of h s e x] by auto
next
  fix w0 r w
  assume "sched_inv h s" "h' = h" "schedule_get_earliest_wakeup h s w0 = Some (r, w, s')"
  then show "sched_inv h' s'" using schedule_get_earliest_law [of h s w0] by auto
qed

lemma sched_inv_init: "\<forall>a x. h a = Some x \<longrightarrow> x = unlinked x \<Longrightarrow> sched_inv h schedule_init"
  using unlinked_fields(4)
  by (auto simp: sched_inv_def sched_tree_def schedule_init_def intro!: exI [of _ Leaf])

subsection \<open>Properties\<close>

definition fresh_entry :: schedule_entry where
  "fresh_entry = \<lparr>se_tv = \<lparr>tv_sec = 0, tv_usec = 0\<rparr>, se_pri = 0, se_parent = None, se_lt = None, se_gt = None\<rparr>"

definition two_entries :: sheap where
  "two_entries = [1 \<mapsto> fresh_entry, 2 \<mapsto> fresh_entry]"

lemma two_entries_unlinked: "two_entries a = Some x \<Longrightarrow> x = unlinked x"
  by (auto simp: two_entries_def fresh_entry_def unlinked_def split: if_splits)

lemma two_entries_inv: "sched_inv two_entries schedule_init"
  using two_entries_unlinked by (intro sched_inv_init) auto

lemma two_entries_view: "sched_view two_entries = Map.empty"
  by (auto simp: fun_eq_iff sched_view_def two_entries_def fresh_entry_def)

lemma two_entries_1: "two_entries 1 = Some fresh_entry"
  by (simp add: two_entries_def)

lemma two_entries_lucky:
  "lucky two_entries (dom (sched_view two_entries) - {1}) [7] (fresh_entry\<lparr>se_tv := \<lparr>tv_sec = 5, tv_usec = 0\<rparr>\<rparr>)"
  by (simp add: lucky_def collides_def two_entries_view)

text \<open>
  C23. The treap invariant. From an empty schedule and cleared entries, whatever entries are added, moved,
  removed and asked for, the entries in the tree are linked consistently in both directions, ordered
  by time (and priority) from left to right and by priority from the root down, an entry is in the tree
  exactly if its priority is not 0, and a cached earliest entry is the leftmost one.
\<close>

theorem schedule_treap_invariant:
  assumes "\<forall>a x. h0 a = Some x \<longrightarrow> x = unlinked x" and "sched_step\<^sup>*\<^sup>* (h0, schedule_init) (h, s)"
  shows "\<exists>t. tree_at h None (sc_root s) t \<and> distinct (inorder t) \<and> sorted_wrt (before h) (inorder t) \<and> pri_heap (pri_of h) t
    \<and> (\<forall>a x. h a = Some x \<longrightarrow> (se_pri x \<noteq> 0 \<longleftrightarrow> a \<in> set_tree t))
    \<and> (sc_earliest_wakeup s = None \<or> (\<exists>a as. inorder t = a # as \<and> sc_earliest_wakeup s = Some a))"
proof -
  have "sched_inv (fst q) (snd q)" if "sched_step\<^sup>*\<^sup>* (h0, schedule_init) q" for q
    using that
  proof (induction rule: rtranclp_induct)
    case base
    then show ?case using sched_inv_init [OF assms(1)] by simp
  next
    case (step q q')
    then show ?case using sched_step_inv [of "fst q" "snd q" "fst q'" "snd q'"] by simp
  qed
  from this [OF assms(2)] show ?thesis by (auto simp: sched_inv_def sched_tree_def)
qed

theorem schedule_treap_invariant_witness:
  "\<exists>h (s :: schedule) t. sched_view h = [1 \<mapsto> \<lparr>tv_sec = 5, tv_usec = 0\<rparr>] \<and> tree_at h None (sc_root s) t \<and> distinct (inorder t)
    \<and> sorted_wrt (before h) (inorder t) \<and> pri_heap (pri_of h) t"
proof -
  obtain h s rs where h: "schedule_add_entry two_entries schedule_init [7] 1 \<lparr>tv_sec = 5, tv_usec = 0\<rparr> 0 = Some (h, s, rs)"
    "sched_view h = [1 \<mapsto> \<lparr>tv_sec = 5, tv_usec = 0\<rparr>]"
    using schedule_add_entry_law [OF two_entries_inv two_entries_1 two_entries_lucky, of 0] two_entries_view by auto
  then have "sched_step\<^sup>*\<^sup>* (two_entries, schedule_init) (h, s)"
    using sched_step.add [OF two_entries_1 two_entries_lucky] by blast
  then obtain t where "tree_at h None (sc_root s) t" "distinct (inorder t)" "sorted_wrt (before h) (inorder t)" "pri_heap (pri_of h) t"
    using schedule_treap_invariant [of two_entries h s] two_entries_unlinked by auto
  then show ?thesis using h(2) by blast
qed

text \<open>
  C24. Adding terminates and does what it says. If one of the random values to come gives the entry a
  priority that no entry with the same time has, \<open>schedule_add_entry\<close> returns: the entry, new
  or moved, has the new time and every other entry keeps its own, unless it is in the tree and the new time
  is within sigma of the old one, when nothing changes.
\<close>

theorem schedule_add_entry_correct:
  assumes "sched_inv h s" and "h e = Some x" and "lucky h (dom (sched_view h) - {e}) rs (x\<lparr>se_tv := tv\<rparr>)"
  shows "\<exists>h' s' rs'. schedule_add_entry h s rs e tv sigma = Some (h', s', rs') \<and> sched_inv h' s'
    \<and> sched_view h' = (if se_pri x \<noteq> 0 \<and> sigma \<noteq> 0 \<and> tv_within_sigma tv (se_tv x) sigma
        then sched_view h else (sched_view h)(e \<mapsto> tv))"
proof (cases "se_pri x = 0 \<or> sigma = 0 \<or> \<not> tv_within_sigma tv (se_tv x) sigma")
  case True
  then show ?thesis using schedule_add_entry_law [OF assms True] by auto
next
  case False
  then show ?thesis using add_entry_within_sigma [of h e x sigma tv s rs] assms(1,2) by auto
qed

theorem schedule_add_entry_correct_witness:
  "\<exists>h' s' rs'. schedule_add_entry two_entries schedule_init [7] 1 \<lparr>tv_sec = 5, tv_usec = 0\<rparr> 0 = Some (h', s', rs')
    \<and> sched_inv h' s' \<and> sched_view h' = [1 \<mapsto> \<lparr>tv_sec = 5, tv_usec = 0\<rparr>]"
  using schedule_add_entry_correct [OF two_entries_inv two_entries_1 two_entries_lucky, of 0] two_entries_view by auto

text \<open>
  C25. Events are served in time order. Asking for the earliest entry and removing it until none is left never
  faults, delivers every scheduled entry exactly once with its time, in non-decreasing order of
  time, and leaves the schedule empty.
\<close>

theorem schedule_serves_in_order:
  assumes "sched_inv h s" and "card (dom (sched_view h)) < n"
  shows "\<exists>es h' s'. serve sq_earliest sq_remove n (h, s, rs) = Some (es, h', s', rs) \<and> sched_view h = map_of es
    \<and> distinct (map fst es) \<and> sorted_wrt (\<lambda>x y. tv_le (snd x) (snd y)) es \<and> sched_view h' = Map.empty \<and> sched_inv h' s'"
proof -
  have keep: "snd (snd q') = snd (snd q)" if "serve sq_earliest sq_remove n q = Some (es, q')" for n q es q'
    using that
    by (induction n arbitrary: q es) (fastforce simp: sq_earliest_def sq_remove_def split: option.splits prod.splits)+
  obtain es q where q: "serve sq_earliest sq_remove n (h, s, rs) = Some (es, q)" "sq_inv q" "sq_view q = Map.empty"
    "sq_view (h, s, rs) = map_of es" "distinct (map fst es)" "sorted_wrt (\<lambda>x y. tv_le (snd x) (snd y)) es"
    using sq.serve_sorted [of "(h, s, rs)" n] assms by (auto simp: sq_inv_def sq_view_def)
  obtain h' s' rs' where "q = (h', s', rs')" by (cases q)
  then show ?thesis using q keep [OF q(1)] by (auto simp: sq_inv_def sq_view_def)
qed

theorem schedule_serves_in_order_witness:
  "\<exists>h s es h' s'. sched_view h = [1 \<mapsto> \<lparr>tv_sec = 5, tv_usec = 0\<rparr>]
    \<and> serve sq_earliest sq_remove 2 (h, s, [3]) = Some (es, h', s', [3]) \<and> sched_view h = map_of es"
proof -
  obtain h s rs where h: "sched_inv h s" "sched_view h = [1 \<mapsto> \<lparr>tv_sec = 5, tv_usec = 0\<rparr>]"
    using schedule_add_entry_law [OF two_entries_inv two_entries_1 two_entries_lucky, of 0] two_entries_view by auto
  then have "card (dom (sched_view h)) < 2" by simp
  then obtain es h' s' where "serve sq_earliest sq_remove 2 (h, s, [3]) = Some (es, h', s', [3])" "sched_view h = map_of es"
    using schedule_serves_in_order [OF h(1), of 2 "[3]"] by auto
  then show ?thesis using h(2) by blast
qed

end
