(* ===== verification/Interval.thy ===== *)
theory Interval
  imports Otime
begin

text \<open>
  The timers of \<^verbatim>\<open>interval.h\<close> and \<^verbatim>\<open>interval.c\<close>: the filter that limits the calls of an expensive
  function, the recurring timeouts of the main loop and the microsecond stopwatch. The global \<^verbatim>\<open>now\<close>
  is an argument. The results are that a wakeup announced by \<open>interval_schedule_wakeup\<close> is the
  moment the test becomes true, and that a recurring timeout fires once per period, as soon as
  the period is over.
\<close>

subsection \<open>The interval filter\<close>

record interval =
  iv_refresh :: int
  iv_horizon :: int
  iv_future_trigger :: time_t
  iv_last_action :: time_t
  iv_last_test_true :: time_t

definition interval_init :: "int \<Rightarrow> int \<Rightarrow> interval" where
  "interval_init horizon refresh = \<lparr>iv_refresh = refresh, iv_horizon = horizon,
     iv_future_trigger = 0, iv_last_action = 0, iv_last_test_true = 0\<rparr>"

definition interval_test :: "time_t \<Rightarrow> interval \<Rightarrow> bool \<times> interval" where
  "interval_test local_now iv =
     (let (trigger, iv1) =
            (if iv_future_trigger iv \<noteq> 0 \<and> local_now \<ge> iv_future_trigger iv
             then (True, iv\<lparr>iv_future_trigger := 0\<rparr>) else (False, iv))
      in if iv_last_action iv1 + iv_horizon iv1 > local_now
            \<or> iv_last_test_true iv1 + iv_refresh iv1 \<le> local_now \<or> trigger
         then (True, iv1\<lparr>iv_last_test_true := local_now\<rparr>)
         else (False, iv1))"

definition interval_schedule_wakeup :: "time_t \<Rightarrow> interval \<Rightarrow> int \<Rightarrow> int" where
  "interval_schedule_wakeup local_now iv wakeup =
     (let wakeup1 = interval_earliest_wakeup wakeup (iv_last_test_true iv + iv_refresh iv) local_now
      in interval_earliest_wakeup wakeup1 (iv_future_trigger iv) local_now)"

definition interval_future_trigger :: "time_t \<Rightarrow> interval \<Rightarrow> int \<Rightarrow> interval" where
  "interval_future_trigger now iv wakeup =
     (if wakeup \<noteq> 0 then iv\<lparr>iv_future_trigger := now + wakeup\<rparr> else iv)"

definition interval_action :: "time_t \<Rightarrow> interval \<Rightarrow> interval" where
  "interval_action now iv = iv\<lparr>iv_last_action := now\<rparr>"

subsection \<open>Recurring timeouts\<close>

record event_timeout =
  et_defined :: bool
  et_n :: int
  et_last :: time_t

definition event_timeout_defined :: "event_timeout \<Rightarrow> bool" where
  "event_timeout_defined et = et_defined et"

definition event_timeout_clear :: "event_timeout \<Rightarrow> event_timeout" where
  "event_timeout_clear et = et\<lparr>et_defined := False, et_n := 0, et_last := 0\<rparr>"

definition event_timeout_init :: "int \<Rightarrow> time_t \<Rightarrow> event_timeout" where
  "event_timeout_init n start = \<lparr>et_defined = True, et_n = (if n \<ge> 0 then n else 0), et_last = start\<rparr>"

definition event_timeout_reset :: "time_t \<Rightarrow> event_timeout \<Rightarrow> event_timeout" where
  "event_timeout_reset now et = (if et_defined et then et\<lparr>et_last := now\<rparr> else et)"

definition event_timeout_modify_wakeup :: "event_timeout \<Rightarrow> int \<Rightarrow> event_timeout" where
  "event_timeout_modify_wakeup et n =
     (if et_defined et then et\<lparr>et_n := (if n \<ge> 0 then n else 0)\<rparr> else et)"

definition event_timeout_remaining :: "time_t \<Rightarrow> event_timeout \<Rightarrow> int" where
  "event_timeout_remaining now et = c_int ((et_last et + et_n et) - now)"

definition ETT_DEFAULT :: int where
  "ETT_DEFAULT = - 1"

text \<open>The timeval is \<open>None\<close> where the caller passes \<^verbatim>\<open>NULL\<close>.\<close>

definition event_timeout_trigger ::
  "time_t \<Rightarrow> event_timeout \<Rightarrow> timeval option \<Rightarrow> int \<Rightarrow> bool \<times> event_timeout \<times> timeval option" where
  "event_timeout_trigger now et tv et_const_retry =
     (if \<not> et_defined et then (False, et, tv)
      else let wakeup = event_timeout_remaining now et;
               (ret, et', wakeup') =
                 (if wakeup \<le> 0
                  then if et_const_retry < 0 then (True, et\<lparr>et_last := now\<rparr>, et_n et)
                       else (False, et, et_const_retry)
                  else (False, et, wakeup))
           in (ret, et',
               case tv of None \<Rightarrow> None
               | Some t \<Rightarrow> Some (if wakeup' < tv_sec t then \<lparr>tv_sec = wakeup', tv_usec = 0\<rparr> else t)))"

subsection \<open>The stopwatch\<close>

definition USEC_TIMER_MAX :: int where
  "USEC_TIMER_MAX = 60"

record usec_timer =
  ut_start :: timeval
  ut_end :: timeval

text \<open>A call that fails leaves the cleared structure as it is.\<close>

definition usec_timer_start :: "clock \<Rightarrow> int \<Rightarrow> timeval \<Rightarrow> usec_timer \<times> clock" where
  "usec_timer_start c status t =
     (let (_, tv, c') = openvpn_gettimeofday c status (if status = 0 then t else tv_clear)
      in (\<lparr>ut_start = tv, ut_end = tv_clear\<rparr>, c'))"

definition usec_timer_end :: "clock \<Rightarrow> int \<Rightarrow> timeval \<Rightarrow> usec_timer \<Rightarrow> usec_timer \<times> clock" where
  "usec_timer_end c status t obj =
     (let (_, tv, c') = openvpn_gettimeofday c status (if status = 0 then t else ut_end obj)
      in (obj\<lparr>ut_end := tv\<rparr>, c'))"

definition usec_timer_interval_defined :: "usec_timer \<Rightarrow> bool" where
  "usec_timer_interval_defined obj \<longleftrightarrow> tv_sec (ut_start obj) \<noteq> 0 \<and> tv_sec (ut_end obj) \<noteq> 0"

definition usec_timer_interval :: "usec_timer \<Rightarrow> int" where
  "usec_timer_interval obj = tv_subtract (ut_end obj) (ut_start obj) USEC_TIMER_MAX"

subsection \<open>Announced wakeups\<close>

lemma earliest_wakeup_min:
  "0 \<le> w \<Longrightarrow> at - now < 2 ^ 31 \<Longrightarrow>
    interval_earliest_wakeup w at now = (if at > now then min w (at - now) else w)"
  by (auto simp: interval_earliest_wakeup_def c_int_id Let_def)

text \<open>
  The property of \<open>interval_schedule_wakeup\<close>: once a test has failed, the test keeps failing
  before the announced number of seconds is over; and where the announced number is below the one
  passed in, the test succeeds at that very second.
\<close>

theorem interval_wakeup_exact:
  assumes "0 \<le> w" and "0 \<le> now" and "fst (interval_test now iv) = False"
    and "iv_last_test_true iv + iv_refresh iv - now < 2 ^ 31" and "iv_future_trigger iv - now < 2 ^ 31"
    and "iv_future_trigger iv \<ge> 0"
  shows "(\<forall>t. now \<le> t \<and> t < now + interval_schedule_wakeup now iv w \<longrightarrow> fst (interval_test t iv) = False)
    \<and> (interval_schedule_wakeup now iv w < w \<longrightarrow>
        fst (interval_test (now + interval_schedule_wakeup now iv w) iv))"
  using assms by (auto simp: interval_schedule_wakeup_def earliest_wakeup_min interval_test_def Let_def split: if_splits)

theorem interval_wakeup_exact_witness:
  "fst (interval_test (100 + interval_schedule_wakeup 100
      \<lparr>iv_refresh = 60, iv_horizon = 10, iv_future_trigger = 0, iv_last_action = 20, iv_last_test_true = 95\<rparr> 600)
      \<lparr>iv_refresh = 60, iv_horizon = 10, iv_future_trigger = 0, iv_last_action = 20, iv_last_test_true = 95\<rparr>)"
  using interval_wakeup_exact [of 600 100
      "\<lparr>iv_refresh = 60, iv_horizon = 10, iv_future_trigger = 0, iv_last_action = 20, iv_last_test_true = 95\<rparr>"]
  by (simp add: interval_schedule_wakeup_def earliest_wakeup_min interval_test_def Let_def)

subsection \<open>A recurring timeout fires once per period\<close>

text \<open>The calls of the main loop at the given times, with the times at which the timeout fires.\<close>

fun timeout_run :: "event_timeout \<Rightarrow> time_t list \<Rightarrow> time_t list" where
  "timeout_run et [] = []"
| "timeout_run et (t # ts) =
     (let (fired, et', _) = event_timeout_trigger t et None ETT_DEFAULT
      in (if fired then [t] else []) @ timeout_run et' ts)"

fun spaced :: "int \<Rightarrow> int list \<Rightarrow> bool" where
  "spaced n (x # y # zs) \<longleftrightarrow> x + n \<le> y \<and> spaced n (y # zs)"
| "spaced n zs \<longleftrightarrow> True"

text \<open>What one call does within the range of an \<^verbatim>\<open>int\<close>.\<close>

lemma event_timeout_trigger_default:
  assumes "et_defined et" and "\<bar>et_last et + et_n et - now\<bar> < 2 ^ 31"
  shows "event_timeout_trigger now et tv ETT_DEFAULT =
    (let fired = et_last et + et_n et \<le> now; wakeup = (if fired then et_n et else et_last et + et_n et - now)
     in (fired, if fired then et\<lparr>et_last := now\<rparr> else et,
         map_option (\<lambda>t. if wakeup < tv_sec t then \<lparr>tv_sec = wakeup, tv_usec = 0\<rparr> else t) tv))"
proof -
  have "event_timeout_remaining now et = et_last et + et_n et - now"
    using assms by (auto simp: event_timeout_remaining_def intro!: c_int_id)
  with assms(1) show ?thesis
    by (auto simp: event_timeout_trigger_def ETT_DEFAULT_def Let_def split: option.splits)
qed

lemma timeout_run_spec:
  assumes "et_defined et" and "0 < et_n et" and "et_n et < 2 ^ 30"
    and "sorted (et_last et # ts)" and "\<forall>t\<in>set ts. t - et_last et < 2 ^ 30"
  shows "spaced (et_n et) (et_last et # timeout_run et ts)
    \<and> (\<forall>t\<in>set ts. \<exists>f\<in>set (et_last et # timeout_run et ts). f \<le> t \<and> t < f + et_n et)"
  using assms
proof (induction ts arbitrary: et)
  case Nil
  then show ?case by simp
next
  case (Cons t ts)
  have t: "et_last et \<le> t" "t - et_last et < 2 ^ 30" using Cons.prems by auto
  have trig: "event_timeout_trigger t et None ETT_DEFAULT =
      (et_last et + et_n et \<le> t, if et_last et + et_n et \<le> t then et\<lparr>et_last := t\<rparr> else et, None)"
    using Cons.prems t by (subst event_timeout_trigger_default) (auto simp: Let_def)
  show ?case
  proof (cases "et_last et + et_n et \<le> t")
    case True
    have "spaced (et_n et) (t # timeout_run (et\<lparr>et_last := t\<rparr>) ts)
      \<and> (\<forall>u\<in>set ts. \<exists>f\<in>set (t # timeout_run (et\<lparr>et_last := t\<rparr>) ts). f \<le> u \<and> u < f + et_n et)"
      using Cons.IH [of "et\<lparr>et_last := t\<rparr>"] Cons.prems t by force
    with True trig Cons.prems(2) show ?thesis by (auto simp: Let_def)
  next
    case False
    with trig Cons.IH [of et] Cons.prems t show ?thesis by (auto simp: Let_def)
  qed
qed

text \<open>
  The property C32 of \<open>event_timeout_trigger\<close>: under a clock that does not go back, a timeout started at
  \<open>start\<close> with period \<open>n\<close> fires at least \<open>n\<close> seconds after the start or the previous
  firing, and at every call the last firing (or the start) is less than \<open>n\<close> seconds ago.
\<close>

theorem event_timeout_periodic:
  assumes "0 < n" and "n < 2 ^ 30" and "sorted (start # ts)" and "\<forall>t\<in>set ts. t - start < 2 ^ 30"
  shows "spaced n (start # timeout_run (event_timeout_init n start) ts)
    \<and> (\<forall>t\<in>set ts. \<exists>f\<in>set (start # timeout_run (event_timeout_init n start) ts). f \<le> t \<and> t < f + n)"
  using timeout_run_spec [of "event_timeout_init n start" ts] assms by (simp add: event_timeout_init_def)

theorem event_timeout_periodic_witness:
  "spaced 5 (100 # timeout_run (event_timeout_init 5 100) [102, 105, 108, 112])
    \<and> timeout_run (event_timeout_init 5 100) [102, 105, 108, 112] = [105, 112]"
  using event_timeout_periodic [of 5 100 "[102, 105, 108, 112]"]
  by (simp add: event_timeout_init_def event_timeout_trigger_default Let_def)

end
