(* ===== verification/Fragment.thy ===== *)
theory Fragment
  imports Buffer Interval "HOL-Library.Signed_Division"
begin

text \<open>
  Fragmentation: \<^verbatim>\<open>fragment.h\<close> and \<^verbatim>\<open>fragment.c\<close>, with \<^verbatim>\<open>struct frame\<close> of \<^verbatim>\<open>mtu.h\<close>. A datagram that is larger
  than the limit goes out as at most 32 fragments behind a 32-bit header; the receiver joins them
  in a window of 25 buffers indexed by the sequence number of the datagram. This theory holds the
  operations and the invariant that each of them keeps; the theory \<open>Fragment_Props\<close> composes a sender with
  a receiver.

  A pointer into the array of buffers is the index of the element. Where the code copies a \<^verbatim>\<open>struct buffer\<close>
  the two copies share the block of memory: the block of \<^verbatim>\<open>outgoing_return\<close> is therefore updated with
  the fragment that is built in it.
\<close>

subsection \<open>The structures\<close>

record frame =
  fb_payload_size :: int
  fb_headroom :: int
  fb_tailroom :: int
  fr_mss_fix :: u16
  fr_max_fragment_size :: int
  fr_tun_mtu :: int
  fr_tun_max_mtu :: int
  fr_extra_tun :: int

definition BUF_SIZE :: "frame \<Rightarrow> int" where
  "BUF_SIZE f = fb_headroom f + fb_payload_size f + fb_tailroom f"

definition N_FRAG_BUF :: int where "N_FRAG_BUF = 25"
definition FRAG_TTL_SEC :: int where "FRAG_TTL_SEC = 10"
definition FRAG_WAKEUP_INTERVAL :: int where "FRAG_WAKEUP_INTERVAL = 5"
definition FRAG_MAP_MASK :: u32 where "FRAG_MAP_MASK = 0xFFFFFFFF"
definition MAX_FRAGS :: int where "MAX_FRAGS = 32"
definition N_SEQ_ID :: int where "N_SEQ_ID = 256"

record fragment =
  fg_defined :: bool
  fg_max_frag_size :: int
  fg_map :: u32
  fg_timestamp :: time_t
  fg_buf :: buffer

record fragment_list =
  fgl_seq_id :: int
  fgl_index :: int
  fgl_fragments :: "fragment list"

record fragment_master =
  fm_wakeup :: event_timeout
  fm_outgoing_seq_id :: int
  fm_outgoing_frag_size :: int
  fm_outgoing_frag_id :: int
  fm_outgoing :: buffer
  fm_outgoing_return :: buffer
  fm_incoming :: fragment_list

subsection \<open>The header\<close>

definition FRAG_TYPE_MASK :: int where "FRAG_TYPE_MASK = 3"
definition FRAG_TYPE_SHIFT :: nat where "FRAG_TYPE_SHIFT = 0"
definition FRAG_WHOLE :: int where "FRAG_WHOLE = 0"
definition FRAG_YES_NOTLAST :: int where "FRAG_YES_NOTLAST = 1"
definition FRAG_YES_LAST :: int where "FRAG_YES_LAST = 2"
definition FRAG_TEST :: int where "FRAG_TEST = 3"
definition FRAG_SEQ_ID_MASK :: int where "FRAG_SEQ_ID_MASK = 0xff"
definition FRAG_SEQ_ID_SHIFT :: nat where "FRAG_SEQ_ID_SHIFT = 2"
definition FRAG_ID_MASK :: int where "FRAG_ID_MASK = 0x1f"
definition FRAG_ID_SHIFT :: nat where "FRAG_ID_SHIFT = 10"
definition FRAG_SIZE_MASK :: int where "FRAG_SIZE_MASK = 0x3fff"
definition FRAG_SIZE_SHIFT :: nat where "FRAG_SIZE_SHIFT = 15"
definition FRAG_SIZE_ROUND_SHIFT :: nat where "FRAG_SIZE_ROUND_SHIFT = 2"
definition FRAG_SIZE_ROUND_MASK :: int where "FRAG_SIZE_ROUND_MASK = 3"

lemmas frag_consts = N_FRAG_BUF_def FRAG_TTL_SEC_def MAX_FRAGS_def N_SEQ_ID_def FRAG_MAP_MASK_def
  FRAG_TYPE_MASK_def FRAG_TYPE_SHIFT_def FRAG_WHOLE_def FRAG_YES_NOTLAST_def FRAG_YES_LAST_def
  FRAG_TEST_def FRAG_SEQ_ID_MASK_def FRAG_SEQ_ID_SHIFT_def FRAG_ID_MASK_def FRAG_ID_SHIFT_def
  FRAG_SIZE_MASK_def FRAG_SIZE_SHIFT_def FRAG_SIZE_ROUND_SHIFT_def FRAG_SIZE_ROUND_MASK_def

text \<open>The field of a header under a mask after a shift: an unsigned value, stored in an \<^verbatim>\<open>int\<close>.\<close>

definition header_field :: "u32 \<Rightarrow> nat \<Rightarrow> int \<Rightarrow> int" where
  "header_field flags shift msk = uint (drop_bit shift flags AND of_int msk)"

definition fragment_header :: "int \<Rightarrow> int \<Rightarrow> int \<Rightarrow> int \<Rightarrow> u32" where
  "fragment_header type seq_id frag_id frag_size =
     (let flags = push_bit FRAG_TYPE_SHIFT (type AND FRAG_TYPE_MASK)
                  OR push_bit FRAG_SEQ_ID_SHIFT (seq_id AND FRAG_SEQ_ID_MASK)
                  OR push_bit FRAG_ID_SHIFT (frag_id AND FRAG_ID_MASK)
      in if type = FRAG_WHOLE \<or> type = FRAG_YES_NOTLAST then of_int flags
         else of_int flags
           OR of_int (push_bit FRAG_SIZE_SHIFT (drop_bit FRAG_SIZE_ROUND_SHIFT frag_size AND FRAG_SIZE_MASK)))"

definition fragment_prepend_flags :: "buffer \<Rightarrow> int \<Rightarrow> int \<Rightarrow> int \<Rightarrow> int \<Rightarrow> buffer option" where
  "fragment_prepend_flags buf type seq_id frag_id frag_size = do {
     (ok, buf') \<leftarrow> buf_write_prepend buf (u32_be (fragment_header type seq_id frag_id frag_size));
     assertion ok;
     Some buf' }"

subsection \<open>Initialisation and release\<close>

primrec alloc_fragments :: "frame \<Rightarrow> fragment list \<Rightarrow> fragment list option" where
  "alloc_fragments frm [] = Some []"
| "alloc_fragments frm (fg # fgs) = do {
     b \<leftarrow> alloc_buf (BUF_SIZE frm);
     fgs' \<leftarrow> alloc_fragments frm fgs;
     Some (fg\<lparr>fg_buf := b\<rparr> # fgs') }"

definition fragment_list_buf_init :: "fragment_list \<Rightarrow> frame \<Rightarrow> fragment_list option" where
  "fragment_list_buf_init l frm = do {
     fgs \<leftarrow> alloc_fragments frm (fgl_fragments l);
     Some (l\<lparr>fgl_fragments := fgs\<rparr>) }"

definition fragment_list_buf_free :: "fragment_list \<Rightarrow> fragment_list" where
  "fragment_list_buf_free l =
     l\<lparr>fgl_fragments := map (\<lambda>fg. fg\<lparr>fg_buf := free_buf (fg_buf fg)\<rparr>) (fgl_fragments l)\<rparr>"

text \<open>The object is cleared; the random number is an argument.\<close>

definition fragment_init :: "time_t \<Rightarrow> int \<Rightarrow> fragment_master" where
  "fragment_init now random =
     \<lparr>fm_wakeup = event_timeout_init FRAG_WAKEUP_INTERVAL now,
      fm_outgoing_seq_id = c_int random AND (N_SEQ_ID - 1),
      fm_outgoing_frag_size = 0, fm_outgoing_frag_id = 0,
      fm_outgoing = clear_buf, fm_outgoing_return = clear_buf,
      fm_incoming = \<lparr>fgl_seq_id = 0, fgl_index = 0,
        fgl_fragments = replicate (nat N_FRAG_BUF)
          \<lparr>fg_defined = False, fg_max_frag_size = 0, fg_map = 0, fg_timestamp = 0, fg_buf = clear_buf\<rparr>\<rparr>\<rparr>"

definition fragment_frame_init :: "fragment_master \<Rightarrow> frame \<Rightarrow> fragment_master option" where
  "fragment_frame_init f frm = do {
     incoming \<leftarrow> fragment_list_buf_init (fm_incoming f) frm;
     outgoing \<leftarrow> alloc_buf (BUF_SIZE frm);
     outgoing_return \<leftarrow> alloc_buf (BUF_SIZE frm);
     Some (f\<lparr>fm_incoming := incoming, fm_outgoing := outgoing, fm_outgoing_return := outgoing_return\<rparr>) }"

text \<open>The state in which the object itself is given back.\<close>

definition fragment_free :: "fragment_master \<Rightarrow> fragment_master" where
  "fragment_free f =
     f\<lparr>fm_incoming := fragment_list_buf_free (fm_incoming f),
       fm_outgoing := free_buf (fm_outgoing f), fm_outgoing_return := free_buf (fm_outgoing_return f)\<rparr>"

subsection \<open>The window of reassembly buffers\<close>

definition set_fragment :: "fragment_list \<Rightarrow> int \<Rightarrow> fragment \<Rightarrow> fragment_list option" where
  "set_fragment l i fg =
     (if 0 \<le> i \<and> i < int (length (fgl_fragments l))
      then Some (l\<lparr>fgl_fragments := (fgl_fragments l)[nat i := fg]\<rparr>) else None)"

definition get_fragment :: "fragment_list \<Rightarrow> int \<Rightarrow> fragment option" where
  "get_fragment l i =
     (if 0 \<le> i \<and> i < int (length (fgl_fragments l)) then Some (fgl_fragments l ! nat i) else None)"

primrec window_advance :: "nat \<Rightarrow> fragment_list \<Rightarrow> fragment_list option" where
  "window_advance 0 l = Some l"
| "window_advance (Suc diff) l = do {
     i \<leftarrow> modulo_add (fgl_index l) 1 N_FRAG_BUF;
     fg \<leftarrow> get_fragment l i;
     l1 \<leftarrow> set_fragment (l\<lparr>fgl_index := i\<rparr>) i (fg\<lparr>fg_defined := False\<rparr>);
     s \<leftarrow> modulo_add (fgl_seq_id l1) 1 N_SEQ_ID;
     window_advance diff (l1\<lparr>fgl_seq_id := s\<rparr>) }"

definition fragment_list_get_buf :: "fragment_list \<Rightarrow> int \<Rightarrow> (int \<times> fragment_list) option" where
  "fragment_list_get_buf l seq_id = do {
     diff \<leftarrow> modulo_subtract seq_id (fgl_seq_id l) N_SEQ_ID;
     let (diff1, l1) =
       (if \<bar>diff\<bar> \<ge> N_FRAG_BUF
        then (0, l\<lparr>fgl_fragments := map (\<lambda>fg. fg\<lparr>fg_defined := False\<rparr>) (fgl_fragments l),
                   fgl_index := 0, fgl_seq_id := seq_id\<rparr>)
        else (diff, l));
     l2 \<leftarrow> window_advance (nat diff1) l1;
     i \<leftarrow> modulo_add (fgl_index l2) (if diff1 > 0 then 0 else diff1) N_FRAG_BUF;
     Some (i, l2) }"

subsection \<open>Incoming datagrams\<close>

definition frag_err :: "buffer \<Rightarrow> fragment_master \<Rightarrow> (buffer \<times> fragment_master) option" where
  "frag_err buf f = Some (buf\<lparr>b_len := 0\<rparr>, f)"

text \<open>The part of \<^verbatim>\<open>fragment_incoming\<close> for the two types that carry a fragment.\<close>

definition fragment_join ::
  "time_t \<Rightarrow> fragment_master \<Rightarrow> buffer \<Rightarrow> frame \<Rightarrow> u32 \<Rightarrow> int \<Rightarrow> (buffer \<times> fragment_master) option" where
  "fragment_join now f buf frm flags frag_type = do {
     let seq_id = header_field flags FRAG_SEQ_ID_SHIFT FRAG_SEQ_ID_MASK;
     let n = header_field flags FRAG_ID_SHIFT FRAG_ID_MASK;
     let size = (if frag_type = FRAG_YES_LAST
                 then push_bit FRAG_SIZE_ROUND_SHIFT (header_field flags FRAG_SIZE_SHIFT FRAG_SIZE_MASK)
                 else b_len buf);
     (i, l) \<leftarrow> fragment_list_get_buf (fm_incoming f) seq_id;
     let f1 = f\<lparr>fm_incoming := l\<rparr>;
     if size AND FRAG_SIZE_ROUND_MASK \<noteq> 0 then frag_err buf f1
     else do {
       fg \<leftarrow> get_fragment l i;
       fg1 \<leftarrow> (if \<not> fg_defined fg \<or> fg_max_frag_size fg \<noteq> size
              then do {
                let (ok, b) = buf_init (fg_buf fg) (fb_headroom frm);
                assertion ok;
                Some (fg\<lparr>fg_defined := True, fg_max_frag_size := size, fg_map := 0, fg_buf := b\<rparr>) }
              else Some fg);
       (ok, b) \<leftarrow> buf_copy_range (fg_buf fg1) (n * size) buf 0 (b_len buf);
       if \<not> ok then do { l1 \<leftarrow> set_fragment l i fg1; frag_err buf (f\<lparr>fm_incoming := l1\<rparr>) }
       else do {
         let mp = fg_map fg1 OR push_bit (nat n) (if frag_type = FRAG_YES_LAST then FRAG_MAP_MASK else 1);
         let fg2 = fg1\<lparr>fg_buf := b, fg_map := mp, fg_timestamp := now\<rparr>;
         if mp AND FRAG_MAP_MASK = FRAG_MAP_MASK
         then do { l1 \<leftarrow> set_fragment l i (fg2\<lparr>fg_defined := False\<rparr>);
                   Some (fg_buf fg2, f\<lparr>fm_incoming := l1\<rparr>) }
         else do { l1 \<leftarrow> set_fragment l i fg2;
                   Some (buf\<lparr>b_len := 0\<rparr>, f\<lparr>fm_incoming := l1\<rparr>) } } } }"

definition fragment_incoming ::
  "time_t \<Rightarrow> fragment_master \<Rightarrow> buffer \<Rightarrow> frame \<Rightarrow> (buffer \<times> fragment_master) option" where
  "fragment_incoming now f buf frm =
     (if b_len buf > 0
      then do {
        (r, buf1) \<leftarrow> buf_read buf 4;
        (case r of
           None \<Rightarrow> frag_err buf1 f
         | Some bytes \<Rightarrow> do {
             let flags = be_u32 bytes;
             let frag_type = header_field flags FRAG_TYPE_SHIFT FRAG_TYPE_MASK;
             if frag_type = FRAG_WHOLE
             then if flags AND of_int (FRAG_SEQ_ID_MASK OR FRAG_ID_MASK) \<noteq> 0 then frag_err buf1 f
                  else Some (buf1, f)
             else if frag_type = FRAG_YES_NOTLAST \<or> frag_type = FRAG_YES_LAST
             then fragment_join now f buf1 frm flags frag_type
             else frag_err buf1 f }) }
      else Some (buf, f))"

subsection \<open>Outgoing datagrams\<close>

text \<open>The division by an aligned size of zero faults.\<close>

definition optimal_fragment_size :: "int \<Rightarrow> int \<Rightarrow> int option" where
  "optimal_fragment_size len max_frag_size = do {
     let mfs_aligned = max_frag_size AND NOT FRAG_SIZE_ROUND_MASK;
     assertion (mfs_aligned \<noteq> 0);
     let dv = len sdiv mfs_aligned;
     let md = len smod mfs_aligned;
     if dv > 0 \<and> md > 0 \<and> md < mfs_aligned * 3 sdiv 4
     then Some (min_int mfs_aligned
       ((max_frag_size - ((max_frag_size - md) sdiv (dv + 1)) + FRAG_SIZE_ROUND_MASK) AND NOT FRAG_SIZE_ROUND_MASK))
     else Some mfs_aligned }"

definition fragment_outgoing_defined :: "fragment_master \<Rightarrow> bool" where
  "fragment_outgoing_defined f \<longleftrightarrow> b_len (fm_outgoing f) > 0"

definition fragment_ready_to_send ::
  "fragment_master \<Rightarrow> buffer \<Rightarrow> frame \<Rightarrow> (bool \<times> buffer \<times> fragment_master) option" where
  "fragment_ready_to_send f buf frm =
     (if fragment_outgoing_defined f
      then do {
        let (size, last_one) =
          (if b_len (fm_outgoing f) \<le> fm_outgoing_frag_size f then (b_len (fm_outgoing f), True)
           else (fm_outgoing_frag_size f, False));
        let (ok1, b1) = buf_init (fm_outgoing_return f) (fb_headroom frm);
        assertion ok1;
        (ok2, b2, outgoing) \<leftarrow> buf_copy_n b1 (fm_outgoing f) size;
        assertion ok2;
        b3 \<leftarrow> fragment_prepend_flags b2 (if last_one then FRAG_YES_LAST else FRAG_YES_NOTLAST)
               (fm_outgoing_seq_id f) (fm_outgoing_frag_id f) (fm_outgoing_frag_size f);
        assertion (\<not> last_one \<or> b_len outgoing = 0);
        Some (True, b3,
          f\<lparr>fm_outgoing := outgoing, fm_outgoing_frag_id := fm_outgoing_frag_id f + 1,
            fm_outgoing_return := (fm_outgoing_return f)\<lparr>b_data := b_data b3\<rparr>\<rparr>) }
      else Some (False, buf, f))"

definition fragment_outgoing ::
  "fragment_master \<Rightarrow> buffer \<Rightarrow> frame \<Rightarrow> (buffer \<times> fragment_master) option" where
  "fragment_outgoing f buf frm =
     (if b_len buf > 0
      then if b_len buf > fr_max_fragment_size frm
        then do {
          k \<leftarrow> optimal_fragment_size (b_len buf) (fr_max_fragment_size frm);
          let f1 = f\<lparr>fm_outgoing_frag_size := k\<rparr>;
          if b_len buf > k * MAX_FRAGS then frag_err buf f1
          else do {
            let (ok1, out1) = buf_init (fm_outgoing f1) (fb_headroom frm);
            assertion ok1;
            (ok2, out2) \<leftarrow> buf_copy out1 buf;
            assertion ok2;
            s \<leftarrow> modulo_add (fm_outgoing_seq_id f1) 1 N_SEQ_ID;
            (sent, buf2, f2) \<leftarrow> fragment_ready_to_send
              (f1\<lparr>fm_outgoing := out2, fm_outgoing_seq_id := s, fm_outgoing_frag_id := 0\<rparr>)
              (buf\<lparr>b_len := 0\<rparr>) frm;
            assertion sent;
            Some (buf2, f2) } }
        else do {
          buf1 \<leftarrow> fragment_prepend_flags buf FRAG_WHOLE 0 0 0;
          Some (buf1, f) }
      else Some (buf, f))"

subsection \<open>Housekeeping\<close>

definition fragment_ttl_reap :: "time_t \<Rightarrow> fragment_master \<Rightarrow> fragment_master" where
  "fragment_ttl_reap now f =
     f\<lparr>fm_incoming := (fm_incoming f)\<lparr>fgl_fragments :=
       map (\<lambda>fg. if fg_defined fg \<and> fg_timestamp fg + FRAG_TTL_SEC \<le> now then fg\<lparr>fg_defined := False\<rparr> else fg)
         (fgl_fragments (fm_incoming f))\<rparr>\<rparr>"

definition fragment_wakeup :: "time_t \<Rightarrow> fragment_master \<Rightarrow> frame \<Rightarrow> fragment_master" where
  "fragment_wakeup now f frm = fragment_ttl_reap now f"

definition fragment_housekeeping ::
  "time_t \<Rightarrow> fragment_master \<Rightarrow> frame \<Rightarrow> timeval option \<Rightarrow> fragment_master \<times> timeval option" where
  "fragment_housekeeping now f frm tv =
     (let (fired, et, tv') = event_timeout_trigger now (fm_wakeup f) tv ETT_DEFAULT;
          f1 = f\<lparr>fm_wakeup := et\<rparr>
      in (if fired then fragment_wakeup now f1 frm else f1, tv'))"

subsection \<open>The header carries its fields\<close>

lemma or_push_bit: "0 \<le> a \<Longrightarrow> a < 2 ^ n \<Longrightarrow> a OR push_bit n b = a + b * 2 ^ n" for a b :: int
  using concat_bit_eq [of n a b] concat_bit_def [of n a b]
  by (simp add: take_bit_int_eq_self push_bit_eq_mult)

lemma and_low_mask: "a AND (2 ^ j - 1) = a mod 2 ^ j" for a :: int
  by (metis take_bit_eq_mask mask_eq_exp_minus_1 take_bit_eq_mod)

lemma and_masks: "a AND 3 = a mod 4" "a AND 0xff = a mod 256" "a AND 0x1f = a mod 32" "a AND 0x3fff = a mod 16384"
  for a :: int
  using and_low_mask [of a 2] and_low_mask [of a 8] and_low_mask [of a 5] and_low_mask [of a 14] by simp_all

lemma header_field_eq: "header_field flags sh (2 ^ j - 1) = uint flags div 2 ^ sh mod 2 ^ j"
proof -
  have u: "take_bit 32 (uint flags) = uint flags"
    using uint_lt2p [of flags] by (intro take_bit_int_eq_self) simp_all
  have "drop_bit sh flags AND of_int (2 ^ j - 1) = take_bit j (drop_bit sh flags)"
    by (simp add: take_bit_eq_mask mask_eq_exp_minus_1)
  then have "header_field flags sh (2 ^ j - 1) = take_bit j (drop_bit sh (uint flags))"
    by (simp add: header_field_def unsigned_take_bit_eq unsigned_drop_bit_eq u)
  then show ?thesis by (simp only: drop_bit_eq_div take_bit_eq_mod)
qed

definition header_int :: "int \<Rightarrow> int \<Rightarrow> int \<Rightarrow> int \<Rightarrow> int" where
  "header_int type s n k = type + 4 * (s + 256 * (n + 32 * (if type = FRAG_YES_LAST then k div 4 else 0)))"

lemma header_int_fields:
  assumes "0 \<le> type" "type < 3" "0 \<le> s" "s < 256" "0 \<le> n" "n < 32"
  shows "header_int type s n k mod 4 = type" and "header_int type s n k div 4 mod 256 = s"
    and "header_int type s n k div 1024 mod 32 = n"
    and "header_int type s n k div 32768 = (if type = FRAG_YES_LAST then k div 4 else 0)"
proof -
  define q where "q = (if type = FRAG_YES_LAST then k div 4 else 0)"
  define h where "h = header_int type s n k"
  have a: "h mod 4 = type" "h div 4 = s + 256 * (n + 32 * q)"
    using horner [of type 4 "s + 256 * (n + 32 * q)"] assms by (simp_all only: h_def header_int_def q_def)
  have b: "h div 4 mod 256 = s" "h div 4 div 256 = n + 32 * q"
    using horner [of s 256 "n + 32 * q"] assms by (simp_all only: a)
  have c: "h div 4 div 256 mod 32 = n" "h div 4 div 256 div 32 = q"
    using horner [of n 32 q] assms by (simp_all only: b)
  have d: "h div 4 div 256 = h div 1024" "h div 4 div 256 div 32 = h div 32768"
    by (simp_all add: zdiv_zmult2_eq [symmetric])
  show "header_int type s n k mod 4 = type" "header_int type s n k div 4 mod 256 = s"
    "header_int type s n k div 1024 mod 32 = n"
    "header_int type s n k div 32768 = (if type = FRAG_YES_LAST then k div 4 else 0)"
    using a b c d by (simp_all only: h_def q_def)
qed

lemma fragment_header_sum:
  assumes "0 \<le> type" "type < 3" "0 \<le> s" "s < 256" "0 \<le> n" "n < 32" "0 \<le> k" "k < 65536"
  shows "fragment_header type s n k = of_int (header_int type s n k)" and "uint (fragment_header type s n k) = header_int type s n k"
proof -
  have a: "type OR push_bit 2 s = type + 4 * s" using assms or_push_bit [of type 2 s] by simp
  have b: "(type + 4 * s) OR push_bit 10 n = type + 4 * s + 1024 * n"
    using assms or_push_bit [of "type + 4 * s" 10 n] by simp
  have c: "(type + 4 * s + 1024 * n) OR push_bit 15 (k div 4) = type + 4 * s + 1024 * n + 32768 * (k div 4)"
    using assms or_push_bit [of "type + 4 * s + 1024 * n" 15 "k div 4"] by simp
  have k: "k div 4 mod 16384 = k div 4" using assms by simp
  have t: "type = 0 \<or> type = 1 \<or> type = 2" using assms by linarith
  show h: "fragment_header type s n k = of_int (header_int type s n k)"
    using assms a b c t
    by (auto simp: fragment_header_def frag_consts and_masks header_int_def drop_bit_eq_div k Let_def
        of_int_or_eq [symmetric] or.assoc [symmetric] add.assoc simp del: of_int_add of_int_mult)
  have "0 \<le> header_int type s n k" "header_int type s n k < 2 ^ 32"
    using assms by (auto simp: header_int_def)
  then show "uint (fragment_header type s n k) = header_int type s n k"
    by (simp add: h unsigned_of_int take_bit_int_eq_self)
qed

lemma header_fields:
  "header_field flags FRAG_TYPE_SHIFT FRAG_TYPE_MASK = uint flags mod 4"
  "header_field flags FRAG_SEQ_ID_SHIFT FRAG_SEQ_ID_MASK = uint flags div 4 mod 256"
  "header_field flags FRAG_ID_SHIFT FRAG_ID_MASK = uint flags div 1024 mod 32"
  "header_field flags FRAG_SIZE_SHIFT FRAG_SIZE_MASK = uint flags div 32768 mod 16384"
proof -
  have m: "FRAG_TYPE_MASK = 2 ^ 2 - 1" "FRAG_SEQ_ID_MASK = 2 ^ 8 - 1" "FRAG_ID_MASK = 2 ^ 5 - 1" "FRAG_SIZE_MASK = 2 ^ 14 - 1"
    by (simp_all add: frag_consts)
  have p: "(2 :: int) ^ 0 = 1" "(2 :: int) ^ 2 = 4" "(2 :: int) ^ 8 = 256" "(2 :: int) ^ 10 = 1024" "(2 :: int) ^ 5 = 32"
    "(2 :: int) ^ 15 = 32768" "(2 :: int) ^ 14 = 16384" by simp_all
  show "header_field flags FRAG_TYPE_SHIFT FRAG_TYPE_MASK = uint flags mod 4"
    "header_field flags FRAG_SEQ_ID_SHIFT FRAG_SEQ_ID_MASK = uint flags div 4 mod 256"
    "header_field flags FRAG_ID_SHIFT FRAG_ID_MASK = uint flags div 1024 mod 32"
    "header_field flags FRAG_SIZE_SHIFT FRAG_SIZE_MASK = uint flags div 32768 mod 16384"
    by (simp_all only: m header_field_eq) (simp_all only: frag_consts p div_by_1)
qed

lemma header_roundtrip:
  assumes "0 \<le> type" "type < 3" "0 \<le> s" "s < 256" "0 \<le> n" "n < 32" "0 \<le> k" "k < 65536"
  shows "header_field (fragment_header type s n k) FRAG_TYPE_SHIFT FRAG_TYPE_MASK = type"
    and "header_field (fragment_header type s n k) FRAG_SEQ_ID_SHIFT FRAG_SEQ_ID_MASK = s"
    and "header_field (fragment_header type s n k) FRAG_ID_SHIFT FRAG_ID_MASK = n"
    and "type = FRAG_YES_LAST \<Longrightarrow>
      push_bit FRAG_SIZE_ROUND_SHIFT (header_field (fragment_header type s n k) FRAG_SIZE_SHIFT FRAG_SIZE_MASK) = k - k mod 4"
proof -
  have h: "uint (fragment_header type s n k) = header_int type s n k" by (rule fragment_header_sum(2) [OF assms])
  note f = header_int_fields [OF assms(1-6), of k]
  have q: "k div 4 mod 16384 = k div 4" using assms by simp
  show "header_field (fragment_header type s n k) FRAG_TYPE_SHIFT FRAG_TYPE_MASK = type"
    "header_field (fragment_header type s n k) FRAG_SEQ_ID_SHIFT FRAG_SEQ_ID_MASK = s"
    "header_field (fragment_header type s n k) FRAG_ID_SHIFT FRAG_ID_MASK = n"
    by (simp_all only: header_fields h f)
  assume "type = FRAG_YES_LAST"
  then have "header_int type s n k div 32768 = k div 4" using f(4) by simp
  then show "push_bit FRAG_SIZE_ROUND_SHIFT (header_field (fragment_header type s n k) FRAG_SIZE_SHIFT FRAG_SIZE_MASK) = k - k mod 4"
    by (simp only: header_fields h q push_bit_eq_mult FRAG_SIZE_ROUND_SHIFT_def) (simp add: minus_mod_eq_div_mult)
qed

subsection \<open>The size of the fragments\<close>

lemma and_not_3: "a AND - 4 = a - a mod 4" for a :: int
proof -
  have "(a AND NOT (mask 2)) + (a AND mask 2) = (a AND NOT (mask 2)) OR (a AND mask 2)"
    by (rule disjunctive_add_eq_or) (auto intro!: bit_eqI simp: bit_simps)
  also have "\<dots> = a" by (auto intro!: bit_eqI simp: bit_simps)
  finally have "a AND NOT (mask 2) = a - take_bit 2 a" by (simp add: take_bit_eq_mask)
  then show ?thesis by (simp add: mask_eq_exp_minus_1 take_bit_eq_mod)
qed

lemma optimal_bound: 
  fixes m r d :: int
  assumes "0 \<le> d" and "r \<le> m"
  shows "d * m + r \<le> (d + 1) * (m - (m - r) div (d + 1))"
proof -
  have "(d + 1) * ((m - r) div (d + 1)) \<le> m - r"
    using assms pos_mod_sign [of "d + 1" "m - r"] by (simp add: minus_mod_eq_mult_div [symmetric])
  then show ?thesis by (simp add: algebra_simps)
qed

lemma optimal_fragment_size_ok:
  assumes "4 \<le> m" and "0 < len" and "m < len"
  shows "\<exists>k. optimal_fragment_size len m = Some k \<and> 0 < k \<and> k mod 4 = 0 \<and> k \<le> m - m mod 4
    \<and> (len + k - 1) div k = (len + (m - m mod 4) - 1) div (m - m mod 4)"
proof -
  define a d r where "a = m - m mod 4" and "d = len div a" and "r = len mod a"
  have a: "0 < a" "a \<le> m" "m - 3 \<le> a" "a mod 4 = 0" using assms by (auto simp: a_def)
  have len: "len = d * a + r" "0 \<le> r" "r < a" using a by (auto simp: d_def r_def)
  have d: "0 < d" using assms a by (simp add: d_def pos_imp_zdiv_pos_iff)
  have sd: "len sdiv a = d" "len smod a = r" "a * 3 sdiv 4 = a * 3 div 4"
    using a assms by (simp_all add: d_def r_def signed_divide_int_def signed_modulo_int_def)
  show ?thesis
  proof (cases "r > 0 \<and> r < a * 3 div 4")
    case False
    then have "optimal_fragment_size len m = Some a"
      using sd a False by (auto simp: optimal_fragment_size_def frag_consts and_not_3 a_def [symmetric] Let_def)
    then show ?thesis using a by (auto simp: a_def [symmetric])
  next
    case True
    define x where "x = m - (m - r) div (d + 1) + 3"
    define k where "k = min a (x - x mod 4)"
    have o: "optimal_fragment_size len m = Some k"
      using sd a d True len
      by (simp add: optimal_fragment_size_def frag_consts and_not_3 a_def [symmetric] k_def x_def
          signed_divide_int_def Let_def)
    have q: "0 \<le> (m - r) div (d + 1)" "(m - r) div (d + 1) \<le> m - r"
      using True a d len by (auto simp: pos_imp_zdiv_nonneg_iff intro: zdiv_mono2 [of "m - r" 1 "d + 1", simplified])
    have k: "0 < k" "k mod 4 = 0" "k \<le> a"
      using True a q unfolding k_def x_def min_def by (auto)
    have "len \<le> (d + 1) * (x - x mod 4)"
    proof -
      have "len \<le> d * m + r" using len a d by simp
      also have "\<dots> \<le> (d + 1) * (m - (m - r) div (d + 1))" using optimal_bound [of d r m] d len a by simp
      also have "\<dots> \<le> (d + 1) * (x - x mod 4)" using d unfolding x_def by (intro mult_left_mono) simp_all
      finally show ?thesis .
    qed
    moreover have "len \<le> (d + 1) * a" using len by (simp add: algebra_simps)
    ultimately have up: "len \<le> (d + 1) * k" by (simp add: k_def min_def)
    have "d * k \<le> d * a" using k d by simp
    then have lo: "d * k < len" using len True by linarith
    have "(len + k - 1) div k = d + 1"
      using up lo k by (intro int_div_pos_eq [of _ _ _ "len - d * k - 1"]) (auto simp: algebra_simps)
    moreover have "(len + a - 1) div a = d + 1"
      using len True a by (intro int_div_pos_eq [of _ _ _ "r - 1"]) (auto simp: algebra_simps)
    ultimately show ?thesis using o k by (auto simp: a_def [symmetric])
  qed
qed

subsection \<open>The window\<close>

definition fgl_wf :: "fragment_list \<Rightarrow> bool" where
  "fgl_wf l \<longleftrightarrow> length (fgl_fragments l) = 25 \<and> 0 \<le> fgl_index l \<and> fgl_index l < 25
     \<and> 0 \<le> fgl_seq_id l \<and> fgl_seq_id l < 256"

abbreviation undef :: "fragment \<Rightarrow> fragment" where
  "undef fg \<equiv> fg\<lparr>fg_defined := False\<rparr>"

text \<open>The signed distance of a sequence number from the newest one.\<close>

definition ahead :: "fragment_list \<Rightarrow> int \<Rightarrow> int" where
  "ahead l s = the (modulo_subtract s (fgl_seq_id l) N_SEQ_ID)"

lemma ahead_eq:
  assumes "fgl_wf l" and "0 \<le> s" and "s < 256"
  shows "modulo_subtract s (fgl_seq_id l) N_SEQ_ID = Some (ahead l s)"
    and "(fgl_seq_id l + ahead l s) mod 256 = s" and "\<bar>ahead l s\<bar> \<le> 128"
  using modulo_subtract_spec [of s 256 "fgl_seq_id l"] assms
  by (auto simp: ahead_def fgl_wf_def frag_consts)

lemma step_mod: "0 \<le> n \<Longrightarrow> n < (24 :: int) \<Longrightarrow>
    (x mod 25 < n + 1) \<longleftrightarrow> (x mod 25 = 0 \<or> (x - 1) mod 25 < n)"
proof -
  assume n: "0 \<le> n" "n < (24 :: int)"
  have "(x - 1) mod 25 = (x mod 25 - 1) mod 25" by (simp add: mod_diff_left_eq)
  also have "\<dots> = (if x mod 25 = 0 then 24 else x mod 25 - 1)"
    using pos_mod_bound [of 25 x] pos_mod_sign [of 25 x] by (auto intro!: mod_pos_pos_trivial)
  finally show ?thesis using n pos_mod_sign [of 25 x] by auto
qed

lemma window_advance_spec:
  assumes "fgl_wf l" and "n < 25"
  shows "\<exists>l'. window_advance n l = Some l' \<and> fgl_wf l' \<and> fgl_index l' = (fgl_index l + int n) mod 25
    \<and> fgl_seq_id l' = (fgl_seq_id l + int n) mod 256
    \<and> (\<forall>j < 25. fgl_fragments l' ! j =
         (if (int j - fgl_index l - 1) mod 25 < int n then undef (fgl_fragments l ! j) else fgl_fragments l ! j))"
  using assms
proof (induction n arbitrary: l)
  case 0
  then show ?case by (simp add: fgl_wf_def)
next
  case (Suc n)
  define i s where "i = (fgl_index l + 1) mod 25" and "s = (fgl_seq_id l + 1) mod 256"
  define l1 where "l1 = l\<lparr>fgl_index := i, fgl_fragments := (fgl_fragments l)[nat i := undef (fgl_fragments l ! nat i)],
    fgl_seq_id := s\<rparr>"
  have bounds: "0 \<le> i" "i < 25" "0 \<le> s" "s < 256" by (simp_all add: i_def s_def)
  have wf: "fgl_wf l1" using Suc.prems bounds by (simp add: l1_def fgl_wf_def)
  have step: "window_advance (Suc n) l = window_advance n l1"
    using Suc.prems bounds
    by (simp add: fgl_wf_def frag_consts modulo_add_eq get_fragment_def set_fragment_def i_def [symmetric]
        s_def [symmetric] l1_def)
  obtain l' where l': "window_advance n l1 = Some l'" "fgl_wf l'" "fgl_index l' = (i + int n) mod 25"
      "fgl_seq_id l' = (s + int n) mod 256"
      "\<forall>j < 25. fgl_fragments l' ! j = (if (int j - i - 1) mod 25 < int n then undef (fgl_fragments l1 ! j) else fgl_fragments l1 ! j)"
    using Suc.IH [OF wf] Suc.prems(2) by (auto simp: l1_def)
  have cell: "fgl_fragments l' ! j =
      (if (int j - fgl_index l - 1) mod 25 < int (Suc n) then undef (fgl_fragments l ! j) else fgl_fragments l ! j)"
    if j: "j < 25" for j
  proof -
    have "int j = i \<longleftrightarrow> (int j - fgl_index l - 1) mod 25 = 0"
      using mod_eq_dvd_iff [of "int j" 25 "fgl_index l + 1"] j by (auto simp: i_def dvd_eq_mod_eq_0 algebra_simps)
    moreover have "(int j - i - 1) mod 25 = (int j - fgl_index l - 1 - 1) mod 25"
      using mod_diff_right_eq [of "int j - 1" "fgl_index l + 1" 25] by (simp add: i_def algebra_simps)
    moreover have "(int j - fgl_index l - 1) mod 25 < int (Suc n)
      \<longleftrightarrow> (int j - fgl_index l - 1) mod 25 = 0 \<or> (int j - fgl_index l - 1 - 1) mod 25 < int n"
      using step_mod [of "int n"] Suc.prems(2) by (simp add: add.commute)
    moreover have "fgl_fragments l1 ! j = (if int j = i then undef (fgl_fragments l ! j) else fgl_fragments l ! j)"
      using Suc.prems(1) j bounds by (auto simp: l1_def fgl_wf_def nth_list_update)
    ultimately show ?thesis using l'(5) j by auto
  qed
  have "(i + int n) mod 25 = (fgl_index l + int (Suc n)) mod 25" "(s + int n) mod 256 = (fgl_seq_id l + int (Suc n)) mod 256"
    by (simp_all add: i_def s_def mod_simps ac_simps)
  then show ?case using step l' cell by auto
qed

text \<open>The three cases: inside the window, ahead of it, and too far away.\<close>

lemma get_buf_inside:
  assumes "fgl_wf l" and "0 \<le> s" and "s < 256" and "- 25 < ahead l s" and "ahead l s \<le> 0"
  shows "fragment_list_get_buf l s = Some ((fgl_index l + ahead l s) mod 25, l)"
  using assms ahead_eq [OF assms(1-3)]
  by (simp add: fragment_list_get_buf_def N_FRAG_BUF_def fgl_wf_def modulo_add_eq Let_def)

lemma get_buf_ahead:
  assumes "fgl_wf l" and "0 \<le> s" and "s < 256" and "0 < ahead l s" and "ahead l s < 25"
  shows "\<exists>l'. fragment_list_get_buf l s = Some ((fgl_index l + ahead l s) mod 25, l') \<and> fgl_wf l'
    \<and> fgl_index l' = (fgl_index l + ahead l s) mod 25 \<and> fgl_seq_id l' = s
    \<and> (\<forall>j < 25. fgl_fragments l' ! j =
         (if (int j - fgl_index l - 1) mod 25 < ahead l s then undef (fgl_fragments l ! j) else fgl_fragments l ! j))"
proof -
  obtain l' where l': "window_advance (nat (ahead l s)) l = Some l'" "fgl_wf l'"
      "fgl_index l' = (fgl_index l + ahead l s) mod 25" "fgl_seq_id l' = (fgl_seq_id l + ahead l s) mod 256"
      "\<forall>j < 25. fgl_fragments l' ! j =
         (if (int j - fgl_index l - 1) mod 25 < ahead l s then undef (fgl_fragments l ! j) else fgl_fragments l ! j)"
    using window_advance_spec [OF assms(1), of "nat (ahead l s)"] assms(4,5) by (auto simp: nat_less_iff)
  moreover have "fragment_list_get_buf l s = Some ((fgl_index l + ahead l s) mod 25, l')"
    using assms ahead_eq [OF assms(1-3)] l'
    by (simp add: fragment_list_get_buf_def N_FRAG_BUF_def modulo_add_eq Let_def del: bind_Some_iff)
  ultimately show ?thesis using ahead_eq(2) [OF assms(1-3)] by auto
qed

lemma get_buf_reset:
  assumes "fgl_wf l" and "0 \<le> s" and "s < 256" and "25 \<le> \<bar>ahead l s\<bar>"
  shows "fragment_list_get_buf l s = Some (0, l\<lparr>fgl_fragments := map undef (fgl_fragments l), fgl_index := 0, fgl_seq_id := s\<rparr>)"
  using assms ahead_eq [OF assms(1-3)]
  by (simp add: fragment_list_get_buf_def N_FRAG_BUF_def modulo_add_eq Let_def)

text \<open>In every case the buffers of the window stay what they are; at most they become undefined.\<close>

definition same_bufs :: "fragment_list \<Rightarrow> fragment_list \<Rightarrow> bool" where
  "same_bufs l l' \<longleftrightarrow>
     (\<forall>j < 25. fgl_fragments l' ! j = fgl_fragments l ! j \<or> fgl_fragments l' ! j = undef (fgl_fragments l ! j))"

lemma get_buf_total:
  assumes "fgl_wf l" and "0 \<le> s" and "s < 256"
  shows "\<exists>i l'. fragment_list_get_buf l s = Some (i, l') \<and> fgl_wf l' \<and> 0 \<le> i \<and> i < 25 \<and> same_bufs l l'"
proof -
  consider "- 25 < ahead l s" "ahead l s \<le> 0" | "0 < ahead l s" "ahead l s < 25" | "25 \<le> \<bar>ahead l s\<bar>"
    by linarith
  then show ?thesis
  proof cases
    case 1
    with get_buf_inside [OF assms] assms show ?thesis by (auto simp: same_bufs_def)
  next
    case 2
    with get_buf_ahead [OF assms] show ?thesis by (fastforce simp: same_bufs_def)
  next
    case 3
    with get_buf_reset [OF assms] assms show ?thesis by (auto simp: same_bufs_def fgl_wf_def)
  qed
qed

subsection \<open>The invariant\<close>

definition frame_ok :: "frame \<Rightarrow> bool" where
  "frame_ok frm \<longleftrightarrow> 4 \<le> fb_headroom frm \<and> 0 \<le> fb_payload_size frm \<and> 0 \<le> fb_tailroom frm
     \<and> BUF_SIZE frm < BUF_SIZE_MAX \<and> 4 \<le> fr_max_fragment_size frm \<and> fr_max_fragment_size frm < 65536"

definition fbuf_ok :: "frame \<Rightarrow> buffer \<Rightarrow> bool" where
  "fbuf_ok frm b \<longleftrightarrow> buf_wf b \<and> b_data b \<noteq> None \<and> b_capacity b = BUF_SIZE frm"

definition in_ok :: "frame \<Rightarrow> fragment_list \<Rightarrow> bool" where
  "in_ok frm l \<longleftrightarrow> fgl_wf l \<and> (\<forall>j < 25. fbuf_ok frm (fg_buf (fgl_fragments l ! j)))"

definition out_ok :: "frame \<Rightarrow> fragment_master \<Rightarrow> bool" where
  "out_ok frm f \<longleftrightarrow> b_len (fm_outgoing f) > 0 \<longrightarrow>
     fb_headroom frm \<le> b_offset (fm_outgoing f) \<and> 0 < fm_outgoing_frag_size f \<and> fm_outgoing_frag_size f < 65536
     \<and> fm_outgoing_frag_size f mod 4 = 0 \<and> 0 \<le> fm_outgoing_frag_id f
     \<and> fm_outgoing_frag_id f * fm_outgoing_frag_size f + b_len (fm_outgoing f) \<le> MAX_FRAGS * fm_outgoing_frag_size f"

definition fm_wf :: "frame \<Rightarrow> fragment_master \<Rightarrow> bool" where
  "fm_wf frm f \<longleftrightarrow> in_ok frm (fm_incoming f) \<and> fbuf_ok frm (fm_outgoing f) \<and> fbuf_ok frm (fm_outgoing_return f)
     \<and> 0 \<le> fm_outgoing_seq_id f \<and> fm_outgoing_seq_id f < N_SEQ_ID \<and> out_ok frm f"

lemma alloc_fragments_ok:
  assumes "frame_ok frm"
  shows "\<exists>fgs'. alloc_fragments frm fgs = Some fgs' \<and> length fgs' = length fgs
    \<and> (\<forall>j < length fgs. fbuf_ok frm (fg_buf (fgs' ! j)))"
proof (induction fgs)
  case Nil
  then show ?case by simp
next
  case (Cons fg fgs)
  have "0 \<le> BUF_SIZE frm" "BUF_SIZE frm < BUF_SIZE_MAX" using assms by (auto simp: frame_ok_def BUF_SIZE_def)
  then obtain b where b: "alloc_buf (BUF_SIZE frm) = Some b" "fbuf_ok frm b"
    using alloc_buf_wf [of "BUF_SIZE frm"] by (auto simp: alloc_buf_Some_iff fbuf_ok_def)
  with Cons show ?case by (auto simp: nth_Cons' simp del: bind_Some_iff)
qed

lemma fragment_frame_init_wf:
  assumes "frame_ok frm"
  shows "\<exists>f. fragment_frame_init (fragment_init now r) frm = Some f \<and> fm_wf frm f \<and> \<not> fragment_outgoing_defined f
    \<and> fgl_seq_id (fm_incoming f) = 0"
proof -
  have "0 \<le> BUF_SIZE frm" "BUF_SIZE frm < BUF_SIZE_MAX" using assms by (auto simp: frame_ok_def BUF_SIZE_def)
  then obtain b where b: "alloc_buf (BUF_SIZE frm) = Some b" "fbuf_ok frm b" "b_len b = 0"
    using alloc_buf_wf [of "BUF_SIZE frm"] by (auto simp: alloc_buf_Some_iff fbuf_ok_def)
  obtain fgs where fgs: "alloc_fragments frm (fgl_fragments (fm_incoming (fragment_init now r))) = Some fgs"
      "length fgs = 25" "\<forall>j < 25. fbuf_ok frm (fg_buf (fgs ! j))"
    using alloc_fragments_ok [OF assms, of "fgl_fragments (fm_incoming (fragment_init now r))"]
    by (auto simp: fragment_init_def frag_consts)
  have "fragment_frame_init (fragment_init now r) frm = Some ((fragment_init now r)
      \<lparr>fm_incoming := (fm_incoming (fragment_init now r))\<lparr>fgl_fragments := fgs\<rparr>, fm_outgoing := b, fm_outgoing_return := b\<rparr>)"
    using b fgs by (simp add: fragment_frame_init_def fragment_list_buf_init_def del: bind_Some_iff)
  moreover have "c_int r AND 255 = c_int r mod 256" using and_masks(2) by simp
  ultimately show ?thesis
    using b fgs
    by (auto simp: fm_wf_def in_ok_def out_ok_def fgl_wf_def fragment_init_def frag_consts fragment_outgoing_defined_def)
qed

subsection \<open>Incoming datagrams keep the invariant\<close>

lemma buf_copy_range_all:
  assumes "buf_wf d" and "b_data d = Some xs" and "buf_wf src" and "0 \<le> i"
  shows "buf_copy_range d i src 0 (b_len src) = Some
    (if b_offset d + i + b_len src \<le> b_capacity d
     then (True, d\<lparr>b_len := max (b_len d) (i + b_len src),
                   b_data := Some (overwrite xs (nat (b_offset d + i)) (buf_content src))\<rparr>)
     else (False, d))"
proof (cases "b_offset d + i + b_len src \<le> b_capacity d")
  case False
  then show ?thesis by (simp add: buf_copy_range_def)
next
  case True
  have src: "mem_read (b_data src) (b_offset src) (b_len src) = Some (buf_content src)"
    using assms(3) by (cases rule: buf_wf_cases) (auto simp: mem_read_def)
  have "mem_write (Some xs) (b_offset d + i) (buf_content src)
      = Some (Some (overwrite xs (nat (b_offset d + i)) (buf_content src)))"
    using True assms buf_wf_fields [OF assms(1)] length_buf_content [OF assms(3)]
    by (intro mem_write_Some) (auto simp: buf_wf_def)
  then show ?thesis
    using True src assms buf_wf_fields [OF assms(3)]
    by (cases d) (auto simp: buf_copy_range_def max_def Let_def simp del: bind_Some_iff)
qed

lemma copied_wf:
  assumes "buf_wf d" and "b_data d = Some xs" and "0 \<le> i" and "b_offset d + i + int (length ys) \<le> b_capacity d"
  shows "buf_wf (d\<lparr>b_len := max (b_len d) (i + int (length ys)), b_data := Some (overwrite xs (nat (b_offset d + i)) ys)\<rparr>)"
  using assms by (auto simp: buf_wf_def)

lemma header_field_bounds:
  "0 \<le> header_field flags sh m" "0 \<le> header_field flags FRAG_SEQ_ID_SHIFT FRAG_SEQ_ID_MASK"
  "header_field flags FRAG_SEQ_ID_SHIFT FRAG_SEQ_ID_MASK < 256"
  by (simp_all add: header_fields) (simp add: header_field_def)

lemma set_fragment_ok:
  assumes "in_ok frm l" and "0 \<le> i" and "i < 25" and "fbuf_ok frm (fg_buf fg)"
  shows "\<exists>l'. set_fragment l i fg = Some l' \<and> in_ok frm l'"
  using assms by (auto simp: set_fragment_def in_ok_def fgl_wf_def nth_list_update)

lemma same_bufs_ok: "in_ok frm l \<Longrightarrow> same_bufs l l' \<Longrightarrow> fgl_wf l' \<Longrightarrow> in_ok frm l'"
  unfolding in_ok_def same_bufs_def by fastforce

lemma fragment_join_ok:
  assumes frm: "frame_ok frm" and f: "fm_wf frm f" and b: "buf_wf buf"
  shows "\<exists>b' f'. fragment_join now f buf frm flags ty = Some (b', f') \<and> fm_wf frm f' \<and> buf_wf b'"
proof -
  define s n size where "s = header_field flags FRAG_SEQ_ID_SHIFT FRAG_SEQ_ID_MASK"
    and "n = header_field flags FRAG_ID_SHIFT FRAG_ID_MASK"
    and "size = (if ty = FRAG_YES_LAST then push_bit FRAG_SIZE_ROUND_SHIFT (header_field flags FRAG_SIZE_SHIFT FRAG_SIZE_MASK) else b_len buf)"
  note defs = s_def [symmetric] n_def [symmetric] size_def [symmetric]
  have s: "0 \<le> s" "s < 256" and n: "0 \<le> n * size"
    using header_field_bounds buf_wf_fields [OF b] by (auto simp: s_def n_def size_def push_bit_eq_mult)
  have inok: "in_ok frm (fm_incoming f)" using f by (simp add: fm_wf_def)
  then obtain i l where l: "fragment_list_get_buf (fm_incoming f) s = Some (i, l)" "0 \<le> i" "i < 25" "in_ok frm l"
    using get_buf_total [OF _ s, of "fm_incoming f"] same_bufs_ok by (force simp: in_ok_def)
  have keep: "fm_wf frm (f\<lparr>fm_incoming := l'\<rparr>)" if "in_ok frm l'" for l'
    using f that by (simp add: fm_wf_def out_ok_def)
  have empty: "buf_wf (buf\<lparr>b_len := 0\<rparr>)" using b by (auto simp: buf_wf_def split: option.splits)
  define fg where "fg = fgl_fragments l ! nat i"
  have fg: "get_fragment l i = Some fg" "fbuf_ok frm (fg_buf fg)"
    using l by (auto simp: get_fragment_def fg_def in_ok_def fgl_wf_def)
  obtain fg1 where fg1: "(if \<not> fg_defined fg \<or> fg_max_frag_size fg \<noteq> size
              then do {
                let (ok, b) = buf_init (fg_buf fg) (fb_headroom frm);
                assertion ok;
                Some (fg\<lparr>fg_defined := True, fg_max_frag_size := size, fg_map := 0, fg_buf := b\<rparr>) }
              else Some fg) = Some fg1" "fbuf_ok frm (fg_buf fg1)"
    using fg(2) frm buf_init_wf [of "fg_buf fg" "fb_headroom frm"]
    by (cases "\<not> fg_defined fg \<or> fg_max_frag_size fg \<noteq> size")
       (auto simp: buf_init_def fbuf_ok_def frame_ok_def BUF_SIZE_def)
  obtain xs where xs: "b_data (fg_buf fg1) = Some xs" "buf_wf (fg_buf fg1)" using fg1 by (auto simp: fbuf_ok_def)
  obtain ok b1 where b1: "buf_copy_range (fg_buf fg1) (n * size) buf 0 (b_len buf) = Some (ok, b1)" "fbuf_ok frm b1"
    using buf_copy_range_all [OF xs(2,1) b n] copied_wf [OF xs(2,1) n, of "buf_content buf"] fg1(2)
    by (cases "b_offset (fg_buf fg1) + n * size + b_len buf \<le> b_capacity (fg_buf fg1)")
       (auto simp: fbuf_ok_def length_buf_content [OF b])
  have store: "\<exists>l'. set_fragment l i fg' = Some l' \<and> in_ok frm l'" if "fbuf_ok frm (fg_buf fg')" for fg'
    using set_fragment_ok [OF l(4,2,3) that] .
  show ?thesis
    unfolding fragment_join_def frag_err_def
    using l fg fg1 b1 keep empty store [of fg1]
      store [of "fg1\<lparr>fg_buf := b1, fg_map := fg_map fg1 OR push_bit (nat n) (if ty = FRAG_YES_LAST then FRAG_MAP_MASK else 1), fg_timestamp := now\<rparr>"]
      store [of "fg1\<lparr>fg_buf := b1, fg_map := fg_map fg1 OR push_bit (nat n) (if ty = FRAG_YES_LAST then FRAG_MAP_MASK else 1), fg_timestamp := now, fg_defined := False\<rparr>"]
    by (simp add: defs del: bind_Some_iff) (auto simp: Let_def fbuf_ok_def simp del: bind_Some_iff)
qed

lemma fragment_incoming_ok:
  assumes "frame_ok frm" and "fm_wf frm f" and "buf_wf buf"
  shows "\<exists>b' f'. fragment_incoming now f buf frm = Some (b', f') \<and> fm_wf frm f' \<and> buf_wf b'"
proof (cases "4 \<le> b_len buf")
  case False
  have "buf_wf (buf\<lparr>b_len := 0\<rparr>)" using assms(3) by (auto simp: buf_wf_def split: option.splits)
  with False assms show ?thesis
    by (auto simp: fragment_incoming_def buf_read_pos frag_err_def)
next
  case True
  then have b: "buf_wf (buf_consumed buf 4)" using assms(3) by simp
  then have "buf_wf ((buf_consumed buf 4)\<lparr>b_len := 0\<rparr>)" by (auto simp: buf_wf_def split: option.splits)
  with True b assms fragment_join_ok [OF assms(1,2) b] show ?thesis
    by (auto simp: fragment_incoming_def buf_read_pos frag_err_def Let_def simp del: bind_Some_iff)
qed

subsection \<open>Outgoing datagrams keep the invariant\<close>

lemma length_take_content:
  assumes "buf_wf s" and "0 \<le> n" and "n \<le> b_len s"
  shows "int (length (take (nat n) (buf_content s))) = n"
  using length_buf_content [OF assms(1)] assms(2,3) unfolding length_take by linarith

lemma buf_copy_n_eq:
  assumes "buf_wf d" and "buf_wf s" and "b_data s \<noteq> None" and "0 \<le> n" and "n \<le> b_len s" and "buf_safe d n"
  shows "buf_copy_n d s n = Some (True, buf_appended d (take (nat n) (buf_content s)), buf_consumed s (nat n))"
proof -
  have len: "int (length (take (nat n) (buf_content s))) = n"
    by (rule length_take_content [OF assms(2,4,5)])
  obtain xs where xs: "b_data s = Some xs" using assms by auto
  have "buf_read_alloc s n = (Some (b_offset s), buf_consumed s (nat n))"
    using assms by (auto simp: buf_read_alloc_def buf_bptr_def buf_valid_wf buf_consumed_def)
  moreover have "mem_read (b_data s) (b_offset s) n = Some (take (nat n) (buf_content s))"
    using assms xs by (auto simp: buf_wf_def buf_content_def mem_read_def)
  ultimately show ?thesis
    using buf_write_eq [OF assms(1), of "take (nat n) (buf_content s)"] assms(6) xs len
    by (simp add: buf_copy_n_def)
qed

lemma fragment_prepend_flags_eq:
  assumes "buf_wf b" and "b_data b \<noteq> None" and "4 \<le> b_offset b"
  shows "fragment_prepend_flags b ty s n k = Some (buf_prepended b (u32_be (fragment_header ty s n k)))"
  using assms by (simp add: fragment_prepend_flags_def buf_write_prepend_eq)

lemma buf_init_ok:
  assumes "frame_ok frm" and "fbuf_ok frm b"
  shows "buf_init b (fb_headroom frm) = (True, b\<lparr>b_len := 0, b_offset := fb_headroom frm\<rparr>)"
    and "buf_wf (b\<lparr>b_len := 0, b_offset := fb_headroom frm\<rparr>)"
    and "buf_content (b\<lparr>b_len := 0, b_offset := fb_headroom frm\<rparr>) = []"
  using assms by (auto simp: buf_init_def fbuf_ok_def frame_ok_def BUF_SIZE_def buf_wf_def buf_content_def)

lemma fragment_ready_to_send_spec:
  assumes frm: "frame_ok frm" and f: "fm_wf frm f" and "fragment_outgoing_defined f"
  shows "\<exists>b f'. fragment_ready_to_send f buf frm = Some (True, b, f') \<and> fm_wf frm f' \<and> buf_wf b \<and> b_data b \<noteq> None
    \<and> buf_content b = u32_be (fragment_header
        (if b_len (fm_outgoing f) \<le> fm_outgoing_frag_size f then FRAG_YES_LAST else FRAG_YES_NOTLAST)
        (fm_outgoing_seq_id f) (fm_outgoing_frag_id f) (fm_outgoing_frag_size f))
        @ take (nat (fm_outgoing_frag_size f)) (buf_content (fm_outgoing f))
    \<and> buf_content (fm_outgoing f') = drop (nat (fm_outgoing_frag_size f)) (buf_content (fm_outgoing f))
    \<and> fm_outgoing_frag_id f' = fm_outgoing_frag_id f + 1 \<and> fm_outgoing_seq_id f' = fm_outgoing_seq_id f
    \<and> fm_outgoing_frag_size f' = fm_outgoing_frag_size f \<and> fm_incoming f' = fm_incoming f"
proof -
  define out k where "out = fm_outgoing f" and "k = fm_outgoing_frag_size f"
  define size where "size = (if b_len out \<le> k then b_len out else k)"
  define b1 where "b1 = (fm_outgoing_return f)\<lparr>b_len := 0, b_offset := fb_headroom frm\<rparr>"
  have out: "buf_wf out" "b_data out \<noteq> None" "b_capacity out = BUF_SIZE frm" "0 < b_len out" "fb_headroom frm \<le> b_offset out"
    and k: "0 < k" "k < 65536" "k mod 4 = 0" "fm_outgoing_frag_id f * k + b_len out \<le> 32 * k" "0 \<le> fm_outgoing_frag_id f"
    using f assms(3) by (auto simp: fm_wf_def fbuf_ok_def out_ok_def out_def k_def fragment_outgoing_defined_def frag_consts)
  have ret: "fbuf_ok frm (fm_outgoing_return f)" using f by (simp add: fm_wf_def)
  note init = buf_init_ok [OF frm ret, folded b1_def]
  have size: "0 < size" "size \<le> b_len out" "nat size = min (nat (b_len out)) (nat k)" using out k by (auto simp: size_def)
  have taken: "take (nat size) (buf_content out) = take (nat k) (buf_content out)"
      "drop (nat size) (buf_content out) = drop (nat k) (buf_content out)"
    using size(3) length_buf_content [OF out(1)] by (auto simp: min_def split: if_splits)
  have safe: "buf_safe b1 size"
    using init size ret out buf_wf_fields [OF out(1)]
    by (subst buf_safe_wf) (auto simp: b1_def fbuf_ok_def)
  define b2 where "b2 = buf_appended b1 (take (nat size) (buf_content out))"
  have len: "int (length (take (nat size) (buf_content out))) = size"
    using length_take_content [OF out(1) _ size(2)] size by simp
  have b2: "buf_wf b2" "buf_content b2 = take (nat k) (buf_content out)" "b_data b2 \<noteq> None" "b_offset b2 = fb_headroom frm"
      "b_capacity b2 = BUF_SIZE frm"
    using buf_appended_wf [OF init(2), of "take (nat size) (buf_content out)"] safe init ret taken len
    by (auto simp: b2_def b1_def fbuf_ok_def)
  have copy: "buf_copy_n b1 out size = Some (True, b2, buf_consumed out (nat size))"
    unfolding b2_def using buf_copy_n_eq [OF init(2) out(1,2) _ size(2) safe] size by simp
  define b3 where "b3 = buf_prepended b2 (u32_be (fragment_header (if b_len out \<le> k then FRAG_YES_LAST else FRAG_YES_NOTLAST)
      (fm_outgoing_seq_id f) (fm_outgoing_frag_id f) k))"
  have pre: "fragment_prepend_flags b2 (if b_len out \<le> k then FRAG_YES_LAST else FRAG_YES_NOTLAST)
      (fm_outgoing_seq_id f) (fm_outgoing_frag_id f) k = Some b3"
    unfolding b3_def using b2 frm by (intro fragment_prepend_flags_eq) (auto simp: frame_ok_def)
  have b3: "buf_wf b3" "buf_content b3 = u32_be (fragment_header (if b_len out \<le> k then FRAG_YES_LAST else FRAG_YES_NOTLAST)
      (fm_outgoing_seq_id f) (fm_outgoing_frag_id f) k) @ take (nat k) (buf_content out)" "b_data b3 \<noteq> None"
      "b_capacity b3 = BUF_SIZE frm"
    using b2 frm by (auto simp: b3_def frame_ok_def)
  define f' where "f' = f\<lparr>fm_outgoing := buf_consumed out (nat size), fm_outgoing_frag_id := fm_outgoing_frag_id f + 1,
            fm_outgoing_return := (fm_outgoing_return f)\<lparr>b_data := b_data b3\<rparr>\<rparr>"
  have send: "fragment_ready_to_send f buf frm = Some (True, b3, f')"
    using assms(3) init(1) copy pre size out
    by (auto simp: fragment_ready_to_send_def f'_def out_def [symmetric] k_def [symmetric] size_def b1_def [symmetric]
        simp del: bind_Some_iff)
  have "fbuf_ok frm ((fm_outgoing_return f)\<lparr>b_data := b_data b3\<rparr>)"
    using ret b3 by (auto simp: fbuf_ok_def buf_wf_def)
  then have "fm_wf frm f'"
    using f out k size by (auto simp: f'_def fm_wf_def fbuf_ok_def out_ok_def k_def [symmetric] size_def frag_consts algebra_simps split: if_splits)
  moreover have "buf_content (fm_outgoing f') = drop (nat k) (buf_content out)"
    using out size taken by (simp add: f'_def)
  ultimately show ?thesis
    using send b3 by (auto simp: f'_def out_def k_def)
qed

lemma fragment_outgoing_whole:
  assumes "buf_wf buf" and "b_data buf \<noteq> None" and "4 \<le> b_offset buf" and "b_len buf \<le> fr_max_fragment_size frm" and "0 < b_len buf"
  shows "\<exists>b. fragment_outgoing f buf frm = Some (b, f) \<and> buf_wf b \<and> b_data b \<noteq> None \<and> buf_content b = u32_be 0 @ buf_content buf"
proof -
  have "fragment_header FRAG_WHOLE 0 0 0 = 0" by (simp add: fragment_header_def frag_consts)
  then show ?thesis
    using assms by (simp add: fragment_outgoing_def fragment_prepend_flags_eq del: not_None_eq)
qed

text \<open>The state in which the first fragment of a datagram is sent.\<close>

definition outgoing_start :: "frame \<Rightarrow> fragment_master \<Rightarrow> u8 list \<Rightarrow> int \<Rightarrow> fragment_master \<Rightarrow> bool" where
  "outgoing_start frm f p k f1 \<longleftrightarrow> fm_wf frm f1 \<and> fragment_outgoing_defined f1 \<and> buf_content (fm_outgoing f1) = p
     \<and> fm_outgoing_seq_id f1 = (fm_outgoing_seq_id f + 1) mod 256 \<and> fm_outgoing_frag_id f1 = 0
     \<and> fm_outgoing_frag_size f1 = k \<and> fm_incoming f1 = fm_incoming f"

lemma fragment_outgoing_starts:
  assumes frm: "frame_ok frm" and f: "fm_wf frm f" and buf: "buf_wf buf"
    and len: "fr_max_fragment_size frm < b_len buf" "b_len buf \<le> fb_payload_size frm + fb_tailroom frm"
    and k: "optimal_fragment_size (b_len buf) (fr_max_fragment_size frm) = Some k" "b_len buf \<le> k * MAX_FRAGS"
  shows "\<exists>f1. outgoing_start frm f (buf_content buf) k f1
    \<and> fragment_outgoing f buf frm =
        (case fragment_ready_to_send f1 (buf\<lparr>b_len := 0\<rparr>) frm of
           None \<Rightarrow> None | Some (sent, b, f2) \<Rightarrow> do { assertion sent; Some (b, f2) })"
proof -
  define m where "m = fr_max_fragment_size frm"
  have m: "4 \<le> m" "m < b_len buf" "m < 65536" using frm len by (auto simp: m_def frame_ok_def)
  have k': "0 < k" "k mod 4 = 0" "k < 65536"
    using optimal_fragment_size_ok [of m "b_len buf"] m k by (auto simp: m_def)
  define out1 where "out1 = (fm_outgoing f)\<lparr>b_len := 0, b_offset := fb_headroom frm\<rparr>"
  have fb: "fbuf_ok frm (fm_outgoing f)" using f by (simp add: fm_wf_def)
  note init = buf_init_ok [OF frm fb, folded out1_def]
  have safe: "buf_safe out1 (b_len buf)"
    using init len fb buf_wf_fields [OF buf] by (subst buf_safe_wf) (auto simp: out1_def fbuf_ok_def BUF_SIZE_def)
  define out2 where "out2 = buf_appended out1 (buf_content buf)"
  have out2: "buf_wf out2" "buf_content out2 = buf_content buf" "b_data out2 \<noteq> None" "b_offset out2 = fb_headroom frm"
      "b_capacity out2 = BUF_SIZE frm" "b_len out2 = b_len buf"
    using buf_appended_wf [OF init(2), of "buf_content buf"] safe init fb buf
    by (auto simp: out2_def out1_def fbuf_ok_def)
  define f1 where "f1 = f\<lparr>fm_outgoing_frag_size := k, fm_outgoing := out2,
      fm_outgoing_seq_id := (fm_outgoing_seq_id f + 1) mod 256, fm_outgoing_frag_id := 0\<rparr>"
  have "outgoing_start frm f (buf_content buf) k f1"
    using f out2 k k' m by (auto simp: outgoing_start_def f1_def fm_wf_def fbuf_ok_def out_ok_def
        fragment_outgoing_defined_def frag_consts)
  moreover have "fragment_outgoing f buf frm =
        (case fragment_ready_to_send f1 (buf\<lparr>b_len := 0\<rparr>) frm of
           None \<Rightarrow> None | Some (sent, b, f2) \<Rightarrow> do { assertion sent; Some (b, f2) })"
    using m k init(1) safe f buf
    by (auto simp: fragment_outgoing_def m_def [symmetric] buf_copy_eq [OF init(2)] out2_def [symmetric] out1_def [symmetric]
        f1_def fm_wf_def frag_consts modulo_add_eq split: option.splits simp del: bind_Some_iff)
  ultimately show ?thesis by blast
qed

text \<open>
  A datagram that needs more than 32 fragments is dropped. The code has by then stored the new size of a
  fragment; when a previous datagram is still being sent, its remaining fragments would be cut with the wrong
  size, so the caller has to send the rest of one datagram before it passes the next.
\<close>

lemma fragment_outgoing_total:
  assumes frm: "frame_ok frm" and f: "fm_wf frm f" and idle: "\<not> fragment_outgoing_defined f"
    and buf: "buf_wf buf" "b_data buf \<noteq> None" "4 \<le> b_offset buf"
    and len: "b_len buf \<le> fb_payload_size frm + fb_tailroom frm"
  shows "\<exists>b f'. fragment_outgoing f buf frm = Some (b, f') \<and> fm_wf frm f' \<and> buf_wf b"
proof -
  consider "b_len buf = 0" | "0 < b_len buf" "b_len buf \<le> fr_max_fragment_size frm" | "fr_max_fragment_size frm < b_len buf"
    using buf_wf_fields [OF buf(1)] by linarith
  then show ?thesis
  proof cases
    case 1
    with f buf show ?thesis by (simp add: fragment_outgoing_def)
  next
    case 2
    with fragment_outgoing_whole [OF buf] f show ?thesis by blast
  next
    case 3
    with frm obtain k where k: "optimal_fragment_size (b_len buf) (fr_max_fragment_size frm) = Some k"
      using optimal_fragment_size_ok [of "fr_max_fragment_size frm" "b_len buf"] by (auto simp: frame_ok_def)
    show ?thesis
    proof (cases "b_len buf \<le> k * MAX_FRAGS")
      case True
      then obtain f1 where f1: "outgoing_start frm f (buf_content buf) k f1" and e: "fragment_outgoing f buf frm =
        (case fragment_ready_to_send f1 (buf\<lparr>b_len := 0\<rparr>) frm of
           None \<Rightarrow> None | Some (sent, b, f2) \<Rightarrow> do { assertion sent; Some (b, f2) })"
        using fragment_outgoing_starts [OF frm f buf(1) 3 len k] by blast
      obtain b f2 where "fragment_ready_to_send f1 (buf\<lparr>b_len := 0\<rparr>) frm = Some (True, b, f2)" "fm_wf frm f2" "buf_wf b"
        using fragment_ready_to_send_spec [OF frm, of f1 "buf\<lparr>b_len := 0\<rparr>"] f1 by (auto simp: outgoing_start_def)
      with e show ?thesis by simp
    next
      case False
      have "fm_wf frm (f\<lparr>fm_outgoing_frag_size := k\<rparr>)"
        using f idle by (simp add: fm_wf_def out_ok_def fragment_outgoing_defined_def)
      moreover have "buf_wf (buf\<lparr>b_len := 0\<rparr>)" using buf by (auto simp: buf_wf_def)
      ultimately show ?thesis using 3 False k buf_wf_fields [OF buf(1)] frm
        by (auto simp: fragment_outgoing_def frag_err_def frame_ok_def)
    qed
  qed
qed

subsection \<open>Housekeeping keeps the invariant\<close>

lemma fragment_housekeeping_wf:
  assumes "fm_wf frm f"
  shows "fm_wf frm (fst (fragment_housekeeping now f frm tv))"
  using assms
  by (auto simp: fragment_housekeeping_def fragment_wakeup_def fragment_ttl_reap_def fm_wf_def in_ok_def out_ok_def
      fgl_wf_def fragment_outgoing_defined_def Let_def split: prod.splits)

end
