(* ===== verification/Fragment_Props.thy ===== *)
theory Fragment_Props
  imports Fragment
begin

text \<open>
  The theorems on fragmentation: any sequence of operations keeps the invariant and never faults, the size of
  the fragments, and the composition of a sender with a receiver, which gives the datagram back whatever the
  order of the fragments and whatever other datagrams arrive between them.
\<close>

subsection \<open>Any use of the interface\<close>

datatype frag_op =
    Incoming time_t buffer
  | Outgoing buffer
  | Ready_To_Send
  | Housekeeping time_t

text \<open>
  A step of the main loop, which takes no new datagram for \<^verbatim>\<open>fragment_outgoing\<close> while fragments of the
  previous one are left (\<^verbatim>\<open>TO_LINK_FRAG\<close> of \<^verbatim>\<open>forward.h\<close>).
\<close>

fun frag_step :: "frame \<Rightarrow> frag_op \<Rightarrow> fragment_master \<Rightarrow> (buffer \<times> fragment_master) option" where
  "frag_step frm (Incoming now buf) f = fragment_incoming now f buf frm"
| "frag_step frm (Outgoing buf) f =
     (if fragment_outgoing_defined f then Some (buf, f) else fragment_outgoing f buf frm)"
| "frag_step frm Ready_To_Send f = do { (_, b, f') \<leftarrow> fragment_ready_to_send f clear_buf frm; Some (b, f') }"
| "frag_step frm (Housekeeping now) f = Some (clear_buf, fst (fragment_housekeeping now f frm None))"

fun frag_run :: "frame \<Rightarrow> frag_op list \<Rightarrow> fragment_master \<Rightarrow> (buffer list \<times> fragment_master) option" where
  "frag_run frm [] f = Some ([], f)"
| "frag_run frm (x # xs) f = do {
     (b, f1) \<leftarrow> frag_step frm x f;
     (bs, f2) \<leftarrow> frag_run frm xs f1;
     Some (b # bs, f2) }"

text \<open>The packets the caller may pass: with room for the header, and no larger than the buffers.\<close>

fun op_ok :: "frame \<Rightarrow> frag_op \<Rightarrow> bool" where
  "op_ok frm (Incoming now buf) \<longleftrightarrow> buf_wf buf"
| "op_ok frm (Outgoing buf) \<longleftrightarrow> buf_wf buf \<and> b_data buf \<noteq> None \<and> 4 \<le> b_offset buf
     \<and> b_len buf \<le> fb_payload_size frm + fb_tailroom frm"
| "op_ok frm _ \<longleftrightarrow> True"

lemma frag_step_ok:
  assumes "frame_ok frm" and "fm_wf frm f" and "op_ok frm x"
  shows "\<exists>b f'. frag_step frm x f = Some (b, f') \<and> fm_wf frm f' \<and> buf_wf b"
proof (cases x)
  case (Incoming now buf)
  then show ?thesis using fragment_incoming_ok [OF assms(1,2)] assms(3) by simp
next
  case (Outgoing buf)
  then show ?thesis using fragment_outgoing_total [OF assms(1,2), of buf] assms by (cases "fragment_outgoing_defined f") auto
next
  case Ready_To_Send
  show ?thesis
  proof (cases "fragment_outgoing_defined f")
    case True
    then show ?thesis
      using fragment_ready_to_send_spec [OF assms(1,2), of clear_buf] Ready_To_Send by auto
  next
    case False
    then show ?thesis using assms Ready_To_Send by (simp add: fragment_ready_to_send_def)
  qed
next
  case (Housekeeping now)
  then show ?thesis using fragment_housekeeping_wf [OF assms(2)] by simp
qed

lemma frag_run_ok:
  assumes "frame_ok frm" and "fm_wf frm f" and "\<forall>x\<in>set xs. op_ok frm x"
  shows "\<exists>bs f'. frag_run frm xs f = Some (bs, f') \<and> fm_wf frm f' \<and> (\<forall>b\<in>set bs. buf_wf b)"
  using assms(2,3)
proof (induction xs arbitrary: f)
  case Nil
  then show ?case by simp
next
  case (Cons x xs)
  obtain b f1 where b: "frag_step frm x f = Some (b, f1)" "fm_wf frm f1" "buf_wf b"
    using frag_step_ok [OF assms(1) Cons.prems(1), of x] Cons.prems(2) by auto
  obtain bs f2 where "frag_run frm xs f1 = Some (bs, f2)" "fm_wf frm f2" "\<forall>b\<in>set bs. buf_wf b"
    using Cons.IH [OF b(2)] Cons.prems(2) by auto
  with b show ?case by auto
qed

definition sample_frame :: frame where
  "sample_frame = \<lparr>fb_payload_size = 40, fb_headroom = 8, fb_tailroom = 8, fr_mss_fix = 0,
     fr_max_fragment_size = 10, fr_tun_mtu = 40, fr_tun_max_mtu = 40, fr_extra_tun = 0\<rparr>"

lemma sample_frame_ok [simp]: "frame_ok sample_frame"
  by (simp add: frame_ok_def sample_frame_def BUF_SIZE_def BUF_SIZE_MAX_def)

text \<open>
  C31: from the initialised state, whatever datagrams come in (the bytes are arbitrary), whatever is sent
  and whenever the timer runs, no call faults or fails an assertion, the invariant holds and every
  buffer handed out is well formed.
\<close>

theorem fragment_never_faults:
  assumes "frame_ok frm" and "\<forall>x\<in>set xs. op_ok frm x"
  shows "\<exists>f bs f'. fragment_frame_init (fragment_init now r) frm = Some f \<and> frag_run frm xs f = Some (bs, f')
    \<and> fm_wf frm f' \<and> (\<forall>b\<in>set bs. buf_wf b)"
  using fragment_frame_init_wf [OF assms(1), of now r] frag_run_ok [OF assms(1) _ assms(2)] by blast

theorem fragment_never_faults_witness:
  "\<exists>f bs f'. fragment_frame_init (fragment_init 100 77) sample_frame = Some f
    \<and> frag_run sample_frame
        [Outgoing (buf_of (replicate 40 1) 8 20), Incoming 101 (buf_of [0, 0, 0, 1, 9, 9, 9, 9] 0 8), Ready_To_Send] f
      = Some (bs, f') \<and> fm_wf sample_frame f'"
  using fragment_never_faults [of sample_frame
      "[Outgoing (buf_of (replicate 40 1) 8 20), Incoming 101 (buf_of [0, 0, 0, 1, 9, 9, 9, 9] 0 8), Ready_To_Send]" 100 77]
  by (auto simp: sample_frame_def [symmetric] BUF_SIZE_MAX_def) (auto simp: sample_frame_def)

text \<open>
  The size chosen for the fragments is a positive multiple of 4, at most the limit, and does not change the
  number of fragments that the largest multiple of 4 below the limit would give.
\<close>

theorem optimal_size_same_count:
  assumes "4 \<le> max_frag_size" and "max_frag_size < len"
  shows "\<exists>k. optimal_fragment_size len max_frag_size = Some k \<and> 0 < k \<and> k mod 4 = 0 \<and> k \<le> max_frag_size
    \<and> (len + k - 1) div k = (len + (max_frag_size - max_frag_size mod 4) - 1) div (max_frag_size - max_frag_size mod 4)"
proof -
  have "0 \<le> max_frag_size mod 4" by simp
  with optimal_fragment_size_ok [of max_frag_size len] assms show ?thesis by fastforce
qed

theorem optimal_size_same_count_witness: "optimal_fragment_size 1500 1303 = Some 752 \<and> (1500 + 752 - 1) div 752 = (2 :: int)"
proof -
  have "optimal_fragment_size 1500 1303 = Some 752" by code_simp
  then show ?thesis using optimal_size_same_count [of 1303 1500] by simp
qed

subsection \<open>What the sender emits\<close>

definition n_frags :: "nat \<Rightarrow> u8 list \<Rightarrow> nat" where
  "n_frags k p = (length p + k - 1) div k"

definition frag_bytes :: "int \<Rightarrow> nat \<Rightarrow> u8 list \<Rightarrow> nat \<Rightarrow> u8 list" where
  "frag_bytes s k p i =
     u32_be (fragment_header (if length p \<le> (i + 1) * k then FRAG_YES_LAST else FRAG_YES_NOTLAST) s (int i) (int k))
     @ take k (drop (i * k) p)"

fun send_rest :: "nat \<Rightarrow> frame \<Rightarrow> fragment_master \<Rightarrow> (buffer list \<times> fragment_master) option" where
  "send_rest 0 frm f = (if fragment_outgoing_defined f then None else Some ([], f))"
| "send_rest (Suc fuel) frm f =
     (if \<not> fragment_outgoing_defined f then Some ([], f)
      else do {
        (_, b, f1) \<leftarrow> fragment_ready_to_send f clear_buf frm;
        (bs, f2) \<leftarrow> send_rest fuel frm f1;
        Some (b # bs, f2) })"

definition send_datagram :: "frame \<Rightarrow> fragment_master \<Rightarrow> buffer \<Rightarrow> (buffer list \<times> fragment_master) option" where
  "send_datagram frm f buf = do {
     (b, f1) \<leftarrow> fragment_outgoing f buf frm;
     (bs, f2) \<leftarrow> send_rest (nat MAX_FRAGS) frm f1;
     Some (b # bs, f2) }"

lemma n_frags_iff: "0 < k \<Longrightarrow> i < n_frags k p \<longleftrightarrow> i * k < length p"
  unfolding n_frags_def Suc_le_eq [symmetric] by (subst less_eq_div_iff_mult_less_eq) auto

lemma send_rest_spec:
  assumes frm: "frame_ok frm" and "fm_wf frm f" and "0 < k" and "fm_outgoing_frag_id f = int i"
    and "fm_outgoing_frag_size f = int k" and "buf_content (fm_outgoing f) = drop (i * k) p"
    and "n_frags k p \<le> i + fuel" and "fm_outgoing_seq_id f = s"
  shows "\<exists>bs f'. send_rest fuel frm f = Some (bs, f') \<and> map buf_content bs = map (frag_bytes s k p) [i..<n_frags k p]
    \<and> fm_wf frm f' \<and> \<not> fragment_outgoing_defined f' \<and> (\<forall>b\<in>set bs. buf_wf b)"
  using assms(2-)
proof (induction fuel arbitrary: f i)
  case (0 f i)
  then have len: "b_len (fm_outgoing f) = int (length (drop (i * k) p))"
    using length_buf_content [of "fm_outgoing f"] by (simp add: fm_wf_def fbuf_ok_def)
  have "\<not> i * k < length p" using 0 n_frags_iff [of k i p] by auto
  with 0 len show ?case by (auto simp: fragment_outgoing_defined_def)
next
  case (Suc fuel f i)
  have wf: "buf_wf (fm_outgoing f)" using Suc.prems by (simp add: fm_wf_def fbuf_ok_def)
  have len: "b_len (fm_outgoing f) = int (length (drop (i * k) p))"
    using length_buf_content [OF wf] Suc.prems by simp
  show ?case
  proof (cases "i * k < length p")
    case False
    then have "\<not> fragment_outgoing_defined f" "[i..<n_frags k p] = []"
      using len n_frags_iff [of k i p] Suc.prems by (auto simp: fragment_outgoing_defined_def)
    then show ?thesis using Suc.prems by simp
  next
    case True
    then have d: "fragment_outgoing_defined f" using len by (simp add: fragment_outgoing_defined_def del: length_drop)
    have up: "[i..<n_frags k p] = i # [Suc i..<n_frags k p]"
      using True n_frags_iff [of k i p] Suc.prems(2) by (simp add: upt_rec [of i])
    have fin: "b_len (fm_outgoing f) \<le> fm_outgoing_frag_size f \<longleftrightarrow> length p \<le> (i + 1) * k"
      using len Suc.prems by auto
    obtain b f1 where b: "fragment_ready_to_send f clear_buf frm = Some (True, b, f1)" "fm_wf frm f1" "buf_wf b"
        "buf_content b = frag_bytes s k p i" "buf_content (fm_outgoing f1) = drop (Suc i * k) p"
        "fm_outgoing_frag_id f1 = int (Suc i)" "fm_outgoing_seq_id f1 = s" "fm_outgoing_frag_size f1 = int k"
      using fragment_ready_to_send_spec [OF frm Suc.prems(1) d, of clear_buf] Suc.prems fin
      by (auto simp: frag_bytes_def add.commute)
    obtain bs f2 where bs: "send_rest fuel frm f1 = Some (bs, f2)" "map buf_content bs = map (frag_bytes s k p) [Suc i..<n_frags k p]"
        "fm_wf frm f2" "\<not> fragment_outgoing_defined f2" "\<forall>b\<in>set bs. buf_wf b"
      using Suc.IH [OF b(2) Suc.prems(2) b(6,8,5)] Suc.prems b by auto
    with b d up show ?thesis by (auto simp del: bind_Some_iff)
  qed
qed

lemma send_datagram_spec:
  assumes frm: "frame_ok frm" and f: "fm_wf frm f" and buf: "buf_wf buf"
    and len: "fr_max_fragment_size frm < b_len buf" "b_len buf \<le> fb_payload_size frm + fb_tailroom frm"
    and k: "optimal_fragment_size (b_len buf) (fr_max_fragment_size frm) = Some (int k)" "b_len buf \<le> int k * MAX_FRAGS"
    and p: "p = buf_content buf" and s: "s = (fm_outgoing_seq_id f + 1) mod 256"
  shows "\<exists>bs f'. send_datagram frm f buf = Some (bs, f') \<and> map buf_content bs = map (frag_bytes s k p) [0..<n_frags k p]
    \<and> fm_wf frm f' \<and> \<not> fragment_outgoing_defined f' \<and> (\<forall>b\<in>set bs. buf_wf b)"
proof -
  have k0: "0 < k" using optimal_fragment_size_ok [of "fr_max_fragment_size frm" "b_len buf"] k frm len
    by (auto simp: frame_ok_def)
  have "int (length p) \<le> int k * 32" using k p length_buf_content [OF buf] by (simp add: frag_consts)
  then have "length p \<le> 32 * k" by linarith
  then have n: "n_frags k p \<le> Suc 32" using n_frags_iff [OF k0, of 32 p] by linarith
  obtain f1 where f1: "outgoing_start frm f p (int k) f1" and e: "fragment_outgoing f buf frm =
        (case fragment_ready_to_send f1 (buf\<lparr>b_len := 0\<rparr>) frm of
           None \<Rightarrow> None | Some (sent, b, f2) \<Rightarrow> do { assertion sent; Some (b, f2) })"
    using fragment_outgoing_starts [OF frm f buf len k] p by blast
  have "fragment_ready_to_send f1 (buf\<lparr>b_len := 0\<rparr>) frm = fragment_ready_to_send f1 clear_buf frm"
    using f1 by (simp add: fragment_ready_to_send_def outgoing_start_def)
  then have "send_datagram frm f buf = send_rest (Suc (nat MAX_FRAGS)) frm f1"
    using f1 e fragment_ready_to_send_spec [OF frm, of f1 clear_buf]
    by (auto simp: send_datagram_def outgoing_start_def simp del: bind_Some_iff)
  then show ?thesis
    using send_rest_spec [OF frm, of f1 k 0 p "Suc (nat MAX_FRAGS)" s] f1 k0 n s
    by (auto simp: outgoing_start_def frag_consts simp del: send_rest.simps)
qed

subsection \<open>A datagram in the window\<close>

text \<open>Sequence numbers within 25 consecutive ones, and their position there.\<close>

definition pos :: "int \<Rightarrow> int \<Rightarrow> int" where
  "pos base x = (x - base) mod 256"

definition in_win :: "int \<Rightarrow> int \<Rightarrow> bool" where
  "in_win base x \<longleftrightarrow> 0 \<le> x \<and> x < 256 \<and> pos base x < 25"

lemma pos_nonneg [simp]: "0 \<le> pos base x" by (simp add: pos_def)

lemma pos_inject:
  assumes "in_win base x" and "in_win base y"
  shows "pos base x = pos base y \<longleftrightarrow> x = y"
proof
  have *: "(pos base z + base) mod 256 = z" if "in_win base z" for z
    using that by (simp add: pos_def mod_simps in_win_def)
  assume eq: "pos base x = pos base y"
  have "x = (pos base x + base) mod 256" using * [OF assms(1)] by (rule sym)
  also have "\<dots> = y" unfolding eq using * [OF assms(2)] .
  finally show "x = y" .
qed simp

lemma ahead_unique:
  assumes "fgl_wf l" and "0 \<le> s" and "s < 256" and "(fgl_seq_id l + d) mod 256 = s" and "\<bar>d\<bar> < 128"
  shows "ahead l s = d"
proof -
  have "(fgl_seq_id l + ahead l s) mod 256 = (fgl_seq_id l + d) mod 256" using ahead_eq [OF assms(1-3)] assms by simp
  then have "256 dvd ahead l s - d" by (simp add: mod_eq_dvd_iff)
  moreover have "\<bar>ahead l s - d\<bar> < 256" using ahead_eq(3) [OF assms(1-3)] assms(5) by linarith
  ultimately have "ahead l s - d = 0" using dvd_imp_le_int [of "ahead l s - d" 256] by linarith
  then show ?thesis by simp
qed

lemma ahead_pos:
  assumes "fgl_wf l" and "in_win base (fgl_seq_id l)" and "in_win base s"
  shows "ahead l s = pos base s - pos base (fgl_seq_id l)"
proof (rule ahead_unique [OF assms(1)])
  have "(pos base s - pos base (fgl_seq_id l)) mod 256 = (s - fgl_seq_id l) mod 256"
    by (simp only: pos_def mod_diff_eq) simp
  then have "(fgl_seq_id l + (pos base s - pos base (fgl_seq_id l))) mod 256 = (fgl_seq_id l + (s - fgl_seq_id l)) mod 256"
    by (metis mod_add_right_eq)
  then show "(fgl_seq_id l + (pos base s - pos base (fgl_seq_id l))) mod 256 = s"
    using assms(3) by (simp add: in_win_def)
  show "\<bar>pos base s - pos base (fgl_seq_id l)\<bar> < 128"
    using assms(2,3) pos_nonneg [of base s] pos_nonneg [of base "fgl_seq_id l"] unfolding in_win_def by linarith
qed (use assms(3) in \<open>auto simp: in_win_def\<close>)

text \<open>The slot of a sequence number; it does not move while the window advances.\<close>

definition slot_ix :: "fragment_list \<Rightarrow> int \<Rightarrow> nat" where
  "slot_ix l s = nat ((fgl_index l + ahead l s) mod 25)"

definition slot :: "fragment_list \<Rightarrow> int \<Rightarrow> fragment" where
  "slot l s = fgl_fragments l ! slot_ix l s"

definition inside :: "fragment_list \<Rightarrow> int \<Rightarrow> bool" where
  "inside l s \<longleftrightarrow> - 25 < ahead l s \<and> ahead l s \<le> 0"

lemma slot_ix_less [simp]: "slot_ix l s < 25"
proof -
  have "(fgl_index l + ahead l s) mod 25 < 25" "0 \<le> (fgl_index l + ahead l s) mod 25" by simp_all
  then show ?thesis unfolding slot_ix_def by linarith
qed

lemma int_slot_ix: "int (slot_ix l s) = (fgl_index l + ahead l s) mod 25"
  by (simp add: slot_ix_def)

lemma mod25_small: "\<bar>d\<bar> < 25 \<Longrightarrow> (x + d) mod 25 = x mod 25 \<Longrightarrow> d = (0 :: int)"
proof -
  assume d: "\<bar>d\<bar> < 25" "(x + d) mod 25 = x mod 25"
  then have "25 dvd d" by (simp add: mod_eq_dvd_iff)
  with d(1) show ?thesis using dvd_imp_le_int [of d 25] by linarith
qed

lemma get_buf_in_window:
  assumes wf: "fgl_wf l" and h: "in_win base (fgl_seq_id l)" and t: "in_win base t"
  shows "\<exists>l'. fragment_list_get_buf l t = Some (int (slot_ix l t), l') \<and> fgl_wf l' \<and> in_win base (fgl_seq_id l') \<and> inside l' t
    \<and> (\<forall>s. in_win base s \<longrightarrow> slot_ix l' s = slot_ix l s
         \<and> (inside l s \<longrightarrow> inside l' s \<and> slot l' s = slot l s)
         \<and> (\<not> inside l s \<and> inside l' s \<longrightarrow> \<not> fg_defined (slot l' s)))"
proof (cases "ahead l t \<le> 0")
  case True
  have t': "0 \<le> t" "t < 256" using t by (auto simp: in_win_def)
  have "- 25 < ahead l t" using ahead_pos [OF wf h t] h t pos_nonneg [of base t] unfolding in_win_def by linarith
  then have "fragment_list_get_buf l t = Some (int (slot_ix l t), l)"
    using get_buf_inside [OF wf t'] True by (simp add: int_slot_ix)
  with True h wf \<open>- 25 < ahead l t\<close> show ?thesis by (auto simp: inside_def)
next
  case False
  have t': "0 \<le> t" "t < 256" using t by (auto simp: in_win_def)
  have a: "ahead l t < 25" using ahead_pos [OF wf h t] h t pos_nonneg [of base "fgl_seq_id l"] unfolding in_win_def by linarith
  obtain l' where g: "fragment_list_get_buf l t = Some ((fgl_index l + ahead l t) mod 25, l')" "fgl_wf l'"
      "fgl_index l' = (fgl_index l + ahead l t) mod 25" "fgl_seq_id l' = t"
      and cell: "\<forall>j < 25. fgl_fragments l' ! j =
         (if (int j - fgl_index l - 1) mod 25 < ahead l t then undef (fgl_fragments l ! j) else fgl_fragments l ! j)"
    using get_buf_ahead [OF wf t'] False a by auto
  have h': "in_win base (fgl_seq_id l')" using g t by simp
  have each: "slot_ix l' s = slot_ix l s \<and> (inside l s \<longrightarrow> inside l' s \<and> slot l' s = slot l s)
      \<and> (\<not> inside l s \<and> inside l' s \<longrightarrow> \<not> fg_defined (slot l' s))" if s: "in_win base s" for s
  proof -
    have d: "ahead l' s = ahead l s - ahead l t"
      using ahead_pos [OF wf h s] ahead_pos [OF wf h t] ahead_pos [OF g(2) h' s] g by simp
    have lo: "- 25 < ahead l' s" "- 25 < ahead l s" "ahead l s < 25"
      using ahead_pos [OF wf h s] ahead_pos [OF g(2) h' s] h s h' pos_nonneg [of base s] pos_nonneg [of base "fgl_seq_id l"]
      unfolding in_win_def by linarith+
    have ix: "slot_ix l' s = slot_ix l s" by (simp add: slot_ix_def g(3) d mod_simps)
    have "(int (slot_ix l s) - fgl_index l - 1) mod 25 = (ahead l s - 1) mod 25"
      using mod_diff_left_eq [of "fgl_index l + ahead l s" 25 "fgl_index l + 1"] by (simp add: int_slot_ix algebra_simps)
    moreover have "(ahead l s - 1) mod 25 = (if ahead l s \<le> 0 then ahead l s + 24 else ahead l s - 1)"
      using lo mod_pos_pos_trivial [of "ahead l s + 24" 25] mod_add_self2 [of "ahead l s - 1" 25] by auto
    ultimately have "slot l' s = (if (if ahead l s \<le> 0 then ahead l s + 24 else ahead l s - 1) < ahead l t then undef (slot l s) else slot l s)"
      using cell ix by (simp add: slot_def)
    then show ?thesis using ix d lo False by (auto simp: inside_def)
  qed
  have "inside l' t" using ahead_pos [OF g(2) h' t] g by (simp add: inside_def)
  with g h' each show ?thesis by (simp add: int_slot_ix)
qed

subsection \<open>A partly received datagram\<close>

definition holds_bytes :: "nat \<Rightarrow> nat \<Rightarrow> u8 list \<Rightarrow> nat set \<Rightarrow> u8 list \<Rightarrow> bool" where
  "holds_bytes hr k p S xs \<longleftrightarrow> hr + length p \<le> length xs \<and> (\<forall>j < length p. j div k \<in> S \<longrightarrow> xs ! (hr + j) = p ! j)"

definition holds_map :: "nat \<Rightarrow> nat set \<Rightarrow> u32 \<Rightarrow> bool" where
  "holds_map n S m \<longleftrightarrow> (\<forall>j < 32. bit m j \<longleftrightarrow> (j < n - 1 \<and> j \<in> S) \<or> (n - 1 \<le> j \<and> n - 1 \<in> S))"

text \<open>The state of a reassembly buffer that has received the fragments in \<open>S\<close>.\<close>

definition partial :: "frame \<Rightarrow> nat \<Rightarrow> u8 list \<Rightarrow> nat set \<Rightarrow> fragment \<Rightarrow> bool" where
  "partial frm k p S fg \<longleftrightarrow> fg_defined fg \<and> fg_max_frag_size fg = int k \<and> holds_map (n_frags k p) S (fg_map fg)
     \<and> fbuf_ok frm (fg_buf fg) \<and> b_offset (fg_buf fg) = fb_headroom frm
     \<and> b_len (fg_buf fg) \<le> int (length p) \<and> (n_frags k p - 1 \<in> S \<longrightarrow> b_len (fg_buf fg) = int (length p))
     \<and> (\<exists>xs. b_data (fg_buf fg) = Some xs \<and> holds_bytes (nat (fb_headroom frm)) k p S xs)"

lemma holds_bytes_insert:
  assumes "holds_bytes hr k p S xs" and "0 < k"
  shows "holds_bytes hr k p (insert i S) (overwrite xs (hr + i * k) (take k (drop (i * k) p)))"
proof -
  have fits: "hr + i * k + length (take k (drop (i * k) p)) \<le> length xs \<or> take k (drop (i * k) p) = []"
    using assms by (auto simp: holds_bytes_def)
  have "overwrite xs (hr + i * k) (take k (drop (i * k) p)) ! (hr + j) = p ! j"
    if j: "j < length p" "j div k \<in> insert i S" for j
  proof (cases "j div k = i")
    case True
    then have "i * k + j mod k = j" using div_mult_mod_eq [of j k] by simp
    then have "i * k \<le> j" "j < i * k + k" using mod_less_divisor [OF assms(2), of j] by linarith+
    then show ?thesis using j fits assms by (auto simp: nth_overwrite holds_bytes_def)
  next
    case False
    then have "\<not> (i * k \<le> j \<and> j < i * k + length (take k (drop (i * k) p)))"
      using assms(2) div_nat_eqI [of k i j] by (auto simp: mult.commute) linarith
    then show ?thesis using j fits assms False by (auto simp: nth_overwrite holds_bytes_def)
  qed
  moreover have "hr + length p \<le> length (overwrite xs (hr + i * k) (take k (drop (i * k) p)))"
    using fits assms by (auto simp: holds_bytes_def)
  ultimately show ?thesis by (simp add: holds_bytes_def)
qed

lemma bit_u32_ones: "bit (0xFFFFFFFF :: u32) j \<longleftrightarrow> j < 32"
proof -
  have "(0xFFFFFFFF :: u32) = - 1" by simp
  then show ?thesis by (simp only: bit_minus_1_iff possible_bit_word) simp
qed

lemma holds_map_insert:
  assumes "holds_map n S m" and "i < n" and "n \<le> 32"
  shows "holds_map n (insert i S) (m OR push_bit i (if i = n - 1 then 0xFFFFFFFF else 1))"
  unfolding holds_map_def
proof (intro allI impI)
  fix j :: nat
  assume j: "j < 32"
  have "bit (push_bit i (if i = n - 1 then 0xFFFFFFFF else 1) :: u32) j \<longleftrightarrow> (if i = n - 1 then i \<le> j else i = j)"
    using j by (auto simp: bit_push_bit_iff bit_1_iff bit_u32_ones simp del: bit_numeral_word_iff)
  with assms j show "bit (m OR push_bit i (if i = n - 1 then 0xFFFFFFFF else 1)) j
      \<longleftrightarrow> (j < n - 1 \<and> j \<in> insert i S) \<or> (n - 1 \<le> j \<and> n - 1 \<in> insert i S)"
    unfolding bit_or_iff by (cases "i = n - 1") (auto simp: holds_map_def)
qed

lemma holds_map_full:
  assumes "holds_map n S m" and "0 < n" and "n \<le> 32" and "S \<subseteq> {0..<n}"
  shows "m = 0xFFFFFFFF \<longleftrightarrow> S = {0..<n}"
proof -
  have "m = 0xFFFFFFFF \<longleftrightarrow> (\<forall>j < 32. bit m j)"
    by (auto simp: bit_u32_ones simp del: bit_numeral_word_iff intro!: bit_word_eqI)
  also have "\<dots> \<longleftrightarrow> S = {0..<n}"
  proof
    assume *: "\<forall>j < 32. bit m j"
    have "n - 1 \<in> S" using * assms(1,3) by (auto simp: holds_map_def dest: spec [of _ 31])
    moreover have "j \<in> S" if "j < n - 1" for j using * assms(1,3) that
      by (auto simp: holds_map_def dest: spec [of _ j])
    ultimately have "j \<in> S" if "j < n" for j using that by (cases "j = n - 1") auto
    with assms(4) show "S = {0..<n}" by auto
  qed (use assms in \<open>auto simp: holds_map_def\<close>)
  finally show ?thesis .
qed

lemma partial_complete:
  assumes "partial frm k p {0..<n_frags k p} fg" and "0 < k" and "p \<noteq> []" and "frame_ok frm"
  shows "buf_content (fg_buf fg) = p"
proof -
  obtain xs where xs: "b_data (fg_buf fg) = Some xs" "holds_bytes (nat (fb_headroom frm)) k p {0..<n_frags k p} xs"
    using assms(1) by (auto simp: partial_def)
  have n: "0 < n_frags k p" using n_frags_iff [OF assms(2), of 0 p] assms(3) by simp
  have "j div k < n_frags k p" if "j < length p" for j
    using that n_frags_iff [OF assms(2), of "j div k" p] div_times_less_eq_dividend [of j k] by linarith
  then have "\<forall>j < length p. xs ! (nat (fb_headroom frm) + j) = p ! j" using xs(2) by (simp add: holds_bytes_def)
  moreover have "b_len (fg_buf fg) = int (length p)" "b_offset (fg_buf fg) = fb_headroom frm" using assms(1) n by (auto simp: partial_def)
  ultimately show ?thesis
    using xs by (intro nth_equalityI) (auto simp: buf_content_def holds_bytes_def)
qed

subsection \<open>One step of the receiver\<close>

definition tracks :: "frame \<Rightarrow> nat \<Rightarrow> u8 list \<Rightarrow> int \<Rightarrow> nat set \<Rightarrow> fragment_list \<Rightarrow> bool" where
  "tracks frm k p s S l \<longleftrightarrow>
     (if S = {} then inside l s \<longrightarrow> \<not> fg_defined (slot l s) else inside l s \<and> partial frm k p S (slot l s))"

text \<open>The sequence number of a datagram that carries a fragment.\<close>

definition frag_seq :: "u8 list \<Rightarrow> int option" where
  "frag_seq bs =
     (if length bs < 4 then None
      else let flags = be_u32 (take 4 bs); ty = header_field flags FRAG_TYPE_SHIFT FRAG_TYPE_MASK
           in if ty = FRAG_YES_NOTLAST \<or> ty = FRAG_YES_LAST
              then Some (header_field flags FRAG_SEQ_ID_SHIFT FRAG_SEQ_ID_MASK) else None)"

text \<open>\<open>fragment_join\<close> writes to the slot it is given by the window and to no other.\<close>

lemma set_fragment_frame:
  "set_fragment l i fg = Some l' \<Longrightarrow> fgl_index l' = fgl_index l \<and> fgl_seq_id l' = fgl_seq_id l
    \<and> length (fgl_fragments l') = length (fgl_fragments l)
    \<and> (\<forall>j. j \<noteq> nat i \<longrightarrow> fgl_fragments l' ! j = fgl_fragments l ! j)"
  by (auto simp: set_fragment_def split: if_splits)

lemma fragment_join_frame:
  assumes "fragment_join now f buf frm flags ty = Some (b, f')"
    and "fragment_list_get_buf (fm_incoming f) (header_field flags FRAG_SEQ_ID_SHIFT FRAG_SEQ_ID_MASK) = Some (i, l)"
  shows "fgl_index (fm_incoming f') = fgl_index l \<and> fgl_seq_id (fm_incoming f') = fgl_seq_id l
    \<and> (\<forall>j. j \<noteq> nat i \<longrightarrow> fgl_fragments (fm_incoming f') ! j = fgl_fragments l ! j)"
  using assms
  by (auto simp: fragment_join_def frag_err_def Let_def dest!: set_fragment_frame split: if_splits)

lemma ahead_cong: "fgl_seq_id l' = fgl_seq_id l \<Longrightarrow> ahead l' s = ahead l s"
  by (simp add: ahead_def)

lemma tracks_cong:
  assumes "fgl_index l' = fgl_index l" and "fgl_seq_id l' = fgl_seq_id l"
    and "fgl_fragments l' ! slot_ix l s = fgl_fragments l ! slot_ix l s"
  shows "tracks frm k p s S l' = tracks frm k p s S l"
proof -
  have a: "ahead l' s = ahead l s" by (rule ahead_cong [OF assms(2)])
  then have "slot_ix l' s = slot_ix l s" by (simp add: slot_ix_def assms(1))
  then have "slot l' s = slot l s" by (simp only: slot_def assms(3))
  then show ?thesis by (simp only: tracks_def inside_def a)
qed

lemma slot_ix_inject:
  assumes "fgl_wf l" and "in_win base (fgl_seq_id l)" and "in_win base s" and "in_win base t" and "s \<noteq> t"
  shows "slot_ix l s \<noteq> slot_ix l t"
proof
  assume "slot_ix l s = slot_ix l t"
  then have "int (slot_ix l s) = int (slot_ix l t)" by simp
  moreover have "ahead l s = pos base s - pos base (fgl_seq_id l)" "ahead l t = pos base t - pos base (fgl_seq_id l)"
    using ahead_pos [OF assms(1,2)] assms(3,4) by auto
  moreover from this have "fgl_index l + ahead l s = fgl_index l + ahead l t + (pos base s - pos base t)" by simp
  ultimately have "(fgl_index l + ahead l t + (pos base s - pos base t)) mod 25 = (fgl_index l + ahead l t) mod 25"
    by (simp only: int_slot_ix)
  moreover have "\<bar>pos base s - pos base t\<bar> < 25"
    using assms(3,4) pos_nonneg [of base s] pos_nonneg [of base t] unfolding in_win_def by linarith
  ultimately have "pos base s = pos base t" using mod25_small by fastforce
  then show False using pos_inject assms by blast
qed

lemma tracks_window:
  assumes "fgl_wf l" and "in_win base (fgl_seq_id l)" and "in_win base t" and "in_win base s" and "tracks frm k p s S l"
    and "fragment_list_get_buf l t = Some (i, l')"
  shows "i = int (slot_ix l' t)" and "fgl_wf l'" and "in_win base (fgl_seq_id l')" and "inside l' t"
    and "tracks frm k p s S l'"
proof -
  have "i = int (slot_ix l' t) \<and> fgl_wf l' \<and> in_win base (fgl_seq_id l') \<and> inside l' t \<and> tracks frm k p s S l'"
    using get_buf_in_window [OF assms(1-3)] assms(3-6) by (auto simp: tracks_def split: if_splits)
  then show "i = int (slot_ix l' t)" "fgl_wf l'" "in_win base (fgl_seq_id l')" "inside l' t" "tracks frm k p s S l'"
    by auto
qed

text \<open>A datagram of another sequence number leaves the partly received one alone.\<close>

lemma fragment_incoming_other:
  assumes frm: "frame_ok frm" and f: "fm_wf frm f" and b: "buf_wf buf"
    and h: "in_win base (fgl_seq_id (fm_incoming f))" and s: "in_win base s"
    and other: "\<And>t. frag_seq (buf_content buf) = Some t \<Longrightarrow> in_win base t \<and> t \<noteq> s"
    and tr: "tracks frm k p s S (fm_incoming f)"
  shows "\<exists>b' f'. fragment_incoming now f buf frm = Some (b', f') \<and> fm_wf frm f' \<and> in_win base (fgl_seq_id (fm_incoming f'))
    \<and> tracks frm k p s S (fm_incoming f')"
proof -
  obtain b' f' where r: "fragment_incoming now f buf frm = Some (b', f')" "fm_wf frm f'"
    using fragment_incoming_ok [OF frm f b] by blast
  show ?thesis
  proof (cases "frag_seq (buf_content buf)")
    case None
    moreover have "length (buf_content buf) < 4 \<longleftrightarrow> \<not> 4 \<le> b_len buf" using length_buf_content [OF b] by linarith
    ultimately have "fm_incoming f' = fm_incoming f"
      using r(1) b
      by (auto simp: fragment_incoming_def frag_seq_def buf_read_pos frag_err_def Let_def split: if_splits)
    with r h tr show ?thesis by auto
  next
    case (Some t)
    define flags where "flags = be_u32 (take 4 (buf_content buf))"
    have t: "t = header_field flags FRAG_SEQ_ID_SHIFT FRAG_SEQ_ID_MASK" "\<not> length (buf_content buf) < 4"
      "header_field flags FRAG_TYPE_SHIFT FRAG_TYPE_MASK \<in> {FRAG_YES_NOTLAST, FRAG_YES_LAST}"
      using Some by (auto simp: frag_seq_def flags_def Let_def split: if_splits)
    have "4 \<le> b_len buf" using t(2) length_buf_content [OF b] by linarith
    then have j: "fragment_join now f (buf_consumed buf 4) frm flags (header_field flags FRAG_TYPE_SHIFT FRAG_TYPE_MASK) = Some (b', f')"
      using r(1) t(3) b
      by (auto simp: fragment_incoming_def buf_read_pos flags_def [symmetric] Let_def frag_consts split: if_splits)
    have wf: "fgl_wf (fm_incoming f)" using f by (simp add: fm_wf_def in_ok_def)
    obtain i l where g: "fragment_list_get_buf (fm_incoming f) t = Some (i, l)"
      using get_buf_in_window [OF wf h] other [OF Some] by blast
    note w = tracks_window [OF wf h _ s tr g]
    have keep: "fgl_index (fm_incoming f') = fgl_index l" "fgl_seq_id (fm_incoming f') = fgl_seq_id l"
      "\<forall>j. j \<noteq> nat i \<longrightarrow> fgl_fragments (fm_incoming f') ! j = fgl_fragments l ! j"
      using fragment_join_frame [OF j, folded t(1), OF g] by auto
    have "slot_ix l s \<noteq> nat i" using w slot_ix_inject [of l base s t] s other [OF Some] by auto
    then have "tracks frm k p s S (fm_incoming f')"
      using tracks_cong [OF keep(1,2)] keep(3) w other [OF Some] by simp
    with r w keep other [OF Some] show ?thesis by auto
  qed
qed

text \<open>A datagram that fits into fragments of size \<open>k\<close> and into the buffers of the receiver.\<close>

definition fits :: "frame \<Rightarrow> nat \<Rightarrow> u8 list \<Rightarrow> bool" where
  "fits frm k p \<longleftrightarrow> 0 < k \<and> k < 65536 \<and> k mod 4 = 0 \<and> p \<noteq> [] \<and> n_frags k p \<le> 32
     \<and> fb_headroom frm + int (length p) \<le> BUF_SIZE frm"

lemma fits_chunk:
  assumes "fits frm k p" and "i < n_frags k p"
  shows "i * k < length p" and "length p \<le> (i + 1) * k \<longleftrightarrow> i = n_frags k p - 1"
    and "length (take k (drop (i * k) p)) = (if i = n_frags k p - 1 then length p - i * k else k)"
proof -
  have k: "0 < k" using assms by (simp add: fits_def)
  show a: "i * k < length p" using n_frags_iff [OF k] assms(2) by simp
  show b: "length p \<le> (i + 1) * k \<longleftrightarrow> i = n_frags k p - 1"
    using n_frags_iff [OF k, of "i + 1" p] assms(2) by auto
  show "length (take k (drop (i * k) p)) = (if i = n_frags k p - 1 then length p - i * k else k)"
    using b a by (auto simp: algebra_simps)
qed

text \<open>What the receiver reads from the header of a fragment.\<close>

lemma frag_bytes_header:
  assumes "fits frm k p" and "i < n_frags k p" and "0 \<le> s" and "s < 256"
  defines "flags \<equiv> be_u32 (take 4 (frag_bytes s k p i))"
  shows "header_field flags FRAG_TYPE_SHIFT FRAG_TYPE_MASK = (if i = n_frags k p - 1 then FRAG_YES_LAST else FRAG_YES_NOTLAST)"
    and "header_field flags FRAG_SEQ_ID_SHIFT FRAG_SEQ_ID_MASK = s"
    and "header_field flags FRAG_ID_SHIFT FRAG_ID_MASK = int i"
    and "i = n_frags k p - 1 \<Longrightarrow>
      push_bit FRAG_SIZE_ROUND_SHIFT (header_field flags FRAG_SIZE_SHIFT FRAG_SIZE_MASK) = int k"
proof -
  let ?ty = "if i = n_frags k p - 1 then FRAG_YES_LAST else FRAG_YES_NOTLAST"
  have flags: "flags = fragment_header ?ty s (int i) (int k)"
    using fits_chunk(2) [OF assms(1,2)] by (simp add: flags_def frag_bytes_def)
  have "0 \<le> ?ty" "?ty < 3" "0 \<le> int i" "int i < 32" "0 \<le> int k" "int k < 65536"
    using assms by (auto simp: frag_consts fits_def)
  note h = header_roundtrip [OF this(1,2) assms(3,4) this(3-6), folded flags]
  have "int k mod 4 = 0" using assms(1) by (auto simp: fits_def zmod_int [symmetric])
  then show "i = n_frags k p - 1 \<Longrightarrow>
      push_bit FRAG_SIZE_ROUND_SHIFT (header_field flags FRAG_SIZE_SHIFT FRAG_SIZE_MASK) = int k"
    using h(4) by simp
  show "header_field flags FRAG_TYPE_SHIFT FRAG_TYPE_MASK = (if i = n_frags k p - 1 then FRAG_YES_LAST else FRAG_YES_NOTLAST)"
    "header_field flags FRAG_SEQ_ID_SHIFT FRAG_SEQ_ID_MASK = s" "header_field flags FRAG_ID_SHIFT FRAG_ID_MASK = int i"
    by (rule h)+
qed

text \<open>The buffer that is started for the first fragment, and the one that has taken a fragment.\<close>

lemma partial_start:
  assumes "fits frm k p" and "frame_ok frm" and "fbuf_ok frm (fg_buf fg)"
  shows "partial frm k p {} (fg\<lparr>fg_defined := True, fg_max_frag_size := int k, fg_map := 0,
    fg_buf := (fg_buf fg)\<lparr>b_len := 0, b_offset := fb_headroom frm\<rparr>\<rparr>)"
  using assms buf_init_ok [OF assms(2,3)]
  by (auto simp: partial_def fits_def holds_map_def holds_bytes_def fbuf_ok_def frame_ok_def buf_wf_def)

lemma partial_insert:
  assumes "fits frm k p" and "frame_ok frm" and "partial frm k p S fg" and "i < n_frags k p" and "b_data (fg_buf fg) = Some xs"
  shows "partial frm k p (insert i S) (fg\<lparr>fg_buf := (fg_buf fg)\<lparr>b_len := max (b_len (fg_buf fg)) (int (i * k) + int (length (take k (drop (i * k) p)))),
       b_data := Some (overwrite xs (nat (fb_headroom frm + int (i * k))) (take k (drop (i * k) p)))\<rparr>,
     fg_map := fg_map fg OR push_bit i (if i = n_frags k p - 1 then 0xFFFFFFFF else 1), fg_timestamp := now\<rparr>)"
proof -
  define ys where "ys = take k (drop (i * k) p)"
  have hr: "0 \<le> fb_headroom frm" using assms(2) by (simp add: frame_ok_def)
  have a: "i * k < length p" "i * k + length ys \<le> length p" "i = n_frags k p - 1 \<Longrightarrow> i * k + length ys = length p"
    using fits_chunk [OF assms(1,4)] by (auto simp: ys_def)
  have buf: "fbuf_ok frm (fg_buf fg)" "b_offset (fg_buf fg) = fb_headroom frm" using assms(3) by (auto simp: partial_def)
  have room: "fb_headroom frm + int (i * k) + int (length ys) \<le> BUF_SIZE frm"
    using a(2) assms(1) unfolding fits_def by linarith
  have "buf_wf ((fg_buf fg)\<lparr>b_len := max (b_len (fg_buf fg)) (int (i * k) + int (length ys)),
       b_data := Some (overwrite xs (nat (b_offset (fg_buf fg) + int (i * k))) ys)\<rparr>)"
    using buf room by (intro copied_wf [OF _ assms(5)]) (auto simp: fbuf_ok_def simp del: of_nat_mult)
  moreover have "holds_bytes (nat (fb_headroom frm)) k p (insert i S) (overwrite xs (nat (fb_headroom frm + int (i * k))) ys)"
    using holds_bytes_insert [of "nat (fb_headroom frm)" k p S xs i] assms(1,3,5) hr
    by (auto simp: ys_def partial_def fits_def nat_add_distrib nat_mult_distrib)
  moreover have "holds_map (n_frags k p) (insert i S) (fg_map fg OR push_bit i (if i = n_frags k p - 1 then 0xFFFFFFFF else 1))"
    using holds_map_insert [of "n_frags k p" S "fg_map fg" i] assms(1,3,4) by (simp add: partial_def fits_def)
  moreover have "max (b_len (fg_buf fg)) (int (i * k) + int (length ys)) \<le> int (length p)"
    using assms(3) a(2) unfolding partial_def by linarith
  moreover have "max (b_len (fg_buf fg)) (int (i * k) + int (length ys)) = int (length p)" if "n_frags k p - 1 \<in> insert i S"
    using assms(3) a(2,3) that unfolding partial_def by (cases "i = n_frags k p - 1") (auto simp del: of_nat_mult)
  ultimately show ?thesis
    unfolding ys_def [symmetric] using assms(3) buf by (auto simp: partial_def fbuf_ok_def simp del: of_nat_mult)
qed

lemma full_mask: "m AND FRAG_MAP_MASK = FRAG_MAP_MASK \<longleftrightarrow> m = (0xFFFFFFFF :: u32)"
proof -
  have "(0xFFFFFFFF :: u32) = - 1" by simp
  then show ?thesis by (simp only: FRAG_MAP_MASK_def and.right_neutral)
qed

text \<open>\<open>fragment_join\<close> on a fragment of the datagram, for the buffer that the window gives.\<close>

lemma fragment_join_own:
  assumes fit: "fits frm k p" and frm: "frame_ok frm" and i: "i < n_frags k p" and S: "S \<subseteq> {0..<n_frags k p}"
    and s: "0 \<le> s" "s < 256" and b: "buf_wf buf" "buf_content buf = take k (drop (i * k) p)"
    and flags: "flags = be_u32 (take 4 (frag_bytes s k p i))"
    and g: "fragment_list_get_buf (fm_incoming f) s = Some (int (slot_ix l s), l)"
    and l: "in_ok frm l" "inside l s" "tracks frm k p s S l"
  shows "\<exists>b' l'. fragment_join now f buf frm flags (if i = n_frags k p - 1 then FRAG_YES_LAST else FRAG_YES_NOTLAST)
      = Some (b', f\<lparr>fm_incoming := l'\<rparr>) \<and> fgl_seq_id l' = fgl_seq_id l
    \<and> (if insert i S = {0..<n_frags k p} then buf_content b' = p \<and> tracks frm k p s {} l'
       else buf_content b' = [] \<and> tracks frm k p s (insert i S) l')"
proof -
  let ?last = "i = n_frags k p - 1"
  define ys where "ys = take k (drop (i * k) p)"
  note h = frag_bytes_header [OF fit i s, folded flags]
  have len: "b_len buf = int (length ys)" using length_buf_content [OF b(1)] b(2) by (simp add: ys_def)
  have size: "(if (if ?last then FRAG_YES_LAST else FRAG_YES_NOTLAST) = FRAG_YES_LAST
      then push_bit FRAG_SIZE_ROUND_SHIFT (header_field flags FRAG_SIZE_SHIFT FRAG_SIZE_MASK) else b_len buf) = int k"
    using h(4) fits_chunk(3) [OF fit i] len by (auto simp: frag_consts ys_def)
  have round: "int k AND FRAG_SIZE_ROUND_MASK = 0"
    using fit by (auto simp: fits_def FRAG_SIZE_ROUND_MASK_def and_masks zmod_int [symmetric])
  define fg where "fg = slot l s"
  have wf: "fgl_wf l" "length (fgl_fragments l) = 25" and fgb: "fbuf_ok frm (fg_buf fg)"
    using l(1) by (auto simp: in_ok_def fgl_wf_def fg_def slot_def)
  have get: "get_fragment l (int (slot_ix l s)) = Some fg" using wf by (simp add: get_fragment_def fg_def slot_def)
  obtain fg1 where fg1: "(if \<not> fg_defined fg \<or> fg_max_frag_size fg \<noteq> int k
              then do {
                let (ok, b) = buf_init (fg_buf fg) (fb_headroom frm);
                assertion ok;
                Some (fg\<lparr>fg_defined := True, fg_max_frag_size := int k, fg_map := 0, fg_buf := b\<rparr>) }
              else Some fg) = Some fg1" "partial frm k p S fg1"
  proof (cases "S = {}")
    case True
    then have "\<not> fg_defined fg" using l by (simp add: tracks_def fg_def)
    then show thesis using that partial_start [OF fit frm fgb] True buf_init_ok(1) [OF frm fgb] by simp
  next
    case False
    then have "partial frm k p S fg" using l by (simp add: tracks_def fg_def)
    then show thesis using that by (simp add: partial_def)
  qed
  obtain xs where xs: "b_data (fg_buf fg1) = Some xs" using fg1(2) by (auto simp: partial_def)
  have off: "b_offset (fg_buf fg1) = fb_headroom frm" "buf_wf (fg_buf fg1)" "b_capacity (fg_buf fg1) = BUF_SIZE frm"
    using fg1(2) by (auto simp: partial_def fbuf_ok_def)
  have room: "b_offset (fg_buf fg1) + int (i * k) + b_len buf \<le> b_capacity (fg_buf fg1)"
    using fits_chunk [OF fit i] fit len off by (auto simp: fits_def ys_def simp del: of_nat_mult split: if_splits)
  define b1 where "b1 = (fg_buf fg1)\<lparr>b_len := max (b_len (fg_buf fg1)) (int (i * k) + int (length ys)),
       b_data := Some (overwrite xs (nat (fb_headroom frm + int (i * k))) ys)\<rparr>"
  have copy: "buf_copy_range (fg_buf fg1) (int i * int k) buf 0 (b_len buf) = Some (True, b1)"
    using buf_copy_range_all [OF off(2) xs b(1), of "int (i * k)"] room by (simp add: b1_def b(2) ys_def [symmetric] len off)
  define fg2 where "fg2 = fg1\<lparr>fg_buf := b1, fg_map := fg_map fg1 OR push_bit i (if ?last then 0xFFFFFFFF else 1), fg_timestamp := now\<rparr>"
  have fg2: "partial frm k p (insert i S) fg2"
    using partial_insert [OF fit frm fg1(2) i xs, of now] by (simp only: fg2_def b1_def ys_def)
  then have full: "fg_map fg2 = 0xFFFFFFFF \<longleftrightarrow> insert i S = {0..<n_frags k p}"
    using holds_map_full [of "n_frags k p" "insert i S"] i S fit by (auto simp: partial_def fits_def)
  define st where "st fg' = l\<lparr>fgl_fragments := (fgl_fragments l)[slot_ix l s := fg']\<rparr>" for fg'
  have store: "set_fragment l (int (slot_ix l s)) fg' = Some (st fg')" for fg' using wf by (simp add: set_fragment_def st_def)
  have slot: "slot (st fg') s = fg'" "inside (st fg') s" for fg'
    using wf l(2) ahead_cong [of "st fg'" l s] by (auto simp: st_def slot_def slot_ix_def inside_def)
  have join: "fragment_join now f buf frm flags (if ?last then FRAG_YES_LAST else FRAG_YES_NOTLAST) =
      (if fg_map fg2 = 0xFFFFFFFF then Some (fg_buf fg2, f\<lparr>fm_incoming := st (fg2\<lparr>fg_defined := False\<rparr>)\<rparr>)
       else Some (buf\<lparr>b_len := 0\<rparr>, f\<lparr>fm_incoming := st fg2\<rparr>))"
    unfolding fragment_join_def h(2) h(3) size
    using g round get fg1(1) copy store
    by (simp add: Let_def full_mask fg2_def frag_consts(5) del: bind_Some_iff) (simp add: frag_consts full_mask [unfolded FRAG_MAP_MASK_def])
  show ?thesis
  proof (cases "insert i S = {0..<n_frags k p}")
    case True
    have "buf_content (fg_buf fg2) = p"
      using partial_complete [of frm k p fg2] fg2 True fit frm by (simp add: fits_def)
    with True join full slot show ?thesis by (auto simp: tracks_def st_def)
  next
    case False
    have "buf_content (buf\<lparr>b_len := 0\<rparr>) = []" by (simp add: buf_content_def split: option.splits)
    with False join full slot fg2 show ?thesis by (auto simp: tracks_def st_def)
  qed
qed

lemma fragment_incoming_own:
  assumes fit: "fits frm k p" and frm: "frame_ok frm" and f: "fm_wf frm f" and i: "i < n_frags k p" and S: "S \<subseteq> {0..<n_frags k p}"
    and b: "buf_wf buf" "buf_content buf = frag_bytes s k p i"
    and h: "in_win base (fgl_seq_id (fm_incoming f))" and s: "in_win base s" and tr: "tracks frm k p s S (fm_incoming f)"
  shows "\<exists>b' f'. fragment_incoming now f buf frm = Some (b', f') \<and> fm_wf frm f' \<and> in_win base (fgl_seq_id (fm_incoming f'))
    \<and> (if insert i S = {0..<n_frags k p} then buf_content b' = p \<and> tracks frm k p s {} (fm_incoming f')
       else buf_content b' = [] \<and> tracks frm k p s (insert i S) (fm_incoming f'))"
proof -
  define flags where "flags = be_u32 (take 4 (frag_bytes s k p i))"
  have s': "0 \<le> s" "s < 256" using s by (auto simp: in_win_def)
  note hd = frag_bytes_header(1) [OF fit i s', folded flags_def]
  have wf: "fgl_wf (fm_incoming f)" and inok: "in_ok frm (fm_incoming f)" using f by (auto simp: fm_wf_def in_ok_def)
  obtain j l where g: "fragment_list_get_buf (fm_incoming f) s = Some (j, l)" "in_ok frm l"
    using get_buf_total [OF wf s'] same_bufs_ok [OF inok] by blast
  note w = tracks_window [OF wf h s s tr g(1)]
  have len: "4 \<le> b_len buf" using length_buf_content [OF b(1)] b(2) by (simp add: frag_bytes_def)
  have b1: "buf_wf (buf_consumed buf 4)" "buf_content (buf_consumed buf 4) = take k (drop (i * k) p)"
    using b len by (auto simp: frag_bytes_def)
  obtain b' l' where r: "fragment_join now f (buf_consumed buf 4) frm flags (if i = n_frags k p - 1 then FRAG_YES_LAST else FRAG_YES_NOTLAST)
      = Some (b', f\<lparr>fm_incoming := l'\<rparr>)" "fgl_seq_id l' = fgl_seq_id l"
      "if insert i S = {0..<n_frags k p} then buf_content b' = p \<and> tracks frm k p s {} l'
       else buf_content b' = [] \<and> tracks frm k p s (insert i S) l'"
    using fragment_join_own [OF fit frm i S s' b1 flags_def g(1) [unfolded w(1)] g(2) w(4,5)] by blast
  have "fragment_incoming now f buf frm = Some (b', f\<lparr>fm_incoming := l'\<rparr>)"
    using len b(1) hd r(1)
    by (auto simp: fragment_incoming_def buf_read_pos b(2) flags_def [symmetric] Let_def frag_consts simp del: bind_Some_iff)
  then show ?thesis using r w(3) fragment_incoming_ok [OF frm f b(1), of now] by auto
qed

lemma frag_bytes_inject:
  assumes "fits frm k p" and "i < n_frags k p" and "j < n_frags k p" and "0 \<le> s" and "s < 256" and "frag_bytes s k p i = frag_bytes s k p j"
  shows "i = j"
proof -
  have "int i = int j"
    using frag_bytes_header(3) [OF assms(1,2,4,5), unfolded assms(6)] frag_bytes_header(3) [OF assms(1,3,4,5)]
    by (rule trans [OF sym])
  then show ?thesis by simp
qed

subsection \<open>Reassembly\<close>

text \<open>The fragments that occur in a list of arrivals, and the arrivals that are considered.\<close>

definition got :: "int \<Rightarrow> nat \<Rightarrow> u8 list \<Rightarrow> (time_t \<times> buffer) list \<Rightarrow> nat set" where
  "got s k p xs = {i. i < n_frags k p \<and> (\<exists>(t, b)\<in>set xs. buf_content b = frag_bytes s k p i)}"

definition own :: "int \<Rightarrow> nat \<Rightarrow> u8 list \<Rightarrow> buffer \<Rightarrow> bool" where
  "own s k p b \<longleftrightarrow> (\<exists>i < n_frags k p. buf_content b = frag_bytes s k p i)"

definition other :: "int \<Rightarrow> int \<Rightarrow> buffer \<Rightarrow> bool" where
  "other base s b \<longleftrightarrow> (case frag_seq (buf_content b) of None \<Rightarrow> True | Some t \<Rightarrow> in_win base t \<and> t \<noteq> s)"

definition incoming_ops :: "(time_t \<times> buffer) list \<Rightarrow> frag_op list" where
  "incoming_ops xs = map (\<lambda>(t, b). Incoming t b) xs"

lemma got_Cons:
  assumes "fits frm k p" and "0 \<le> s" and "s < 256" and "i < n_frags k p" and "buf_content b = frag_bytes s k p i"
  shows "got s k p ((t, b) # xs) = insert i (got s k p xs)"
  using assms frag_bytes_inject [OF assms(1)] by (auto simp: got_def)

lemma got_Cons_other: "\<not> own s k p b \<Longrightarrow> got s k p ((t, b) # xs) = got s k p xs"
  by (auto simp: got_def own_def)

lemma receive_run:
  assumes fit: "fits frm k p" and frm: "frame_ok frm" and s: "in_win base s"
    and "fm_wf frm f" and "in_win base (fgl_seq_id (fm_incoming f))" and "tracks frm k p s S (fm_incoming f)"
    and "S \<subseteq> {0..<n_frags k p}" and "S \<union> got s k p xs \<noteq> {0..<n_frags k p}"
    and "\<forall>(t, b)\<in>set xs. buf_wf b \<and> (own s k p b \<or> other base s b)"
  shows "\<exists>outs f'. frag_run frm (incoming_ops xs) f = Some (outs, f') \<and> fm_wf frm f' \<and> in_win base (fgl_seq_id (fm_incoming f'))
    \<and> tracks frm k p s (S \<union> got s k p xs) (fm_incoming f')
    \<and> (\<forall>j < length xs. own s k p (snd (xs ! j)) \<longrightarrow> buf_content (outs ! j) = [])"
  using assms(4-)
proof (induction xs arbitrary: f S)
  case Nil
  then show ?case by (simp add: incoming_ops_def got_def)
next
  case (Cons x xs)
  obtain t b where x: "x = (t, b)" by force
  have b: "buf_wf b" "own s k p b \<or> other base s b" using Cons.prems(6) x by auto
  obtain out f1 S1 where f1: "fragment_incoming t f b frm = Some (out, f1)" "fm_wf frm f1"
      "in_win base (fgl_seq_id (fm_incoming f1))" "tracks frm k p s S1 (fm_incoming f1)" "own s k p b \<longrightarrow> buf_content out = []"
      "S1 \<union> got s k p xs = S \<union> got s k p (x # xs)" "S1 \<subseteq> {0..<n_frags k p}"
  proof (cases "own s k p b")
    case True
    then obtain i where i: "i < n_frags k p" "buf_content b = frag_bytes s k p i" by (auto simp: own_def)
    have S1: "insert i S \<union> got s k p xs = S \<union> got s k p (x # xs)"
      using got_Cons [OF fit _ _ i] s by (auto simp: x in_win_def)
    moreover have "got s k p xs \<subseteq> {0..<n_frags k p}" by (auto simp: got_def)
    ultimately have "insert i S \<noteq> {0..<n_frags k p}" using Cons.prems(5) by blast
    then show thesis
      using fragment_incoming_own [OF fit frm Cons.prems(1) i(1) Cons.prems(4) b(1) i(2) Cons.prems(2) s Cons.prems(3), of t]
        that [of _ _ "insert i S"] S1 i(1) Cons.prems(4) by auto
  next
    case False
    have "in_win base u \<and> u \<noteq> s" if "frag_seq (buf_content b) = Some u" for u
      using False b(2) that by (simp add: other_def)
    then show thesis
      using fragment_incoming_other [OF frm Cons.prems(1) b(1) Cons.prems(2) s _ Cons.prems(3), of t]
        that [of _ _ S] False got_Cons_other [OF False] Cons.prems(4) x by auto
  qed
  obtain outs f2 where "frag_run frm (incoming_ops xs) f1 = Some (outs, f2)" "fm_wf frm f2" "in_win base (fgl_seq_id (fm_incoming f2))"
      "tracks frm k p s (S1 \<union> got s k p xs) (fm_incoming f2)" "\<forall>j < length xs. own s k p (snd (xs ! j)) \<longrightarrow> buf_content (outs ! j) = []"
    using Cons.IH [OF f1(2-4,7)] Cons.prems(5,6) f1(6) by auto
  with f1 x show ?case by (auto simp: incoming_ops_def nth_Cons')
qed

lemma frag_run_append:
  "frag_run frm xs f = Some (bs, f1) \<Longrightarrow> frag_run frm ys f1 = Some (cs, f2) \<Longrightarrow>
    frag_run frm (xs @ ys) f = Some (bs @ cs, f2)"
  by (induction xs arbitrary: f bs) auto

lemma frag_run_length: "frag_run frm xs f = Some (bs, f1) \<Longrightarrow> length bs = length xs"
  by (induction xs arbitrary: f bs) auto

lemma receive_completes:
  assumes fit: "fits frm k p" and frm: "frame_ok frm" and f: "fm_wf frm f"
    and win: "in_win base (fgl_seq_id (fm_incoming f))" "in_win base s"
    and fresh: "inside (fm_incoming f) s \<longrightarrow> \<not> fg_defined (slot (fm_incoming f) s)"
    and xs: "\<forall>(t, c)\<in>set (xs @ [(now, b)]). buf_wf c \<and> (own s k p c \<or> other base s c)"
    and all: "got s k p (xs @ [(now, b)]) = {0..<n_frags k p}"
    and missing: "own s k p b" "got s k p xs \<noteq> {0..<n_frags k p}"
  shows "\<exists>outs out f'. frag_run frm (incoming_ops (xs @ [(now, b)])) f = Some (outs @ [out], f') \<and> length outs = length xs
    \<and> buf_content out = p \<and> (\<forall>j < length xs. own s k p (snd (xs ! j)) \<longrightarrow> buf_content (outs ! j) = [])"
proof -
  obtain outs f1 where r: "frag_run frm (incoming_ops xs) f = Some (outs, f1)" "fm_wf frm f1" "in_win base (fgl_seq_id (fm_incoming f1))"
      "tracks frm k p s (got s k p xs) (fm_incoming f1)" "\<forall>j < length xs. own s k p (snd (xs ! j)) \<longrightarrow> buf_content (outs ! j) = []"
    using receive_run [OF fit frm win(2) f win(1), of "{}" xs] fresh xs missing(2) by (auto simp: tracks_def)
  obtain i where i: "i < n_frags k p" "buf_content b = frag_bytes s k p i" using missing(1) by (auto simp: own_def)
  have "got s k p (xs @ [(now, b)]) = insert i (got s k p xs)"
    using frag_bytes_inject [OF fit] i win(2) by (auto simp: got_def in_win_def)
  then have full: "insert i (got s k p xs) = {0..<n_frags k p}" using all by simp
  have sub: "got s k p xs \<subseteq> {0..<n_frags k p}" by (auto simp: got_def)
  obtain out f2 where "fragment_incoming now f1 b frm = Some (out, f2)" "buf_content out = p"
    using fragment_incoming_own [OF fit frm r(2) i(1) sub _ i(2) r(3) win(2) r(4), of now] xs full by auto
  then have "frag_run frm (incoming_ops [(now, b)]) f1 = Some ([out], f2)" by (simp add: incoming_ops_def)
  with r frag_run_length [OF r(1)] frag_run_append [OF r(1)] \<open>buf_content out = p\<close> show ?thesis
    by (auto simp: incoming_ops_def)
qed

lemma sender_fits:
  assumes "frame_ok tx" and "buf_wf buf" and "fr_max_fragment_size tx < b_len buf" and "b_len buf \<le> fb_payload_size rx + fb_tailroom rx"
    and "optimal_fragment_size (b_len buf) (fr_max_fragment_size tx) = Some (int k)" and "b_len buf \<le> int k * MAX_FRAGS"
  shows "fits rx k (buf_content buf)"
proof -
  have len: "int (length (buf_content buf)) = b_len buf" by (rule length_buf_content [OF assms(2)])
  have k: "0 < k" "int k mod 4 = 0" "k < 65536"
    using optimal_fragment_size_ok [of "fr_max_fragment_size tx" "b_len buf"] assms(1,3,5) by (auto simp: frame_ok_def)
  have "length (buf_content buf) \<le> 32 * k" using assms(6) len unfolding frag_consts by linarith
  then have "n_frags k (buf_content buf) \<le> 32" using n_frags_iff [OF k(1), of 32 "buf_content buf"] by linarith
  moreover have "buf_content buf \<noteq> []" using assms(1,3) len by (auto simp: frame_ok_def)
  moreover have "k mod 4 = 0" using k(2) by (metis of_nat_eq_0_iff of_nat_mod of_nat_numeral)
  ultimately show ?thesis using k assms(4) len by (simp add: fits_def BUF_SIZE_def)
qed

text \<open>The list of arrivals in which the fragments \<open>is\<close> come one after the other.\<close>

definition arrive :: "int \<Rightarrow> nat \<Rightarrow> u8 list \<Rightarrow> nat list \<Rightarrow> (time_t \<times> buffer) list" where
  "arrive s k p is = map (\<lambda>i. (0, buf_of (frag_bytes s k p i) 0 (length (frag_bytes s k p i)))) is"

lemma arrive_props:
  assumes "fits frm k p" and "0 \<le> s" and "s < 256" and "set is \<subseteq> {0..<n_frags k p}" and "k < 1000"
  shows "got s k p (arrive s k p is) = set is" and "\<forall>(t, c)\<in>set (arrive s k p is). buf_wf c \<and> own s k p c"
proof -
  have content: "buf_content (buf_of (frag_bytes s k p i) 0 (length (frag_bytes s k p i))) = frag_bytes s k p i" for i by simp
  have "x = y" if "x \<in> set is" "y < n_frags k p" "frag_bytes s k p x = frag_bytes s k p y" for x y
    using frag_bytes_inject [OF assms(1) _ that(2) assms(2,3) that(3)] that(1) assms(4) by auto
  then show "got s k p (arrive s k p is) = set is"
    using assms(4) by (auto simp: got_def arrive_def)
  have "int (length (frag_bytes s k p i)) < BUF_SIZE_MAX" for i
  proof -
    have "length (frag_bytes s k p i) \<le> k + 4" by (simp add: frag_bytes_def)
    then show ?thesis using assms(5) unfolding BUF_SIZE_MAX_def by linarith
  qed
  then show "\<forall>(t, c)\<in>set (arrive s k p is). buf_wf c \<and> own s k p c"
    using assms(4) by (fastforce simp: arrive_def own_def)
qed

text \<open>
  C30: a sender and a receiver composed. The sender breaks a datagram above its limit into fragments.
  They arrive at the receiver in any order and any number of times, mixed with any other datagrams (whole ones,
  garbage, fragments of other sequence numbers among 25 consecutive ones that include the receiver's newest). At the
  arrival that completes the set the receiver hands out exactly the datagram; before that it hands
  out nothing for its fragments.
\<close>

theorem fragments_reassemble:
  assumes tx: "frame_ok tx" "fm_wf tx g" and rx: "frame_ok rx" "fm_wf rx f"
    and buf: "buf_wf buf" "fr_max_fragment_size tx < b_len buf" "b_len buf \<le> fb_payload_size tx + fb_tailroom tx"
    and room: "b_len buf \<le> fb_payload_size rx + fb_tailroom rx"
    and k: "optimal_fragment_size (b_len buf) (fr_max_fragment_size tx) = Some (int k)" "b_len buf \<le> int k * MAX_FRAGS"
    and s: "s = (fm_outgoing_seq_id g + 1) mod 256" and p: "p = buf_content buf"
    and win: "in_win base (fgl_seq_id (fm_incoming f))" "in_win base s"
    and fresh: "inside (fm_incoming f) s \<longrightarrow> \<not> fg_defined (slot (fm_incoming f) s)"
    and xs: "\<forall>(t, c)\<in>set (xs @ [(now, b)]). buf_wf c \<and> (own s k p c \<or> other base s c)"
    and all: "got s k p (xs @ [(now, b)]) = {0..<n_frags k p}"
    and missing: "own s k p b" "got s k p xs \<noteq> {0..<n_frags k p}"
  shows "\<exists>frags g' outs out f'. send_datagram tx g buf = Some (frags, g')
    \<and> map buf_content frags = map (frag_bytes s k p) [0..<n_frags k p]
    \<and> frag_run rx (incoming_ops (xs @ [(now, b)])) f = Some (outs @ [out], f') \<and> length outs = length xs
    \<and> buf_content out = buf_content buf
    \<and> (\<forall>j < length xs. own s k p (snd (xs ! j)) \<longrightarrow> buf_content (outs ! j) = [])"
  using send_datagram_spec [OF tx buf k p s] p
    receive_completes [OF sender_fits [OF tx(1) buf(1,2) room k, folded p] rx win fresh xs all missing] by blast

lemma alloc_fragments_defined: "alloc_fragments frm fgs = Some fgs' \<Longrightarrow> map fg_defined fgs' = map fg_defined fgs"
  by (induction fgs arbitrary: fgs') auto

lemma fragment_frame_init_fresh:
  assumes "fragment_frame_init (fragment_init now r) frm = Some f"
  shows "fgl_seq_id (fm_incoming f) = 0" and "fm_outgoing_seq_id f = c_int r mod 256" and "\<not> fg_defined (slot (fm_incoming f) s)"
proof -
  obtain fgs where fgs: "alloc_fragments frm (fgl_fragments (fm_incoming (fragment_init now r))) = Some fgs"
      "fm_incoming f = (fm_incoming (fragment_init now r))\<lparr>fgl_fragments := fgs\<rparr>"
      "fm_outgoing_seq_id f = fm_outgoing_seq_id (fragment_init now r)"
    using assms by (auto simp: fragment_frame_init_def fragment_list_buf_init_def)
  then show "fgl_seq_id (fm_incoming f) = 0" "fm_outgoing_seq_id f = c_int r mod 256"
    by (simp_all add: fragment_init_def frag_consts and_masks)
  have m: "map fg_defined fgs = replicate 25 False"
    using alloc_fragments_defined [OF fgs(1)] by (simp add: fragment_init_def frag_consts)
  then have "length fgs = 25" by (metis m length_map length_replicate)
  then have "map fg_defined fgs ! slot_ix (fm_incoming f) s = fg_defined (slot (fm_incoming f) s)"
    using fgs(2) by (simp add: slot_def)
  then show "\<not> fg_defined (slot (fm_incoming f) s)" unfolding m by simp
qed

theorem fragments_reassemble_witness:
  "\<exists>g f frags g' outs out f'. fragment_frame_init (fragment_init 100 2) sample_frame = Some g
    \<and> fragment_frame_init (fragment_init 100 9) sample_frame = Some f
    \<and> send_datagram sample_frame g (buf_of (replicate 8 0 @ replicate 20 7) 8 20) = Some (frags, g') \<and> length frags = 3
    \<and> frag_run sample_frame (incoming_ops (arrive 3 8 (replicate 20 7) [2, 1, 2] @ arrive 3 8 (replicate 20 7) [0])) f = Some (outs @ [out], f')
    \<and> buf_content out = replicate 20 7"
proof -
  define p :: "u8 list" where "p = replicate 20 7"
  define buf where "buf = buf_of (replicate 8 0 @ p) 8 20"
  obtain g where g: "fragment_frame_init (fragment_init 100 2) sample_frame = Some g" "fm_wf sample_frame g"
    using fragment_frame_init_wf [OF sample_frame_ok] by blast
  obtain f where f: "fragment_frame_init (fragment_init 100 9) sample_frame = Some f" "fm_wf sample_frame f"
    using fragment_frame_init_wf [OF sample_frame_ok] by blast
  have buf: "buf_wf buf" "buf_content buf = p" "b_len buf = 20" by (simp_all add: buf_def p_def BUF_SIZE_MAX_def)
  have k: "optimal_fragment_size 20 10 = Some (int 8)" by code_simp
  have fit: "fits sample_frame 8 p" by (simp add: fits_def p_def n_frags_def sample_frame_def BUF_SIZE_def)
  have n: "n_frags 8 p = 3" by (simp add: n_frags_def p_def)
  have s: "3 = (fm_outgoing_seq_id g + 1) mod 256"
    using fragment_frame_init_fresh(2) [OF g(1)] by (simp add: c_int_id)
  obtain b where b: "arrive 3 8 p [0] = [(0, b)]" "own 3 8 p b" "buf_wf b"
    using arrive_props(2) [OF fit, of 3 "[0]"] n by (auto simp: arrive_def)
  have props: "got 3 8 p (arrive 3 8 p is) = set is" "\<forall>(t, c)\<in>set (arrive 3 8 p is). buf_wf c \<and> own 3 8 p c" if "set is \<subseteq> {0..<3}" for "is"
    using arrive_props [OF fit _ _ that [folded n], of 3] by simp_all
  have three: "{0..<3} = {0, 1, 2 :: nat}" by (auto simp: numeral_eq_Suc less_Suc_eq)
  have app: "arrive 3 8 p [2, 1, 2] @ [(0, b)] = arrive 3 8 p [2, 1, 2, 0]" using b(1) by (simp add: arrive_def)
  have "\<exists>frags g' outs out f'. send_datagram sample_frame g buf = Some (frags, g')
    \<and> map buf_content frags = map (frag_bytes 3 8 p) [0..<n_frags 8 p]
    \<and> frag_run sample_frame (incoming_ops (arrive 3 8 p [2, 1, 2] @ [(0, b)])) f = Some (outs @ [out], f')
    \<and> length outs = length (arrive 3 8 p [2, 1, 2]) \<and> buf_content out = buf_content buf
    \<and> (\<forall>j < length (arrive 3 8 p [2, 1, 2]). own 3 8 p (snd (arrive 3 8 p [2, 1, 2] ! j)) \<longrightarrow> buf_content (outs ! j) = [])"
  proof (rule fragments_reassemble [OF sample_frame_ok g(2) sample_frame_ok f(2) buf(1) _ _ _ _ _ s buf(2) [symmetric], where base = 0])
    show "inside (fm_incoming f) 3 \<longrightarrow> \<not> fg_defined (slot (fm_incoming f) 3)"
      using fragment_frame_init_fresh(3) [OF f(1)] by simp
    show "\<forall>(t, c)\<in>set (arrive 3 8 p [2, 1, 2] @ [(0, b)]). buf_wf c \<and> (own 3 8 p c \<or> other 0 3 c)"
      unfolding app using props(2) [of "[2, 1, 2, 0]"] three by fastforce
    show "got 3 8 p (arrive 3 8 p [2, 1, 2] @ [(0, b)]) = {0..<n_frags 8 p}" unfolding app n three using props(1) [of "[2, 1, 2, 0]"] by (simp add: three insert_commute)
    have "0 \<notin> got 3 8 p (arrive 3 8 p [2, 1, 2])" using props(1) [of "[2, 1, 2]"] by simp
    then show "got 3 8 p (arrive 3 8 p [2, 1, 2]) \<noteq> {0..<n_frags 8 p}" unfolding n by auto
  qed (use buf k b(2) fragment_frame_init_fresh(1) [OF f(1)] in \<open>auto simp: sample_frame_def in_win_def pos_def frag_consts\<close>)
  then obtain frags g' outs out f' where "send_datagram sample_frame g buf = Some (frags, g')"
    "map buf_content frags = map (frag_bytes 3 8 p) [0..<n_frags 8 p]"
    "frag_run sample_frame (incoming_ops (arrive 3 8 p [2, 1, 2] @ [(0, b)])) f = Some (outs @ [out], f')" "buf_content out = p"
    using buf by blast
  moreover from arg_cong [OF this(2), of length] have "length frags = 3" by (simp only: length_map length_upt n)
  ultimately show ?thesis using g f b(1) unfolding buf_def p_def by metis
qed

subsection \<open>Datagrams that are sent whole\<close>

lemma and_255: "w AND 255 = 0 \<longleftrightarrow> uint w mod 256 = 0" for w :: u32
proof -
  have "uint (w AND 255) = uint w mod 256"
    using and_masks(2) [of "uint w"] by (simp add: unsigned_and_eq)
  then show ?thesis by (metis unsigned_0 word_uint_eq_iff)
qed

lemma fragment_incoming_whole:
  assumes "buf_wf buf" and "buf_content buf = u32_be (fragment_header FRAG_WHOLE s n 0) @ d"
    and "0 \<le> s" and "s < 256" and "0 \<le> n" and "n < 32"
  shows "\<exists>b. fragment_incoming now f buf frm = Some (b, f) \<and> buf_wf b \<and> buf_content b = (if s mod 64 = 0 then d else [])"
proof -
  define flags where "flags = fragment_header FRAG_WHOLE s n 0"
  have u: "uint flags = 4 * s + 1024 * n"
    unfolding flags_def using assms by (subst fragment_header_sum(2)) (auto simp: frag_consts header_int_def)
  have ty: "header_field flags FRAG_TYPE_SHIFT FRAG_TYPE_MASK = FRAG_WHOLE"
    unfolding flags_def using assms by (intro header_roundtrip(1)) (auto simp: frag_consts)
  have "(4 * s + 256 * (4 * n)) mod 256 = 4 * (s mod 64)"
    unfolding mod_mult_self2 using mult_mod_right [of 4 s 64] by simp
  then have "(4 * s + 1024 * n) mod 256 = 4 * (s mod 64)" by simp
  then have chk: "flags AND of_int (FRAG_SEQ_ID_MASK OR FRAG_ID_MASK) = 0 \<longleftrightarrow> s mod 64 = 0"
    by (simp add: frag_consts and_255 u)
  have len: "4 \<le> b_len buf" using length_buf_content [OF assms(1)] assms(2) by simp
  have b: "buf_wf (buf_consumed buf 4)" "buf_content (buf_consumed buf 4) = d" using assms(1,2) len by auto
  have "buf_wf ((buf_consumed buf 4)\<lparr>b_len := 0\<rparr>)" "buf_content ((buf_consumed buf 4)\<lparr>b_len := 0\<rparr>) = []"
    using b(1) by (auto simp: buf_wf_def buf_content_def split: option.splits)
  with b len assms(1) ty chk show ?thesis
    by (auto simp: fragment_incoming_def buf_read_pos assms(2) flags_def [symmetric] Let_def frag_err_def simp del: bind_Some_iff)
qed

text \<open>
  A whole datagram whose header names a sequence or fragment number should be rejected
  (``spurious FRAG_WHOLE flags''). The test masks the header without shifting it, so it sees the low six bits of
  the sequence number only: with a sequence number that is a multiple of 64 the datagram is accepted,
  whatever its fragment number; in every other case it is rejected.
\<close>

theorem spurious_whole_flags_missed:
  assumes "buf_wf buf" and "buf_content buf = u32_be (fragment_header FRAG_WHOLE s n 0) @ d"
    and "0 \<le> s" and "s < 256" and "0 \<le> n" and "n < 32"
  shows "\<exists>b. fragment_incoming now f buf frm = Some (b, f) \<and> buf_content b = (if s mod 64 = 0 then d else [])"
  using fragment_incoming_whole [OF assms] by blast

theorem spurious_whole_flags_missed_witness:
  "\<exists>b. fragment_incoming 100 (fragment_init 100 2) (buf_of (u32_be (fragment_header FRAG_WHOLE 192 31 0) @ [1, 2]) 0 6) sample_frame
      = Some (b, fragment_init 100 2) \<and> buf_content b = [1, 2]"
  using spurious_whole_flags_missed [of "buf_of (u32_be (fragment_header FRAG_WHOLE 192 31 0) @ [1, 2]) 0 6" 192 31 "[1, 2]" 100
      "fragment_init 100 2" sample_frame]
  by (simp add: BUF_SIZE_MAX_def)

end
