(* ===== verification/Ip_Packet.thy ===== *)
theory Ip_Packet
  imports Buffer
begin

text \<open>
  Packets of the tunnel: \<^verbatim>\<open>proto.h\<close> and \<^verbatim>\<open>proto.c\<close>. The code overlays packed structures on the bytes of a buffer; here a
  field is read and written at its offset from \<^verbatim>\<open>BPTR\<close>, and the access faults when it leaves the block.
  A 16-bit or 32-bit field read without \<^verbatim>\<open>ntohs\<close> has the byte order of the host, the argument \<open>big\<close>; with
  \<^verbatim>\<open>ntohs\<close> it is \<open>be_u16\<close> of the bytes on every host.

  The lemmas are about the Internet checksum: the sum of the 16-bit words modulo 65535, in
  either byte order, and how \<^verbatim>\<open>ADJUST_CHECKSUM\<close> keeps it when words of the packet are replaced.
\<close>

unbundle bit_operations_syntax

subsection \<open>Fields of a packet\<close>

definition field :: "buffer \<Rightarrow> nat \<Rightarrow> nat \<Rightarrow> u8 list option" where
  "field b off n =
     (case buf_bptr b of None \<Rightarrow> None | Some p \<Rightarrow> mem_read (b_data b) (p + int off) (int n))"

definition set_field :: "buffer \<Rightarrow> nat \<Rightarrow> u8 list \<Rightarrow> buffer option" where
  "set_field b off ys =
     (case buf_bptr b of None \<Rightarrow> None
      | Some p \<Rightarrow> do { blk \<leftarrow> mem_write (b_data b) (p + int off) ys; Some (b\<lparr>b_data := blk\<rparr>) })"

definition field_u8 :: "buffer \<Rightarrow> nat \<Rightarrow> u8 option" where
  "field_u8 b off = map_option hd (field b off 1)"

definition host :: "bool \<Rightarrow> u8 list \<Rightarrow> u8 list" where
  "host big bs = (if big then bs else rev bs)"

definition host16 :: "bool \<Rightarrow> u8 list \<Rightarrow> u16" where
  "host16 big bs = be_u16 (host big bs)"

definition host32 :: "bool \<Rightarrow> u8 list \<Rightarrow> u32" where
  "host32 big bs = be_u32 (host big bs)"

definition htons :: "bool \<Rightarrow> u16 \<Rightarrow> u16" where
  "htons big w = host16 big (u16_be w)"

subsection \<open>Constants\<close>

definition DEV_TYPE_TUN :: int where "DEV_TYPE_TUN = 2"
definition DEV_TYPE_TAP :: int where "DEV_TYPE_TAP = 3"
definition OPENVPN_ETH_P_IPV4 :: u16 where "OPENVPN_ETH_P_IPV4 = 0x0800"
definition OPENVPN_ETH_P_IPV6 :: u16 where "OPENVPN_ETH_P_IPV6 = 0x86DD"
definition OPENVPN_ETH_P_8021Q :: u16 where "OPENVPN_ETH_P_8021Q = 0x8100"
definition OPENVPN_IPPROTO_TCP :: u8 where "OPENVPN_IPPROTO_TCP = 6"
definition OPENVPN_IPPROTO_UDP :: u8 where "OPENVPN_IPPROTO_UDP = 17"

text \<open>
  Sizes of the packed structures \<^verbatim>\<open>openvpn_ethhdr\<close>, \<^verbatim>\<open>openvpn_8021qhdr\<close>, \<^verbatim>\<open>openvpn_iphdr\<close>, \<^verbatim>\<open>openvpn_ipv6hdr\<close>,
  \<^verbatim>\<open>openvpn_tcphdr\<close> and \<^verbatim>\<open>openvpn_udphdr\<close>.
\<close>

definition sizeof_ethhdr :: nat where "sizeof_ethhdr = 14"
definition sizeof_8021qhdr :: nat where "sizeof_8021qhdr = 18"
definition sizeof_iphdr :: nat where "sizeof_iphdr = 20"
definition sizeof_ipv6hdr :: nat where "sizeof_ipv6hdr = 40"
definition sizeof_tcphdr :: nat where "sizeof_tcphdr = 20"
definition sizeof_udphdr :: nat where "sizeof_udphdr = 8"

lemmas proto_consts = DEV_TYPE_TUN_def DEV_TYPE_TAP_def OPENVPN_ETH_P_IPV4_def OPENVPN_ETH_P_IPV6_def
  OPENVPN_ETH_P_8021Q_def OPENVPN_IPPROTO_TCP_def OPENVPN_IPPROTO_UDP_def sizeof_ethhdr_def sizeof_8021qhdr_def
  sizeof_iphdr_def sizeof_ipv6hdr_def sizeof_tcphdr_def sizeof_udphdr_def

definition OPENVPN_IPH_GET_VER :: "u8 \<Rightarrow> int" where
  "OPENVPN_IPH_GET_VER v = uint (drop_bit 4 v AND 0x0F)"

definition OPENVPN_IPH_GET_LEN :: "u8 \<Rightarrow> int" where
  "OPENVPN_IPH_GET_LEN v = push_bit 2 (uint (v AND 0x0F))"

definition OPENVPN_TCPH_GET_DOFF :: "u8 \<Rightarrow> int" where
  "OPENVPN_TCPH_GET_DOFF d = drop_bit 2 (uint (d AND 0xF0))"

subsection \<open>The IP header of a tunnel packet\<close>

definition get_tun_ip_ver :: "int \<Rightarrow> buffer \<Rightarrow> (int \<times> int) option" where
  \<comment> \<open>the version and the offset of the header, whose initial value the caller gives as 0\<close>
  "get_tun_ip_ver tunnel_type buf =
     (if tunnel_type = DEV_TYPE_TUN
      then if b_len buf \<ge> int sizeof_iphdr
        then do { v \<leftarrow> field_u8 buf 0; Some (OPENVPN_IPH_GET_VER v, 0) }
        else Some (- 1, 0)
      else if tunnel_type = DEV_TYPE_TAP
      then if b_len buf \<ge> int sizeof_ethhdr
        then do {
          bs \<leftarrow> field buf 12 2;
          let proto = be_u16 bs;
          Some (if proto = OPENVPN_ETH_P_IPV6 then 6 else if proto = OPENVPN_ETH_P_IPV4 then 4 else - 1,
                int sizeof_ethhdr) }
        else Some (- 1, int sizeof_ethhdr)
      else Some (- 1, 0))"

text \<open>The check of the version at the found offset, and the advance of the buffer to the header.\<close>

definition at_ip_header :: "buffer \<Rightarrow> nat \<Rightarrow> int \<Rightarrow> (bool \<times> buffer) option" where
  "at_ip_header buf off ip_ver = do {
     v \<leftarrow> field_u8 buf off;
     Some (if OPENVPN_IPH_GET_VER v = ip_ver then buf_advance buf (int off) else (False, buf)) }"

definition is_ipv_X :: "int \<Rightarrow> buffer \<Rightarrow> int \<Rightarrow> (bool \<times> buffer) option" where
  "is_ipv_X tunnel_type buf ip_ver =
     (if tunnel_type = DEV_TYPE_TUN
      then if buf_len buf < int sizeof_iphdr then Some (False, buf) else at_ip_header buf 0 ip_ver
      else if tunnel_type = DEV_TYPE_TAP
      then if buf_len buf < int (sizeof_ethhdr + sizeof_iphdr) then Some (False, buf)
        else do {
          bs \<leftarrow> field buf 12 2;
          if be_u16 bs = OPENVPN_ETH_P_8021Q
          then if buf_len buf < int (sizeof_ethhdr + sizeof_iphdr) then Some (False, buf)
            else do {
              bs' \<leftarrow> field buf 16 2;
              if be_u16 bs' \<noteq> (if ip_ver = 6 then OPENVPN_ETH_P_IPV6 else OPENVPN_ETH_P_IPV4) then Some (False, buf)
              else at_ip_header buf sizeof_8021qhdr ip_ver }
          else if be_u16 bs \<noteq> (if ip_ver = 6 then OPENVPN_ETH_P_IPV6 else OPENVPN_ETH_P_IPV4) then Some (False, buf)
          else at_ip_header buf sizeof_ethhdr ip_ver }
      else Some (False, buf))"

definition is_ipv4 :: "int \<Rightarrow> buffer \<Rightarrow> (bool \<times> buffer) option" where
  "is_ipv4 tunnel_type buf = is_ipv_X tunnel_type buf 4"

definition is_ipv6 :: "int \<Rightarrow> buffer \<Rightarrow> (bool \<times> buffer) option" where
  "is_ipv6 tunnel_type buf = is_ipv_X tunnel_type buf 6"

subsection \<open>Checksums\<close>

definition ADJUST_CHECKSUM :: "int \<Rightarrow> u16 \<Rightarrow> u16" where
  "ADJUST_CHECKSUM acc cksum =
     (let a = acc + uint cksum
      in if a < 0
         then let n = - a; n = drop_bit 16 n + (n AND 0xffff); n = n + drop_bit 16 n in NOT (of_int n)
         else let n = drop_bit 16 a + (a AND 0xffff); n = n + drop_bit 16 n in of_int n)"

definition ADD_CHECKSUM_32 :: "int \<Rightarrow> u32 \<Rightarrow> int" where
  "ADD_CHECKSUM_32 acc u = acc + uint (u AND 0xffff) + uint (drop_bit 16 u)"

definition SUB_CHECKSUM_32 :: "int \<Rightarrow> u32 \<Rightarrow> int" where
  "SUB_CHECKSUM_32 acc u = acc - uint (u AND 0xffff) - uint (drop_bit 16 u)"

text \<open>
  \<^verbatim>\<open>ip_checksum\<close> sums the 16-bit words of the payload (the last byte padded with zero) and of the pseudo header. The final loop
  adds the carries; three rounds are enough for a 32-bit sum, which bounds its fuel.
\<close>

fun sum_words :: "u8 list \<Rightarrow> u32" where
  "sum_words [] = 0"
| "sum_words [a] = ucast (be_u16 [a, 0])"
| "sum_words (a # b # bs) = ucast (be_u16 [a, b]) + sum_words bs"

fun add_carries :: "nat \<Rightarrow> u32 \<Rightarrow> u32 option" where
  "add_carries 0 sm = None"
| "add_carries (Suc fuel) sm =
     (if drop_bit 16 sm \<noteq> 0 then add_carries fuel ((sm AND 0xFFFF) + drop_bit 16 sm) else Some sm)"

definition ip_checksum :: "bool \<Rightarrow> u8 list \<Rightarrow> u8 list \<Rightarrow> u8 list \<Rightarrow> int \<Rightarrow> u16 option" where
  \<comment> \<open>\<open>inet\<close> for the family \<^verbatim>\<open>AF_INET\<close>; the addresses are the bytes at the pointers\<close>
  "ip_checksum inet payload src_addr dest_addr proto = do {
     let addr_len = (if inet then 4 else 16);
     src \<leftarrow> (if addr_len \<le> length src_addr then Some (take addr_len src_addr) else None);
     dest \<leftarrow> (if addr_len \<le> length dest_addr then Some (take addr_len dest_addr) else None);
     let sm = sum_words payload + sum_words src + sum_words dest
               + ucast (of_nat (length payload) :: u16) + ucast (of_int proto :: u16);
     sm1 \<leftarrow> add_carries 4 sm;
     Some (NOT (ucast sm1)) }"

subsection \<open>Reading and writing inside the content\<close>

definition poked :: "buffer \<Rightarrow> nat \<Rightarrow> u8 list \<Rightarrow> buffer" where
  "poked b off ys = b\<lparr>b_data := map_option (\<lambda>xs. overwrite xs (nat (b_offset b) + off) ys) (b_data b)\<rparr>"

lemma poked_fields [simp]:
  "b_offset (poked b off ys) = b_offset b" "b_len (poked b off ys) = b_len b" "b_capacity (poked b off ys) = b_capacity b"
  by (simp_all add: poked_def)

lemma field_content:
  assumes "buf_wf b" and "off + n \<le> length (buf_content b)" and "0 < n"
  shows "field b off n = Some (take n (drop off (buf_content b)))"
  using assms(1)
proof (cases rule: buf_wf_cases)
  case null
  with assms show ?thesis by simp
next
  case (block xs p l)
  then have l: "off + n \<le> l" using assms by auto
  have "take n (drop off (take l (drop p xs))) = take n (drop (p + off) xs)"
    using l by (simp add: drop_take add.commute)
  moreover have "nat (int p + int off) = p + off" by simp
  ultimately show ?thesis
    using block l assms(3) by (simp add: field_def mem_read_def)
qed

lemma set_field_content:
  assumes "buf_wf b" and "off + length ys \<le> length (buf_content b)" and "ys \<noteq> []"
  shows "set_field b off ys = Some (poked b off ys)" and "buf_wf (poked b off ys)"
    and "buf_content (poked b off ys) = overwrite (buf_content b) off ys"
proof -
  have "set_field b off ys = Some (poked b off ys) \<and> buf_wf (poked b off ys)
    \<and> buf_content (poked b off ys) = overwrite (buf_content b) off ys"
    using assms(1)
  proof (cases rule: buf_wf_cases)
    case null
    with assms show ?thesis by simp
  next
    case (block xs p l)
    then have l: "off + length ys \<le> l" using assms by auto
    then have fit: "p + off + length ys \<le> length xs" using block by linarith
    have p: "poked b off ys = buf_of (overwrite xs (p + off) ys) p l"
      using block fit by (simp add: poked_def buf_of_def)
    have off: "off < l" using l assms(3) by (cases ys) auto
    have c: "take l (drop p (overwrite xs (p + off) ys)) = overwrite (take l (drop p xs)) off ys"
      using block l fit off by (simp add: overwrite_def drop_take min_def add.commute add.left_commute)
    have "nat (int p + int off) = p + off" by simp
    then have "set_field b off ys = Some (poked b off ys)"
      using block fit assms(3) by (simp add: set_field_def mem_write_def poked_def)
    with p block l fit c show ?thesis by simp
  qed
  then show "set_field b off ys = Some (poked b off ys)" "buf_wf (poked b off ys)"
    "buf_content (poked b off ys) = overwrite (buf_content b) off ys" by auto
qed

lemma field_u8_content:
  assumes "buf_wf b" and "off < length (buf_content b)"
  shows "field_u8 b off = Some (buf_content b ! off)"
  using field_content [OF assms(1), of off 1] assms(2) by (simp add: field_u8_def hd_drop_conv_nth take_Suc)

lemma poked_poked:
  assumes "buf_wf b" and "length c = length (buf_content b)" and "off + length ys \<le> length c"
  shows "poked (poked b 0 c) off ys = poked b 0 (overwrite c off ys)"
  using assms(1)
proof (cases rule: buf_wf_cases)
  case null
  then show ?thesis by (simp add: poked_def)
next
  case (block xs p l)
  then have l: "length c = l" using assms by auto
  have "overwrite (overwrite xs p c) (p + off) ys = overwrite xs p (overwrite c off ys)"
  proof (rule nth_equalityI)
    show "length (overwrite (overwrite xs p c) (p + off) ys) = length (overwrite xs p (overwrite c off ys))"
      using block l assms(3) by simp
    fix i assume "i < length (overwrite (overwrite xs p c) (p + off) ys)"
    then show "overwrite (overwrite xs p c) (p + off) ys ! i = overwrite xs p (overwrite c off ys) ! i"
      using block l assms(3) by (auto simp: nth_overwrite)
  qed
  then show ?thesis using block by (simp add: poked_def)
qed

lemma poked_self:
  assumes "buf_wf b"
  shows "poked b 0 (buf_content b) = b"
  using assms
proof (cases rule: buf_wf_cases)
  case (block xs p l)
  then have "overwrite xs p (take l (drop p xs)) = xs"
    by (simp add: overwrite_def) (metis append_take_drop_id drop_drop add.commute)
  with block show ?thesis by (simp add: poked_def)
qed (simp add: poked_def)

lemma poked_content:
  assumes "buf_wf b" and "length c = length (buf_content b)" and "c \<noteq> []"
  shows "buf_wf (poked b 0 c)" and "buf_content (poked b 0 c) = c"
  using set_field_content [OF assms(1), of 0 c] assms by (auto simp: overwrite_def)

lemma length_host [simp]: "length (host big bs) = length bs"
  by (simp add: host_def)

lemma host16_host: "length bs = 2 \<Longrightarrow> host16 big (host big bs) = be_u16 bs"
  by (simp add: host16_def host_def)

lemma take_2_drop: "i + 2 \<le> length c \<Longrightarrow> take 2 (drop i c) = [c ! i, c ! (i + 1)]"
  by (simp add: take_Suc_conv_app_nth numeral_2_eq_2 hd_drop_conv_nth take_Suc drop_Suc tl_drop [symmetric])

lemma u16_be_2: "\<exists>x y. u16_be w = [x, y]"
  by (metis length_u16_be length_Suc_conv length_0_conv numeral_2_eq_2)

subsection \<open>The Internet checksum\<close>

text \<open>The sum of the 16-bit words of a packet as the host reads them, the last byte padded with zero.\<close>

fun word_sum :: "bool \<Rightarrow> u8 list \<Rightarrow> int" where
  "word_sum big [] = 0"
| "word_sum big [a] = uint (host16 big [a, 0])"
| "word_sum big (a # b # bs) = uint (host16 big [a, b]) + word_sum big bs"

definition same_sum :: "int \<Rightarrow> int \<Rightarrow> bool" where
  "same_sum x y \<longleftrightarrow> x mod 65535 = y mod 65535"

lemma same_sum_add: "same_sum x y \<Longrightarrow> same_sum (z + x) (z + y)"
  unfolding same_sum_def by (metis mod_add_right_eq)

lemma uint_be_u16: "uint (be_u16 [a, b]) = uint a * 256 + uint b"
proof -
  have "unat a * 256 + unat b < 65536" using unat_u8_less [of a] unat_u8_less [of b] by linarith
  then have "unat (be_u16 [a, b]) = unat a * 256 + unat b"
    by (simp add: be_u16_def be_to_nat_def unat_of_nat del: of_nat_add of_nat_mult)
  then have "int (unat (be_u16 [a, b])) = int (unat a) * 256 + int (unat b)" by simp
  then show ?thesis by simp
qed

lemma uint_host16: "uint (host16 big [a, b]) = (if big then uint a * 256 + uint b else uint b * 256 + uint a)"
  by (simp add: host16_def host_def uint_be_u16)

lemma word_sum_append: "even (length xs) \<Longrightarrow> word_sum big (xs @ ys) = word_sum big xs + word_sum big ys"
  by (induction big xs rule: word_sum.induct) auto

lemma word_sum_overwrite:
  assumes "even i" and "i + 2 \<le> length xs"
  shows "word_sum big (overwrite xs i [c, d])
    = word_sum big xs - uint (host16 big (take 2 (drop i xs))) + uint (host16 big [c, d])"
proof -
  obtain a b rest where r: "drop i xs = a # b # rest"
    using assms by (metis Suc_le_length_iff add_2_eq_Suc' le_diff_conv2 add_leD1 length_drop add.commute numeral_2_eq_2)
  have xs: "xs = take i xs @ a # b # rest" using r by (metis append_take_drop_id)
  have l: "length (take i xs) = i" using assms by simp
  have "overwrite xs i [c, d] = take i xs @ c # d # rest"
    using r drop_drop [of 2 i xs] by (simp add: overwrite_def add.commute)
  moreover have "word_sum big xs = word_sum big (take i xs) + uint (host16 big [a, b]) + word_sum big rest"
    using word_sum_append [of "take i xs" big "a # b # rest"] l assms(1) xs by simp
  ultimately show ?thesis using word_sum_append [of "take i xs" big "c # d # rest"] l assms(1) r by simp
qed

lemma fold_carries:
  fixes n :: int
  assumes "0 \<le> n" and "n < 2 ^ 31"
  defines "m \<equiv> n div 65536 + n mod 65536"
  shows "(m + m div 65536) mod 65536 mod 65535 = n mod 65535"
proof -
  have q: "0 \<le> n div 65536" "n div 65536 < 32768" using assms by auto
  have m: "0 \<le> m" "m < 98303" using q pos_mod_bound [of 65536 n] by (auto simp: m_def)
  have n: "n = 65535 * (n div 65536) + m" by (simp add: m_def)
  have "n mod 65535 = m mod 65535" by (subst n) simp
  moreover have "(m + m div 65536) mod 65536 mod 65535 = m mod 65535"
  proof (cases "m < 65536")
    case True
    then show ?thesis using m by simp
  next
    case False
    then have d: "m div 65536 = 1" using m by simp
    have "(m + 1) mod 65536 = m + 1 - 65536"
      using m False mod_add_self2 [of "m + 1 - 65536" 65536] mod_pos_pos_trivial [of "m + 1 - 65536" 65536] by (simp add: add.commute)
    moreover have "(m - 65535) mod 65535 = m mod 65535" by simp
    ultimately show ?thesis using d by simp
  qed
  ultimately show ?thesis by simp
qed

lemma uint_of_int_u16: "uint (of_int n :: u16) = n mod 65536"
  by (simp add: unsigned_of_int take_bit_eq_mod)

lemma uint_not_u16: "uint (NOT w) = 65535 - uint w" for w :: u16
proof -
  have "uint (NOT w) = take_bit 16 (- (uint w) - 1)" by (simp add: unsigned_not_eq not_int_def)
  also have "\<dots> = (65535 - uint w) mod 65536"
    using mod_add_self2 [of "- uint w - 1" 65536] by (simp add: take_bit_eq_mod)
  also have "\<dots> = 65535 - uint w" using uint_lt2p [of w] uint_ge_0 [of w] by (intro mod_pos_pos_trivial) (simp, linarith)
  finally show ?thesis .
qed

lemma and_ffff: "n AND 0xffff = n mod 65536" for n :: int
  using take_bit_eq_mask [of 16 n] by (simp add: take_bit_eq_mod mask_eq_exp_minus_1)

text \<open>\<^verbatim>\<open>ADJUST_CHECKSUM\<close> adds the accumulated difference to the checksum, modulo 65535.\<close>

lemma ADJUST_CHECKSUM_mod:
  assumes "\<bar>acc\<bar> < 2 ^ 30"
  shows "same_sum (uint (ADJUST_CHECKSUM acc c)) (acc + uint c)"
proof -
  define a where "a = acc + uint c"
  have a: "- (2 ^ 31) < a" "a < 2 ^ 31" using assms uint_lt2p [of c] uint_ge_0 [of c] unfolding a_def by (simp_all, linarith+)
  show ?thesis
  proof (cases "a < 0")
    case False
    have "uint (ADJUST_CHECKSUM acc c) = (a div 65536 + a mod 65536 + (a div 65536 + a mod 65536) div 65536) mod 65536"
      using False by (simp add: ADJUST_CHECKSUM_def a_def [symmetric] Let_def uint_of_int_u16 drop_bit_eq_div and_ffff del: of_int_add)
    then show ?thesis
      using fold_carries [OF _ a(2)] False unfolding same_sum_def a_def [symmetric] by (simp only: not_less)
  next
    case True
    define n where "n = - a"
    define m where "m = (n div 65536 + n mod 65536 + (n div 65536 + n mod 65536) div 65536) mod 65536"
    have "uint (ADJUST_CHECKSUM acc c) = 65535 - m"
      using True
      by (simp add: ADJUST_CHECKSUM_def a_def [symmetric] n_def [symmetric] m_def Let_def uint_not_u16 uint_of_int_u16
          drop_bit_eq_div and_ffff del: of_int_add)
    moreover have "m mod 65535 = n mod 65535" unfolding m_def by (rule fold_carries) (use a True in \<open>simp_all add: n_def\<close>)
    then have "(65535 - m) mod 65535 = (65535 - n) mod 65535" by (metis mod_diff_right_eq)
    moreover have "(65535 - n) mod 65535 = a mod 65535" by (simp add: n_def)
    ultimately show ?thesis by (simp add: same_sum_def a_def [symmetric])
  qed
qed

lemma uint_be_u32: "uint (be_u32 [a, b, c, d]) = ((uint a * 256 + uint b) * 256 + uint c) * 256 + uint d"
proof -
  have "((unat a * 256 + unat b) * 256 + unat c) * 256 + unat d < 4294967296"
    using unat_u8_less [of a] unat_u8_less [of b] unat_u8_less [of c] unat_u8_less [of d]
    by (simp only: distrib_right mult.assoc)
  then have "unat (be_u32 [a, b, c, d]) = ((unat a * 256 + unat b) * 256 + unat c) * 256 + unat d"
    by (simp add: be_u32_def be_to_nat_def unat_of_nat del: of_nat_add of_nat_mult)
  then have "int (unat (be_u32 [a, b, c, d])) = ((int (unat a) * 256 + int (unat b)) * 256 + int (unat c)) * 256 + int (unat d)" by simp
  then show ?thesis by simp
qed

lemma uint_drop_bit_u32: "uint (drop_bit n w) = uint w div 2 ^ n" for w :: u32
proof -
  have "take_bit 32 (uint w) = uint w" using uint_lt2p [of w] by (intro take_bit_int_eq_self) simp_all
  then show ?thesis by (simp add: unsigned_drop_bit_eq drop_bit_eq_div [symmetric])
qed

lemma halves_sum:
  "uint (host32 big [a, b, c, d] AND 0xffff) + uint (drop_bit 16 (host32 big [a, b, c, d]))
    = uint (host16 big [a, b]) + uint (host16 big [c, d])"
proof -
  have *: "uint (w AND 0xffff) = uint w mod 65536" "uint (drop_bit 16 w) = uint w div 65536" for w :: u32
    using uint_drop_bit_u32 [of 16 w] by (simp_all only: unsigned_and_eq) (simp_all add: and_ffff)
  have b: "0 \<le> uint x \<and> uint x < 256" for x :: u8 using uint_lt2p [of x] by simp
  have **: "(((p * 256 + q) * 256 + r) * 256 + t) mod 65536 = r * 256 + t
      \<and> (((p * 256 + q) * 256 + r) * 256 + t) div 65536 = p * 256 + q"
    if "0 \<le> r" "r < 256" "0 \<le> t" "t < 256" for p q r t :: int
  proof -
    have "((p * 256 + q) * 256 + r) * 256 + t = (r * 256 + t) + 65536 * (p * 256 + q)" by simp
    moreover have "0 \<le> r * 256 + t" "r * 256 + t < 65536" using that by auto
    ultimately show ?thesis by (simp only: horner)
  qed
  show ?thesis
    using ** [of "uint c" "uint d" "uint a" "uint b"] ** [of "uint b" "uint a" "uint d" "uint c"] b [of a] b [of b] b [of c] b [of d]
    by (cases big) (simp_all add: * host32_def host_def uint_be_u32 uint_host16)
qed

subsection \<open>The computed checksum\<close>

lemma uint_lt_65536: "uint w < 65536" for w :: u16
  using uint_lt2p [of w] by simp

lemma be_u16_u32: "uint (ucast (be_u16 [a, b]) :: u32) = uint (be_u16 [a, b])"
  using uint_lt_65536 [of "be_u16 [a, b]"] by (simp add: unsigned_ucast_eq take_bit_int_eq_self)

lemma word_sum_bound: "0 \<le> word_sum big xs \<and> word_sum big xs \<le> 65535 * ((int (length xs) + 1) div 2)"
proof (induction big xs rule: word_sum.induct)
  case (2 big a)
  then show ?case using uint_lt_65536 [of "host16 big [a, 0]"] by simp
next
  case (3 big a b bs)
  have "(int (length (a # b # bs)) + 1) div 2 = (int (length bs) + 1) div 2 + 1" by simp
  then show ?case using 3 uint_lt_65536 [of "host16 big [a, b]"] by (simp add: algebra_simps)
qed simp

lemma uint_sum_words: "length xs \<le> 65535 \<Longrightarrow> uint (sum_words xs) = word_sum True xs"
proof (induction xs rule: sum_words.induct)
  case (3 a b bs)
  then have ih: "uint (sum_words bs) = word_sum True bs" by simp
  have "(int (length (a # b # bs)) + 1) div 2 \<le> 32768" using 3(2) by simp
  then have "uint (ucast (be_u16 [a, b]) :: u32) + uint (sum_words bs) < 2 ^ 32"
    using word_sum_bound [of True "a # b # bs"] ih by (simp add: be_u16_u32 host16_def host_def)
  then have "uint (ucast (be_u16 [a, b]) + sum_words bs) = uint (ucast (be_u16 [a, b]) :: u32) + uint (sum_words bs)"
    by (simp add: uint_plus_if')
  then show ?case using ih by (simp add: be_u16_u32 host16_def host_def)
qed (simp_all add: be_u16_u32 host16_def host_def)

lemma add_carries_step:
  fixes w :: u32
  shows "uint ((w AND 0xFFFF) + drop_bit 16 w) = uint w mod 65536 + uint w div 65536"
    and "drop_bit 16 w = 0 \<longleftrightarrow> uint w < 65536"
proof -
  have d: "uint (drop_bit 16 w) = uint w div 65536" using uint_drop_bit_u32 [of 16 w] by simp
  have m: "uint (w AND 0xFFFF) = uint w mod 65536" by (simp only: unsigned_and_eq) (simp add: and_ffff)
  have w: "uint w div 65536 < 65536" "0 \<le> uint w div 65536" using uint_lt2p [of w] uint_ge_0 [of w] by (simp_all add: pos_imp_zdiv_nonneg_iff del: uint_ge_0)
  have "uint w mod 65536 < 65536" by simp
  then have "uint w mod 65536 + uint w div 65536 < 4294967296" using w by linarith
  then show "uint ((w AND 0xFFFF) + drop_bit 16 w) = uint w mod 65536 + uint w div 65536"
    using d m by (simp add: uint_plus_if')
  have "drop_bit 16 w = 0 \<longleftrightarrow> uint w div 65536 = 0" unfolding d [symmetric] by (simp add: uint_0_iff)
  then show "drop_bit 16 w = 0 \<longleftrightarrow> uint w < 65536" by (auto simp: zdiv_eq_0_iff)
qed

text \<open>Two additions of carries always reduce the sum to 16 bits: the first leaves at most \<open>2 * 65535\<close>.\<close>

lemma add_carries_ok:
  "\<exists>r. add_carries 4 w = Some r \<and> uint r < 65536 \<and> uint r mod 65535 = uint w mod 65535"
proof -
  define f where "f n = n mod 65536 + n div 65536" for n :: int
  have keep: "f n mod 65535 = n mod 65535" for n
  proof -
    have "n = f n + 65535 * (n div 65536)" by (simp add: f_def)
    then show ?thesis by (metis mod_mult_self2)
  qed
  have less: "f n < m \<and> 0 \<le> f n" if "0 \<le> n" "n < 65536 * k" "65535 + k \<le> m" "0 < k" for n k m
  proof -
    have "n div 65536 < k" "0 \<le> n div 65536" using that by (simp_all add: div_less_iff_less_mult mult.commute pos_imp_zdiv_nonneg_iff)
    then show ?thesis using that(3) pos_mod_bound [of 65536 n] pos_mod_sign [of 65536 n] unfolding f_def by linarith
  qed
  define g where "g w = (w AND 0xFFFF) + drop_bit 16 w" for w :: u32
  have g: "uint (g w) = f (uint w)" for w by (simp only: g_def f_def add_carries_step)
  have one: "uint (g w) < 65536 * 2" using less [of "uint w" 65536 "65536 * 2"] uint_lt2p [of w] by (simp add: g)
  have two: "uint (g (g w)) < 65536 * 2 \<and> uint (g (g w)) < 65538" using less [of "uint (g w)" 2 65538] one uint_ge_0 [of "g w"] unfolding g by linarith
  have three: "uint (g (g (g w))) < 65536"
  proof (cases "uint (g (g w)) < 65536")
    case True
    then show ?thesis by (simp add: g [of "g (g w)"] f_def)
  next
    case False
    then have "uint (g (g w)) = 65536 \<or> uint (g (g w)) = 65537" using two by linarith
    then show ?thesis by (auto simp: g [of "g (g w)"] f_def)
  qed
  have step: "add_carries (Suc n) w = (if uint w < 65536 then Some w else add_carries n (g w))" for n w
    by (simp add: add_carries_step(2) g_def)
  have four: "4 = Suc (Suc (Suc (Suc 0)))" by simp
  show ?thesis
    unfolding four step using three keep by (auto simp: g)
qed

text \<open>
  C37: the checksum of a transport segment. For every segment of at most 65535 bytes the computation returns, its loop
  over the carries included, and gives the word that makes the sum of the pseudo header, the segment and the
  checksum zero in one's complement arithmetic (modulo 65535), for IPv4 and IPv6 addresses.
\<close>

theorem ip_checksum_valid:
  assumes "length payload \<le> 65535" and "0 \<le> proto" and "proto < 65536"
    and "n = (if inet then 4 else 16)" and "n \<le> length src" and "n \<le> length dest"
  shows "\<exists>r. ip_checksum inet payload src dest proto = Some r
    \<and> same_sum (word_sum True payload + word_sum True (take n src) + word_sum True (take n dest)
                 + int (length payload) + proto + uint r) 0"
proof -
  define sm where "sm = sum_words payload + sum_words (take n src) + sum_words (take n dest)
      + ucast (of_nat (length payload) :: u16) + ucast (of_int proto :: u16)"
  define total where "total = word_sum True payload + word_sum True (take n src) + word_sum True (take n dest)
      + int (length payload) + proto"
  have n: "n \<le> 16" using assms(4) by simp
  have parts: "uint (sum_words payload) = word_sum True payload" "uint (sum_words (take n src)) = word_sum True (take n src)"
      "uint (sum_words (take n dest)) = word_sum True (take n dest)"
      "uint (ucast (of_nat (length payload) :: u16) :: u32) = int (length payload)" "uint (ucast (of_int proto :: u16) :: u32) = proto"
    using assms n by (simp_all add: uint_sum_words unsigned_ucast_eq unsigned_of_nat unsigned_of_int take_bit_int_eq_self take_bit_nat_eq_self)
  have "(int (length payload) + 1) div 2 \<le> 32768" "(int (length (take n src)) + 1) div 2 \<le> 8" "(int (length (take n dest)) + 1) div 2 \<le> 8"
    using assms n by auto
  then have "0 \<le> total" "total < 2 ^ 32"
    using word_sum_bound [of True payload] word_sum_bound [of True "take n src"] word_sum_bound [of True "take n dest"] assms(1-3)
    unfolding total_def by auto
  then have sm: "uint sm = total"
    using parts word_sum_bound [of True payload] word_sum_bound [of True "take n src"] word_sum_bound [of True "take n dest"] assms(2)
    unfolding sm_def total_def by (auto simp: uint_plus_if')
  obtain r where r: "add_carries 4 sm = Some r" "uint r < 65536" "uint r mod 65535 = uint sm mod 65535" using add_carries_ok by blast
  have "uint (ucast r :: u16) = uint r" using r(2) by (simp add: unsigned_ucast_eq take_bit_int_eq_self)
  then have u: "uint (NOT (ucast r :: u16)) = 65535 - uint r" by (simp add: uint_not_u16)
  have "ip_checksum inet payload src dest proto = Some (NOT (ucast r))"
    using assms(4-6) r(1) by (cases inet) (simp_all add: ip_checksum_def Let_def sm_def)
  moreover have "(total + (65535 - uint r)) mod 65535 = 0"
  proof -
    have "65535 dvd total - uint r" using r(3) sm by (simp add: mod_eq_dvd_iff [symmetric])
    then have "65535 dvd (total - uint r) + 65535" by (intro dvd_add) simp_all
    moreover have "(total - uint r) + 65535 = total + (65535 - uint r)" by simp
    ultimately show ?thesis by (simp only: dvd_eq_mod_eq_0)
  qed
  ultimately show ?thesis unfolding same_sum_def total_def [symmetric] by (simp add: u)
qed

theorem ip_checksum_valid_witness:
  "ip_checksum True [8, 0, 0, 0, 0, 1] [10, 0, 0, 1] [10, 0, 0, 2] 17 = Some (NOT 0x1c1b)
    \<and> same_sum (word_sum True [8, 0, 0, 0, 0, 1] + word_sum True [10, 0, 0, 1] + word_sum True [10, 0, 0, 2] + 6 + 17 + uint (NOT 0x1c1b :: u16)) 0"
proof -
  have "ip_checksum True [8, 0, 0, 0, 0, 1] [10, 0, 0, 1] [10, 0, 0, 2] 17 = Some (NOT 0x1c1b)" by code_simp
  then show ?thesis using ip_checksum_valid [of "[8, 0, 0, 0, 0, 1]" 17 4 True "[10, 0, 0, 1]" "[10, 0, 0, 2]"] by simp
qed

end
