(* ===== verification/Mss.thy ===== *)
theory Mss
  imports Ip_Packet
begin

text \<open>
  Lowering the MSS option of TCP SYN packets: the packet functions of \<^verbatim>\<open>mss.c\<close>. A copy of the \<^verbatim>\<open>struct buffer\<close> shares the
  bytes of the packet, so the functions return the buffer they were given with the changed bytes. The results: no packet
  makes the code leave its bytes, and exactly the MSS values that the walk over the options
  meets are lowered; the TCP checksum stays right when these options start at an even offset, and
  a packet with an option at an odd offset shows that it goes wrong there.
\<close>

subsection \<open>The functions\<close>

definition OPENVPN_TCPOPT_EOL :: u8 where "OPENVPN_TCPOPT_EOL = 0"
definition OPENVPN_TCPOPT_NOP :: u8 where "OPENVPN_TCPOPT_NOP = 1"
definition OPENVPN_TCPOPT_MAXSEG :: u8 where "OPENVPN_TCPOPT_MAXSEG = 2"
definition OPENVPN_TCPOLEN_MAXSEG :: nat where "OPENVPN_TCPOLEN_MAXSEG = 4"
definition OPENVPN_TCPH_SYN_MASK :: u8 where "OPENVPN_TCPH_SYN_MASK = 2"
definition OPENVPN_IP_OFFMASK :: u16 where "OPENVPN_IP_OFFMASK = 0x1fff"

lemmas mss_consts = OPENVPN_TCPOPT_EOL_def OPENVPN_TCPOPT_NOP_def OPENVPN_TCPOPT_MAXSEG_def
  OPENVPN_TCPOLEN_MAXSEG_def OPENVPN_TCPH_SYN_MASK_def OPENVPN_IP_OFFMASK_def

text \<open>The MSS option at offset \<open>opt\<close> of the TCP header; the checksum is at offset 16.\<close>

definition mss_option :: "bool \<Rightarrow> u16 \<Rightarrow> buffer \<Rightarrow> nat \<Rightarrow> buffer option" where
  "mss_option big maxmss b opt = do {
     v \<leftarrow> field b (opt + 2) 2;
     let mssval = be_u16 v;
     if mssval > maxmss
     then do {
       b1 \<leftarrow> set_field b (opt + 2) (u16_be maxmss);
       let accumulate = uint (htons big mssval) - uint (htons big maxmss);
       ck \<leftarrow> field b1 16 2;
       set_field b1 16 (host big (u16_be (ADJUST_CHECKSUM accumulate (host16 big ck)))) }
     else Some b }"

function mss_option_loop :: "bool \<Rightarrow> u16 \<Rightarrow> buffer \<Rightarrow> nat \<Rightarrow> nat \<Rightarrow> buffer option" where
  "mss_option_loop big maxmss b olen opt =
     (if olen > 1
      then do {
        kind \<leftarrow> field_u8 b opt;
        if kind = OPENVPN_TCPOPT_EOL then Some b
        else if kind = OPENVPN_TCPOPT_NOP then mss_option_loop big maxmss b (olen - 1) (opt + 1)
        else do {
          l \<leftarrow> field_u8 b (opt + 1);
          let optlen = unat l;
          if optlen \<le> 0 \<or> optlen > olen then Some b
          else if kind = OPENVPN_TCPOPT_MAXSEG \<and> optlen = OPENVPN_TCPOLEN_MAXSEG
          then do { b1 \<leftarrow> mss_option big maxmss b opt;
                    mss_option_loop big maxmss b1 (olen - optlen) (opt + optlen) }
          else mss_option_loop big maxmss b (olen - optlen) (opt + optlen) } }
      else Some b)"
  by pat_completeness auto
termination
  by (relation "measure (\<lambda>(big, maxmss, b, olen, opt). olen)") (auto simp: mss_consts)

declare mss_option_loop.simps [simp del]

definition mss_fixup_dowork :: "bool \<Rightarrow> buffer \<Rightarrow> u16 \<Rightarrow> buffer option" where
  "mss_fixup_dowork big buf maxmss =
     (if buf_len buf < int sizeof_tcphdr then Some buf
      else do {
        doff \<leftarrow> field_u8 buf 12;
        let hlen = OPENVPN_TCPH_GET_DOFF doff;
        if hlen \<le> int sizeof_tcphdr \<or> hlen > b_len buf then Some buf
        else mss_option_loop big maxmss buf (nat hlen - sizeof_tcphdr) sizeof_tcphdr })"

text \<open>The copy of the buffer that starts at the TCP header works on the same block.\<close>

definition mss_fixup_syn :: "bool \<Rightarrow> buffer \<Rightarrow> buffer \<Rightarrow> u16 \<Rightarrow> buffer option" where
  "mss_fixup_syn big buf newbuf maxmss = do {
     fl \<leftarrow> field_u8 newbuf 13;
     if fl AND OPENVPN_TCPH_SYN_MASK \<noteq> 0
     then do { nb \<leftarrow> mss_fixup_dowork big newbuf maxmss; Some (buf\<lparr>b_data := b_data nb\<rparr>) }
     else Some buf }"

definition mss_fixup_ipv4 :: "bool \<Rightarrow> buffer \<Rightarrow> u16 \<Rightarrow> buffer option" where
  "mss_fixup_ipv4 big buf maxmss =
     (if buf_len buf < int sizeof_iphdr then Some buf
      else do {
        vl \<leftarrow> field_u8 buf 0;
        let hlen = OPENVPN_IPH_GET_LEN vl;
        proto \<leftarrow> field_u8 buf 9;
        tot_len \<leftarrow> field buf 2 2;
        frag_off \<leftarrow> field buf 6 2;
        if proto = OPENVPN_IPPROTO_TCP \<and> uint (be_u16 tot_len) = b_len buf
           \<and> be_u16 frag_off AND OPENVPN_IP_OFFMASK = 0 \<and> hlen \<le> b_len buf
           \<and> b_len buf - hlen \<ge> int sizeof_tcphdr
        then (case buf_advance buf hlen of
                (True, newbuf) \<Rightarrow> mss_fixup_syn big buf newbuf maxmss
              | (False, _) \<Rightarrow> Some buf)
        else Some buf })"

definition mss_fixup_ipv6 :: "bool \<Rightarrow> buffer \<Rightarrow> u16 \<Rightarrow> buffer option" where
  "mss_fixup_ipv6 big buf maxmss =
     (if buf_len buf < int sizeof_ipv6hdr then Some buf
      else do {
        payload_len \<leftarrow> field buf 4 2;
        if b_len buf \<noteq> uint (be_u16 payload_len) + 40 then Some buf
        else do {
          nexthdr \<leftarrow> field_u8 buf 6;
          if nexthdr \<noteq> OPENVPN_IPPROTO_TCP then Some buf
          else (case buf_advance buf 40 of
                  (True, newbuf) \<Rightarrow>
                    if buf_len newbuf \<ge> int sizeof_tcphdr then mss_fixup_syn big buf newbuf (maxmss - 20) else Some buf
                | (False, _) \<Rightarrow> Some buf) } })"

subsection \<open>The options of a segment\<close>

text \<open>The offsets of the MSS options that the walk meets, for the bytes of the segment.\<close>

function mss_walk :: "u8 list \<Rightarrow> nat \<Rightarrow> nat \<Rightarrow> nat list" where
  "mss_walk c olen opt =
     (if olen > 1
      then if c ! opt = 0 then []
        else if c ! opt = 1 then mss_walk c (olen - 1) (opt + 1)
        else let l = unat (c ! (opt + 1))
             in if l = 0 \<or> l > olen then []
                else (if c ! opt = 2 \<and> l = 4 then [opt] else []) @ mss_walk c (olen - l) (opt + l)
      else [])"
  by pat_completeness auto
termination
  by (relation "measure (\<lambda>(c, olen, opt). olen)") auto

declare mss_walk.simps [simp del]

definition mss_at :: "u8 list \<Rightarrow> nat \<Rightarrow> u16" where
  "mss_at c i = be_u16 [c ! (i + 2), c ! (i + 3)]"

lemma mss_walk_range: "o1 \<in> set (mss_walk c olen opt) \<Longrightarrow> opt \<le> o1 \<and> o1 + 4 \<le> opt + olen"
proof (induction c olen opt rule: mss_walk.induct)
  case (1 c olen opt)
  from 1(3) show ?case
    unfolding mss_walk.simps [of c olen opt] using 1(1,2) by (fastforce simp: Let_def split: if_splits)
qed

lemma mss_walk_cong:
  assumes "\<And>i. opt \<le> i \<Longrightarrow> i < opt + olen \<Longrightarrow> c ! i = d ! i"
  shows "mss_walk c olen opt = mss_walk d olen opt"
  using assms
proof (induction c olen opt rule: mss_walk.induct)
  case (1 c olen opt)
  show ?case
    unfolding mss_walk.simps [of c olen opt] mss_walk.simps [of d olen opt] using 1 by (auto simp: Let_def)
qed

subsection \<open>One option\<close>

lemma htons_be: "uint (htons big w) = uint (host16 big (u16_be w))"
  by (simp add: htons_def)

lemma be_u16_list2: "be_u16 [a, b] = w \<longleftrightarrow> [a, b] = u16_be w"
proof
  assume "be_u16 [a, b] = w"
  then have "u16_be w = u16_be (be_u16 [a, b])" by simp
  also have "\<dots> = [a, b]" by (rule u16_be_be_u16) simp
  finally show "[a, b] = u16_be w" by simp
qed simp

text \<open>The bytes after a step of the loop: the value of the option and the checksum.\<close>

definition clamp_option :: "bool \<Rightarrow> u16 \<Rightarrow> u8 list \<Rightarrow> nat \<Rightarrow> u8 list" where
  "clamp_option big maxmss c opt =
     (if mss_at c opt > maxmss
      then overwrite (overwrite c (opt + 2) (u16_be maxmss)) 16
        (host big (u16_be (ADJUST_CHECKSUM (uint (htons big (mss_at c opt)) - uint (htons big maxmss)) (host16 big [c ! 16, c ! 17]))))
      else c)"

lemma mss_option_eq:
  assumes "buf_wf b" and "buf_content b = c" and "20 \<le> opt" and "opt + 4 \<le> length c"
  shows "mss_option big maxmss b opt = Some (poked b 0 (clamp_option big maxmss c opt))"
proof -
  have v: "field b (opt + 2) 2 = Some [c ! (opt + 2), c ! (opt + 3)]"
    using field_content [OF assms(1), of "opt + 2" 2] assms take_2_drop [of "opt + 2" c] by (simp add: numeral_3_eq_3)
  show ?thesis
  proof (cases "mss_at c opt > maxmss")
    case False
    then show ?thesis using v poked_self [OF assms(1)] assms(2) by (simp add: mss_option_def clamp_option_def mss_at_def)
  next
    case True
    define c1 where "c1 = overwrite c (opt + 2) (u16_be maxmss)"
    have l1: "length c1 = length c" using assms by (auto simp: c1_def)
    then have c: "c1 \<noteq> []" using assms by auto
    have b1: "set_field b (opt + 2) (u16_be maxmss) = Some (poked b 0 c1)"
      using set_field_content(1) [OF assms(1), of "opt + 2" "u16_be maxmss"] assms poked_poked [of b c "opt + 2" "u16_be maxmss"]
        poked_self [OF assms(1)] by (auto simp: c1_def)
    have wf1: "buf_wf (poked b 0 c1)" "buf_content (poked b 0 c1) = c1"
      using poked_content [OF assms(1), of c1] l1 assms c by auto
    have ck: "field (poked b 0 c1) 16 2 = Some [c ! 16, c ! 17]"
      using field_content [OF wf1(1), of 16 2] wf1(2) l1 assms take_2_drop [of 16 c1] by (simp add: c1_def nth_overwrite)
    have b2: "set_field (poked b 0 c1) 16 ys = Some (poked b 0 (overwrite c1 16 ys))" if "length ys = 2" for ys
      using set_field_content(1) [OF wf1(1), of 16 ys] wf1 l1 assms that poked_poked [OF assms(1), of c1 16 ys] by (cases ys) auto
    show ?thesis
      using True v b1 ck b2
      by (simp add: mss_option_def clamp_option_def mss_at_def c1_def Let_def del: bind_Some_iff)
  qed
qed

lemma length_clamp_option [simp]: "20 \<le> opt \<Longrightarrow> opt + 4 \<le> length c \<Longrightarrow> length (clamp_option big maxmss c opt) = length c"
  by (simp add: clamp_option_def host_def)

lemma clamp_option_nth:
  assumes "20 \<le> opt" and "opt + 4 \<le> length c" and "i < length c" and "i \<notin> {16, 17, opt + 2, opt + 3}"
  shows "clamp_option big maxmss c opt ! i = c ! i"
  using assms by (auto simp: clamp_option_def host_def nth_overwrite)

lemma clamp_option_mss:
  assumes "20 \<le> opt" and "opt + 4 \<le> length c"
  shows "mss_at (clamp_option big maxmss c opt) opt = min (mss_at c opt) maxmss"
proof (cases "mss_at c opt > maxmss")
  case True
  have "[u16_be maxmss ! 0, u16_be maxmss ! 1] = u16_be maxmss" by (intro nth_equalityI) (auto simp: less_Suc_eq nth_Cons')
  with True assms show ?thesis
    by (auto simp: mss_at_def clamp_option_def host_def nth_overwrite min_def be_u16_list2 not_le)
qed (auto simp: clamp_option_def min_def not_less)

text \<open>The checksum takes up the difference of the two values, read in the byte order of the host.\<close>

lemma clamp_option_change:
  assumes "20 \<le> opt" and "opt + 4 \<le> length c" and "mss_at c opt > maxmss"
  shows "same_sum (word_sum big (clamp_option big maxmss c opt))
    (word_sum big (overwrite c (opt + 2) (u16_be maxmss)) + (uint (htons big (mss_at c opt)) - uint (htons big maxmss)))"
proof -
  define old new ck where "old = uint (htons big (mss_at c opt))" and "new = uint (htons big maxmss)"
    and "ck = host16 big [c ! 16, c ! 17]"
  define ck' where "ck' = ADJUST_CHECKSUM (old - new) ck"
  define c1 where "c1 = overwrite c (opt + 2) (u16_be maxmss)"
  obtain x y where xy: "host big (u16_be ck') = [x, y]" using u16_be_2 [of ck'] by (cases big) (auto simp: host_def)
  have "take 2 (drop 16 c1) = [c ! 16, c ! 17]" using take_2_drop [of 16 c1] assms by (simp add: c1_def nth_overwrite)
  then have "word_sum big (overwrite c1 16 [x, y]) = word_sum big c1 - uint ck + uint (host16 big [x, y])"
    using word_sum_overwrite [of 16 c1 big x y] assms by (simp add: c1_def ck_def)
  moreover have "host16 big [x, y] = ck'" using host16_host [of "u16_be ck'" big] xy by simp
  moreover have "clamp_option big maxmss c opt = overwrite c1 16 [x, y]"
    using assms(3) xy by (simp add: clamp_option_def c1_def ck'_def old_def new_def ck_def)
  ultimately have sum: "word_sum big (clamp_option big maxmss c opt) = (word_sum big c1 + (old - new)) + (uint ck' - (old - new + uint ck))"
    by simp
  have "0 \<le> old" "old < 65536" "0 \<le> new" "new < 65536"
    using uint_lt2p [of "htons big (mss_at c opt)"] uint_lt2p [of "htons big maxmss"] by (simp_all add: old_def new_def)
  then have "\<bar>old - new\<bar> < 65536" by linarith
  then have "\<bar>old - new\<bar> < 2 ^ 30" by simp
  then have "(uint ck' - (old - new + uint ck)) mod 65535 = 0"
    using ADJUST_CHECKSUM_mod [of "old - new" ck] by (simp add: same_sum_def ck'_def mod_eq_dvd_iff dvd_eq_mod_eq_0 [symmetric])
  then have "same_sum (word_sum big (clamp_option big maxmss c opt)) (word_sum big c1 + (old - new))"
    unfolding sum same_sum_def by (metis add.right_neutral mod_add_right_eq)
  then show ?thesis by (simp only: c1_def old_def new_def)
qed

lemma clamp_option_sum:
  assumes "20 \<le> opt" and "opt + 4 \<le> length c" and "even opt"
  shows "same_sum (word_sum big (clamp_option big maxmss c opt)) (word_sum big c)"
proof (cases "mss_at c opt > maxmss")
  case True
  obtain x y where xy: "u16_be maxmss = [x, y]" using u16_be_2 by blast
  have "take 2 (drop (opt + 2) c) = u16_be (mss_at c opt)"
    using take_2_drop [of "opt + 2" c] assms by (simp add: mss_at_def u16_be_be_u16 numeral_3_eq_3)
  then have "word_sum big (overwrite c (opt + 2) (u16_be maxmss)) = word_sum big c - uint (htons big (mss_at c opt)) + uint (htons big maxmss)"
    using word_sum_overwrite [of "opt + 2" c big x y] assms xy by (simp add: htons_be)
  then show ?thesis using clamp_option_change [OF assms(1,2) True, of big] by simp
qed (simp add: clamp_option_def same_sum_def)

subsection \<open>All options of a segment\<close>

text \<open>What the walk over the options makes of the bytes \<open>c\<close>.\<close>

definition clamped :: "bool \<Rightarrow> u16 \<Rightarrow> nat list \<Rightarrow> u8 list \<Rightarrow> u8 list \<Rightarrow> bool" where
  "clamped big maxmss opts c d \<longleftrightarrow> length d = length c
     \<and> (\<forall>i < length c. i \<notin> {16, 17} \<and> (\<forall>o1\<in>set opts. i \<notin> {o1 + 2, o1 + 3}) \<longrightarrow> d ! i = c ! i)
     \<and> (\<forall>o1\<in>set opts. mss_at d o1 = min (mss_at c o1) maxmss)
     \<and> ((\<forall>o1\<in>set opts. even o1) \<longrightarrow> same_sum (word_sum big d) (word_sum big c))"

lemma clamped_Nil [simp]: "clamped big maxmss [] c c"
  by (simp add: clamped_def same_sum_def)

lemma clamped_Cons:
  assumes "20 \<le> opt" and "opt + 4 \<le> length c" and "clamped big maxmss opts (clamp_option big maxmss c opt) d"
    and "\<forall>o1\<in>set opts. opt + 4 \<le> o1 \<and> o1 + 4 \<le> length c"
  shows "clamped big maxmss (opt # opts) c d"
proof -
  define e where "e = clamp_option big maxmss c opt"
  have len: "length e = length c" using assms by (simp add: e_def)
  have e: "e ! i = c ! i" if "i < length c" "i \<notin> {16, 17, opt + 2, opt + 3}" for i
    using clamp_option_nth [OF assms(1,2) that] by (simp add: e_def)
  have d: "length d = length e" "\<And>i. i < length e \<Longrightarrow> i \<notin> {16, 17} \<Longrightarrow> \<forall>o1\<in>set opts. i \<notin> {o1 + 2, o1 + 3} \<Longrightarrow> d ! i = e ! i"
    "\<And>o1. o1 \<in> set opts \<Longrightarrow> mss_at d o1 = min (mss_at e o1) maxmss"
    "\<forall>o1\<in>set opts. even o1 \<Longrightarrow> same_sum (word_sum big d) (word_sum big e)"
    using assms(3) by (auto simp: clamped_def e_def)
  have "mss_at e o1 = mss_at c o1" if "o1 \<in> set opts" for o1
    using e [of "o1 + 2"] e [of "o1 + 3"] assms(1,4) that by (fastforce simp: mss_at_def)
  moreover have "mss_at d opt = mss_at e opt"
    using d(2) [of "opt + 2"] d(2) [of "opt + 3"] assms(1,2,4) len by (fastforce simp: mss_at_def)
  moreover have "mss_at e opt = min (mss_at c opt) maxmss" using clamp_option_mss [OF assms(1,2)] by (simp add: e_def)
  moreover have "same_sum (word_sum big e) (word_sum big c)" if "even opt"
    using clamp_option_sum [OF assms(1,2) that] by (simp add: e_def)
  ultimately show ?thesis using d e len by (auto simp: clamped_def same_sum_def)
qed

lemma mss_option_loop_ok:
  assumes "buf_wf b" and "20 \<le> opt" and "opt + olen \<le> length (buf_content b)"
  shows "\<exists>d. mss_option_loop big maxmss b olen opt = Some (poked b 0 d)
    \<and> clamped big maxmss (mss_walk (buf_content b) olen opt) (buf_content b) d"
  using assms
proof (induction big maxmss b olen opt rule: mss_option_loop.induct)
  case (1 big maxmss b olen opt)
  define c where "c = buf_content b"
  note loop = mss_option_loop.simps [of big maxmss b olen opt] and walk = mss_walk.simps [of c olen opt]
  have here: "Some b = Some (poked b 0 c)" using poked_self [OF 1(4)] by (simp add: c_def)
  show ?case
  proof (cases "olen > 1")
    case False
    then show ?thesis unfolding loop walk [unfolded c_def] using here by (auto simp: c_def)
  next
    case True
    have kind: "field_u8 b opt = Some (c ! opt)" and ln: "field_u8 b (opt + 1) = Some (c ! (opt + 1))"
      using field_u8_content [OF 1(4)] True 1(6) by (auto simp: c_def)
    consider "c ! opt = 0" | "c ! opt = 1"
      | "c ! opt \<noteq> 0" "c ! opt \<noteq> 1" "unat (c ! (opt + 1)) = 0 \<or> unat (c ! (opt + 1)) > olen"
      | "c ! opt \<noteq> 0" "c ! opt \<noteq> 1" "0 < unat (c ! (opt + 1))" "unat (c ! (opt + 1)) \<le> olen" "\<not> (c ! opt = 2 \<and> unat (c ! (opt + 1)) = 4)"
      | "c ! opt = 2" "unat (c ! (opt + 1)) = 4" "4 \<le> olen"
      by fastforce
    then show ?thesis
    proof cases
      case 5
      define e where "e = clamp_option big maxmss c opt"
      have opt: "mss_option big maxmss b opt = Some (poked b 0 e)"
        using mss_option_eq [OF 1(4) c_def [symmetric] 1(5)] 5 1(6) by (simp add: e_def c_def)
      have len: "length e = length c" "e \<noteq> []" using 1(5,6) 5(3) by (auto simp: e_def c_def simp flip: length_greater_0_conv)
      have p: "buf_wf (poked b 0 e)" "buf_content (poked b 0 e) = e" using poked_content [OF 1(4)] len by (auto simp: c_def)
      obtain d where d: "mss_option_loop big maxmss (poked b 0 e) (olen - 4) (opt + 4) = Some (poked (poked b 0 e) 0 d)"
          "clamped big maxmss (mss_walk e (olen - 4) (opt + 4)) e d"
        using 1(2) [OF True kind _ _ ln refl _ _ opt] 5 p 1(5,6) len by (auto simp: c_def mss_consts)
      have w: "mss_walk e (olen - 4) (opt + 4) = mss_walk c (olen - 4) (opt + 4)"
        using 1(5,6) 5(3) by (intro mss_walk_cong) (auto simp: e_def c_def intro!: clamp_option_nth)
      have "poked (poked b 0 e) 0 d = poked b 0 d"
        using poked_poked [OF 1(4), of e 0 d] len d(2) by (simp add: c_def clamped_def overwrite_def)
      moreover have "mss_walk c olen opt = opt # mss_walk c (olen - 4) (opt + 4)" unfolding walk using 5 True by (simp add: Let_def)
      moreover have "clamped big maxmss (opt # mss_walk c (olen - 4) (opt + 4)) c d"
      proof (rule clamped_Cons [OF 1(5)])
        show "opt + 4 \<le> length c" using 1(6) 5(3) by (simp add: c_def)
        show "clamped big maxmss (mss_walk c (olen - 4) (opt + 4)) (clamp_option big maxmss c opt) d"
          using d(2) unfolding w unfolding e_def .
        show "\<forall>o1\<in>set (mss_walk c (olen - 4) (opt + 4)). opt + 4 \<le> o1 \<and> o1 + 4 \<le> length c"
          using mss_walk_range [of _ c "olen - 4" "opt + 4"] 1(6) 5(3) by (fastforce simp: c_def)
      qed
      moreover have "mss_option_loop big maxmss b olen opt = mss_option_loop big maxmss (poked b 0 e) (olen - 4) (opt + 4)"
        unfolding loop using True kind ln opt 5 by (simp add: mss_consts)
      ultimately show ?thesis using d by (auto simp: c_def)
    next
      case 4
      have "mss_option_loop big maxmss b olen opt = mss_option_loop big maxmss b (olen - unat (c ! (opt + 1))) (opt + unat (c ! (opt + 1)))"
        unfolding loop using True kind ln 4 by (auto simp: mss_consts Let_def)
      moreover have "mss_walk c olen opt = mss_walk c (olen - unat (c ! (opt + 1))) (opt + unat (c ! (opt + 1)))"
        unfolding walk using 4 True by (simp add: Let_def)
      ultimately show ?thesis
        using 1(3) [OF True kind _ _ ln refl] 4 1(4,5,6) by (auto simp: c_def mss_consts)
    next
      case 2
      then show ?thesis
        unfolding loop walk [unfolded c_def] using 1(1) [OF True kind] 1(4,5,6) True kind by (auto simp: c_def mss_consts)
    qed (unfold loop walk [unfolded c_def], use here True kind ln in \<open>auto simp: c_def mss_consts Let_def\<close>)
  qed
qed

subsection \<open>SYN packets\<close>

text \<open>The MSS options of a segment, and the segment of an IP packet that is a whole TCP SYN.\<close>

definition mss_options :: "u8 list \<Rightarrow> nat list" where
  "mss_options seg =
     (let hlen = nat (OPENVPN_TCPH_GET_DOFF (seg ! 12))
      in if 20 < hlen \<and> hlen \<le> length seg then mss_walk seg (hlen - 20) 20 else [])"

definition is_syn :: "u8 list \<Rightarrow> bool" where
  "is_syn seg \<longleftrightarrow> 20 \<le> length seg \<and> seg ! 13 AND 2 \<noteq> 0"

definition ipv4_syn :: "u8 list \<Rightarrow> nat option" where
  "ipv4_syn c =
     (let hlen = nat (OPENVPN_IPH_GET_LEN (c ! 0))
      in if 20 \<le> length c \<and> c ! 9 = 6 \<and> uint (be_u16 [c ! 2, c ! 3]) = int (length c)
            \<and> be_u16 [c ! 6, c ! 7] AND 0x1fff = 0 \<and> is_syn (drop hlen c) then Some hlen else None)"

definition ipv6_syn :: "u8 list \<Rightarrow> nat option" where
  "ipv6_syn c =
     (if 40 \<le> length c \<and> int (length c) = uint (be_u16 [c ! 4, c ! 5]) + 40 \<and> c ! 6 = 6 \<and> is_syn (drop 40 c)
      then Some 40 else None)"

lemma GET_DOFF_nonneg: "0 \<le> OPENVPN_TCPH_GET_DOFF v" and GET_LEN_nonneg: "0 \<le> OPENVPN_IPH_GET_LEN v"
  by (simp_all add: OPENVPN_TCPH_GET_DOFF_def OPENVPN_IPH_GET_LEN_def)

lemma mss_fixup_dowork_ok:
  assumes "buf_wf b" and "b_data b \<noteq> None" and "20 \<le> length (buf_content b)"
  shows "\<exists>d. mss_fixup_dowork big b maxmss = Some (poked b 0 d)
    \<and> clamped big maxmss (mss_options (buf_content b)) (buf_content b) d"
proof -
  define c where "c = buf_content b"
  have len: "int (length c) = b_len b" using length_buf_content [OF assms(1)] by (simp add: c_def)
  have doff: "field_u8 b 12 = Some (c ! 12)" using field_u8_content [OF assms(1)] assms(3) by (simp add: c_def)
  have self: "Some b = Some (poked b 0 c)" using poked_self [OF assms(1)] by (simp add: c_def)
  define h where "h = OPENVPN_TCPH_GET_DOFF (c ! 12)"
  have h: "0 \<le> h" by (simp add: h_def GET_DOFF_nonneg)
  have go: "mss_fixup_dowork big b maxmss =
      (if h \<le> 20 \<or> h > b_len b then Some b else mss_option_loop big maxmss b (nat h - 20) 20)"
    using doff assms len by (simp add: mss_fixup_dowork_def h_def proto_consts c_def)
  show ?thesis
  proof (cases "h \<le> 20 \<or> h > b_len b")
    case True
    then have "mss_options c = []" using len by (auto simp: mss_options_def h_def [symmetric] Let_def)
    with True go self show ?thesis by (auto simp: c_def)
  next
    case False
    then have "mss_options c = mss_walk c (nat h - 20) 20" using len by (auto simp: mss_options_def h_def [symmetric] Let_def)
    moreover have "20 + (nat h - 20) \<le> length c" using False len by linarith
    ultimately show ?thesis using False go mss_option_loop_ok [OF assms(1), of 20 "nat h - 20" big maxmss] by (simp add: c_def)
  qed
qed

text \<open>The bytes of the whole packet: the segment at \<open>h\<close> clamped, the rest unchanged.\<close>

definition packet_clamped :: "bool \<Rightarrow> u16 \<Rightarrow> nat option \<Rightarrow> u8 list \<Rightarrow> u8 list \<Rightarrow> bool" where
  "packet_clamped big maxmss syn c d \<longleftrightarrow>
     (case syn of None \<Rightarrow> d = c
      | Some h \<Rightarrow> take h d = take h c \<and> clamped big maxmss (mss_options (drop h c)) (drop h c) (drop h d))"

lemma mss_fixup_syn_ok:
  assumes "buf_wf b" and "h + 20 \<le> length (buf_content b)"
  shows "\<exists>b'. mss_fixup_syn big b (buf_consumed b h) maxmss = Some b' \<and> buf_wf b' \<and> b_len b' = b_len b \<and> b_offset b' = b_offset b
    \<and> packet_clamped big maxmss (if is_syn (drop h (buf_content b)) then Some h else None) (buf_content b) (buf_content b')"
proof -
  define c where "c = buf_content b"
  have len: "int (length c) = b_len b" using length_buf_content [OF assms(1)] by (simp add: c_def)
  have dat: "b_data b \<noteq> None" using buf_data_pos [OF assms(1)] assms(2) len by (simp add: c_def)
  have "int h \<le> b_len b" using len assms(2) unfolding c_def by linarith
  then have nb: "buf_wf (buf_consumed b h)" "buf_content (buf_consumed b h) = drop h c" "b_data (buf_consumed b h) \<noteq> None"
    using assms len dat by (auto simp: c_def)
  have fl: "field_u8 (buf_consumed b h) 13 = Some (c ! (h + 13))"
    using field_u8_content [OF nb(1), of 13] nb(2) assms(2) by (simp add: c_def)
  have syn: "is_syn (drop h c) \<longleftrightarrow> c ! (h + 13) AND 2 \<noteq> 0" using assms(2) by (auto simp: is_syn_def c_def)
  obtain d where d: "mss_fixup_dowork big (buf_consumed b h) maxmss = Some (poked (buf_consumed b h) 0 d)"
      "clamped big maxmss (mss_options (drop h c)) (drop h c) d"
    using mss_fixup_dowork_ok [OF nb(1,3), of big maxmss] nb(2) assms(2) by (auto simp: c_def le_diff_conv2)
  have ld: "length d = length c - h" "d \<noteq> []" using d(2) assms(2) by (auto simp: clamped_def c_def)
  have "b\<lparr>b_data := b_data (poked (buf_consumed b h) 0 d)\<rparr> = poked b h d"
    using buf_wf_fields [OF assms(1)] by (simp add: poked_def buf_consumed_def nat_add_distrib)
  moreover have "buf_wf (poked b h d)" "buf_content (poked b h d) = take h c @ d"
    using set_field_content [OF assms(1), of h d] ld assms(2) by (auto simp: c_def overwrite_def)
  moreover have "take h (take h c @ d) = take h c" "drop h (take h c @ d) = d" using assms(2) by (auto simp: c_def)
  ultimately show ?thesis
    using fl syn d assms(1)
    by (cases "is_syn (drop h c)") (auto simp: mss_fixup_syn_def mss_consts packet_clamped_def c_def [symmetric])
qed

lemma mss_fixup_ipv4_ok:
  assumes "buf_wf b"
  shows "\<exists>b'. mss_fixup_ipv4 big b maxmss = Some b' \<and> buf_wf b' \<and> b_len b' = b_len b \<and> b_offset b' = b_offset b
    \<and> packet_clamped big maxmss (ipv4_syn (buf_content b)) (buf_content b) (buf_content b')"
proof (cases "b_len b < 20")
  case True
  then have "length (buf_content b) < 20" using length_buf_content [OF assms] by linarith
  then show ?thesis using True assms by (auto simp: mss_fixup_ipv4_def proto_consts packet_clamped_def ipv4_syn_def Let_def)
next
  case False
  define c where "c = buf_content b"
  have len: "int (length c) = b_len b" "20 \<le> length c" using length_buf_content [OF assms] False by (auto simp: c_def)
  have dat: "b_data b \<noteq> None" using False buf_data_pos [OF assms] by simp
  define h where "h = OPENVPN_IPH_GET_LEN (c ! 0)"
  have h: "0 \<le> h" by (simp add: h_def GET_LEN_nonneg)
  have f: "field_u8 b 0 = Some (c ! 0)" "field_u8 b 9 = Some (c ! 9)" "field b 2 2 = Some [c ! 2, c ! 3]" "field b 6 2 = Some [c ! 6, c ! 7]"
    using field_u8_content [OF assms, of 0] field_u8_content [OF assms, of 9] field_content [OF assms, of _ 2] len
      take_2_drop [of 2 c] take_2_drop [of 6 c] order.strict_trans2 [of 0 20 "length c"] by (auto simp: c_def)
  have adv: "buf_advance b h = (True, buf_consumed b (nat h))" if "h \<le> b_len b" using that h assms dat by (simp add: buf_advance_eq)
  have go: "mss_fixup_ipv4 big b maxmss =
      (if c ! 9 = 6 \<and> uint (be_u16 [c ! 2, c ! 3]) = b_len b \<and> be_u16 [c ! 6, c ! 7] AND 0x1fff = 0 \<and> h \<le> b_len b
          \<and> b_len b - h \<ge> 20 then mss_fixup_syn big b (buf_consumed b (nat h)) maxmss else Some b)"
    using f adv assms False by (simp add: mss_fixup_ipv4_def proto_consts mss_consts h_def [symmetric] Let_def)
  show ?thesis
  proof (cases "c ! 9 = 6 \<and> uint (be_u16 [c ! 2, c ! 3]) = b_len b \<and> be_u16 [c ! 6, c ! 7] AND 0x1fff = 0 \<and> h \<le> b_len b
          \<and> b_len b - h \<ge> 20")
    case True
    then have "nat h + 20 \<le> length c" using len h by linarith
    moreover have "ipv4_syn c = (if is_syn (drop (nat h) c) then Some (nat h) else None)"
      using True len by (simp add: ipv4_syn_def h_def [symmetric] Let_def)
    ultimately show ?thesis using mss_fixup_syn_ok [OF assms, of "nat h" big maxmss] True go by (simp add: c_def)
  next
    case no: False
    have "\<not> is_syn (drop (nat h) c)" if "\<not> (h \<le> b_len b \<and> b_len b - h \<ge> 20)"
      using that len h by (auto simp: is_syn_def)
    then have "ipv4_syn c = None" using no len by (auto simp: ipv4_syn_def h_def [symmetric] Let_def)
    then show ?thesis using no go assms by (auto simp: packet_clamped_def c_def)
  qed
qed

lemma mss_fixup_ipv6_ok:
  assumes "buf_wf b"
  shows "\<exists>b'. mss_fixup_ipv6 big b maxmss = Some b' \<and> buf_wf b' \<and> b_len b' = b_len b \<and> b_offset b' = b_offset b
    \<and> packet_clamped big (maxmss - 20) (ipv6_syn (buf_content b)) (buf_content b) (buf_content b')"
proof (cases "b_len b < 40")
  case True
  then have "length (buf_content b) < 40" using length_buf_content [OF assms] by linarith
  then show ?thesis using True assms by (auto simp: mss_fixup_ipv6_def proto_consts packet_clamped_def ipv6_syn_def)
next
  case False
  define c where "c = buf_content b"
  have len: "int (length c) = b_len b" "40 \<le> length c" using length_buf_content [OF assms] False by (auto simp: c_def)
  have dat: "b_data b \<noteq> None" using False buf_data_pos [OF assms] by simp
  have f: "field_u8 b 6 = Some (c ! 6)" "field b 4 2 = Some [c ! 4, c ! 5]"
    using field_u8_content [OF assms] field_content [OF assms] len take_2_drop [of 4 c] by (auto simp: c_def)
  have adv: "buf_advance b 40 = (True, buf_consumed b 40)" using assms dat False by (simp add: buf_advance_eq)
  have nl: "buf_len (buf_consumed b 40) = b_len b - 40" using assms False by simp
  have go: "mss_fixup_ipv6 big b maxmss =
      (if b_len b = uint (be_u16 [c ! 4, c ! 5]) + 40 \<and> c ! 6 = 6 \<and> 60 \<le> b_len b
       then mss_fixup_syn big b (buf_consumed b 40) (maxmss - 20) else Some b)"
    using f adv nl assms False by (auto simp: mss_fixup_ipv6_def proto_consts)
  show ?thesis
  proof (cases "b_len b = uint (be_u16 [c ! 4, c ! 5]) + 40 \<and> c ! 6 = 6 \<and> 60 \<le> b_len b")
    case True
    then have "40 + 20 \<le> length c" using len by linarith
    moreover have "ipv6_syn c = (if is_syn (drop 40 c) then Some 40 else None)" using True len by (simp add: ipv6_syn_def)
    ultimately show ?thesis using mss_fixup_syn_ok [OF assms, of 40 big "maxmss - 20"] True go by (simp add: c_def)
  next
    case no: False
    have "\<not> is_syn (drop 40 c)" if "b_len b < 60" using that len by (auto simp: is_syn_def)
    then have "ipv6_syn c = None" using no len by (auto simp: ipv6_syn_def)
    then show ?thesis using no go assms by (auto simp: packet_clamped_def c_def)
  qed
qed

subsection \<open>The properties\<close>

definition sample_syn :: "u8 list" where
  "sample_syn = [0x45, 0, 0, 44, 0, 1, 0, 0, 64, 6, 0, 0, 10, 0, 0, 1, 10, 0, 0, 2,
     4, 210, 0, 80, 0, 0, 0, 0, 0, 0, 0, 0, 0x60, 2, 255, 255, 0, 0, 0, 0, 2, 4, 0x05, 0xb4]"

definition sample_odd :: "u8 list" where
  "sample_odd = [4, 210, 0, 80, 0, 0, 0, 0, 0, 0, 0, 0, 0x70, 2, 255, 255, 208, 210, 0, 0, 1, 1, 1, 2, 4, 0x05, 0xb4, 0]"

text \<open>
  C33: the MSS clamp. For every packet, whatever its bytes, the functions return and stay inside the packet. They
  change only a complete TCP SYN packet, and of it only the values of the MSS options, which become the
  minimum of the old value and the limit (20 less for IPv6), and the TCP checksum; if the options
  start at even offsets, the sum of the segment that the checksum guards is unchanged.
\<close>

theorem mss_fixup_correct:
  assumes "buf_wf b"
  shows "(\<exists>b'. mss_fixup_ipv4 big b maxmss = Some b' \<and> buf_wf b' \<and> b_len b' = b_len b \<and> b_offset b' = b_offset b
      \<and> packet_clamped big maxmss (ipv4_syn (buf_content b)) (buf_content b) (buf_content b'))
    \<and> (\<exists>b'. mss_fixup_ipv6 big b maxmss = Some b' \<and> buf_wf b' \<and> b_len b' = b_len b \<and> b_offset b' = b_offset b
      \<and> packet_clamped big (maxmss - 20) (ipv6_syn (buf_content b)) (buf_content b) (buf_content b'))"
  using mss_fixup_ipv4_ok [OF assms] mss_fixup_ipv6_ok [OF assms] by blast

theorem mss_fixup_correct_witness:
  "\<exists>b'. mss_fixup_ipv4 False (buf_of sample_syn 0 44) 1400 = Some b' \<and> mss_at (drop 20 (buf_content b')) 20 = 1400
    \<and> same_sum (word_sum False (drop 20 (buf_content b'))) (word_sum False (drop 20 sample_syn))"
proof -
  have len: "length sample_syn = 44" by (simp add: sample_syn_def)
  have syn: "ipv4_syn sample_syn = Some 20" by code_simp
  have opts: "mss_options (drop 20 sample_syn) = [20]" by code_simp
  have mss: "mss_at (drop 20 sample_syn) 20 = 1460" by code_simp
  show ?thesis
    using mss_fixup_correct [of "buf_of sample_syn 0 44" False 1400] len syn opts mss
    by (auto simp: BUF_SIZE_MAX_def packet_clamped_def clamped_def)
qed

text \<open>
  Where an MSS option starts at an odd offset, the checksum goes wrong: the code adjusts it as if
  the value were one of the 16-bit words of the sum. The segment below has a right checksum (with a pseudo header that
  sums to zero) before the clamp and a wrong one after it.
\<close>

theorem mss_odd_offset_checksum:
  "\<exists>b'. mss_fixup_dowork False (buf_of sample_odd 0 28) 1400 = Some b'
    \<and> same_sum (word_sum False sample_odd) 0 \<and> \<not> same_sum (word_sum False (buf_content b')) 0"
proof -
  have good: "same_sum (word_sum False sample_odd) 0" by (simp add: same_sum_def sample_odd_def uint_host16)
  define b where "b = buf_of sample_odd 0 28"
  define e where "e = clamp_option False 1400 sample_odd 23"
  have mss: "mss_at sample_odd 23 = 1460" by code_simp
  have be: "u16_be 1400 = [5, 120]" "u16_be 1460 = [5, 180]" by (simp_all add: u16_be_def nat_to_be_numeral)
  have "same_sum (word_sum False e) (word_sum False (overwrite sample_odd 25 [5, 120]) + 15360)"
    using clamp_option_change [of 23 sample_odd 1400 False] mss
    by (simp add: e_def be htons_be uint_host16) (simp add: sample_odd_def)
  moreover have "(word_sum False (overwrite sample_odd 25 [5, 120]) + 15360) mod 65535 \<noteq> 0"
    by (simp add: sample_odd_def overwrite_def uint_host16)
  ultimately have bad: "\<not> same_sum (word_sum False e) 0" by (simp add: same_sum_def)
  have len: "length sample_odd = 28" "length e = 28" by (simp_all add: e_def sample_odd_def)
  have b: "buf_wf b" "buf_content b = sample_odd" by (simp_all add: b_def len BUF_SIZE_MAX_def)
  have f: "field_u8 b 12 = Some 0x70" "field_u8 b 20 = Some 1" "field_u8 b 21 = Some 1" "field_u8 b 22 = Some 1"
      "field_u8 b 23 = Some 2" "field_u8 b 24 = Some 4"
    using field_u8_content [OF b(1)] by (simp_all add: b(2) len) (simp_all add: sample_odd_def)
  have o: "mss_option False 1400 b 23 = Some (poked b 0 e)" using mss_option_eq [OF b] by (simp add: len e_def)
  have "mss_option_loop False 1400 b 8 20 = Some (poked b 0 e)"
    by (simp add: mss_option_loop.simps [of _ _ _ 8] mss_option_loop.simps [of _ _ _ 7] mss_option_loop.simps [of _ _ _ 6]
        mss_option_loop.simps [of _ _ _ 5] mss_option_loop.simps [of _ _ _ "Suc 0"] f o mss_consts)
  then have "mss_fixup_dowork False b 1400 = Some (poked b 0 e)"
    using f b length_buf_content [OF b(1)]
    by (simp add: mss_fixup_dowork_def proto_consts OPENVPN_TCPH_GET_DOFF_def len b_def)
  moreover have "buf_content (poked b 0 e) = e" using poked_content(2) [OF b(1), of e] b(2) len by (cases e) auto
  ultimately show ?thesis using good bad by (auto simp: b_def)
qed

end
