(* ===== verification/Clinat.thy ===== *)
theory Clinat
  imports Ip_Packet
begin

text \<open>
  Client-side network address translation: \<^verbatim>\<open>clinat.h\<close> and \<^verbatim>\<open>clinat.c\<close>. A table of rules rewrites the source or the
  destination of an IPv4 packet and adjusts the checksums. Addresses are 32-bit words as the host reads them
  from the packet; \<^verbatim>\<open>getaddr\<close>, which resolves the strings of the options, is an argument. The result is which address
  each field gets and that the sums guarded by the IP and the transport checksum do not change.
\<close>

definition MAX_CLIENT_NAT :: int where "MAX_CLIENT_NAT = 64"
definition CN_OUTGOING :: int where "CN_OUTGOING = 0"
definition CN_INCOMING :: int where "CN_INCOMING = 1"
definition CN_SNAT :: int where "CN_SNAT = 0"
definition CN_DNAT :: int where "CN_DNAT = 1"

record client_nat_entry =
  cn_type :: int
  cn_network :: u32
  cn_netmask :: u32
  cn_foreign_network :: u32

record client_nat_option_list =
  cnl_n :: int
  cnl_entries :: "client_nat_entry list"

subsection \<open>The table\<close>

definition add_entry :: "client_nat_option_list \<Rightarrow> client_nat_entry \<Rightarrow> (bool \<times> client_nat_option_list) option" where
  "add_entry dest e =
     (if cnl_n dest \<ge> MAX_CLIENT_NAT then Some (False, dest)
      else if 0 \<le> cnl_n dest \<and> nat (cnl_n dest) < length (cnl_entries dest)
      then Some (True, dest\<lparr>cnl_entries := (cnl_entries dest)[nat (cnl_n dest) := e], cnl_n := cnl_n dest + 1\<rparr>)
      else None)"

definition new_client_nat_list :: client_nat_option_list where
  "new_client_nat_list = \<lparr>cnl_n = 0, cnl_entries = replicate (nat MAX_CLIENT_NAT)
     \<lparr>cn_type = 0, cn_network = 0, cn_netmask = 0, cn_foreign_network = 0\<rparr>\<rparr>"

definition clone_client_nat_option_list :: "client_nat_option_list \<Rightarrow> client_nat_option_list" where
  "clone_client_nat_option_list src = src"

text \<open>The entry at an index of the array; beyond the array the access faults.\<close>

definition entry_at :: "client_nat_option_list \<Rightarrow> nat \<Rightarrow> client_nat_entry option" where
  "entry_at l i = (if i < length (cnl_entries l) then Some (cnl_entries l ! i) else None)"

primrec copy_loop :: "client_nat_option_list \<Rightarrow> client_nat_option_list \<Rightarrow> nat list \<Rightarrow> client_nat_option_list option" where
  "copy_loop src dest [] = Some dest"
| "copy_loop src dest (i # is) = do {
     e \<leftarrow> entry_at src i;
     (ok, d) \<leftarrow> add_entry dest e;
     if ok then copy_loop src d is else Some d }"

definition copy_client_nat_option_list ::
  "client_nat_option_list \<Rightarrow> client_nat_option_list \<Rightarrow> client_nat_option_list option" where
  "copy_client_nat_option_list dest src = copy_loop src dest [0..<nat (cnl_n src)]"

definition add_client_nat_to_option_list ::
  "(string \<Rightarrow> u32 option) \<Rightarrow> client_nat_option_list \<Rightarrow> string \<Rightarrow> string \<Rightarrow> string \<Rightarrow> string \<Rightarrow> client_nat_option_list option" where
  "add_client_nat_to_option_list getaddr dest type network netmask foreign_network =
     (if type \<noteq> ''snat'' \<and> type \<noteq> ''dnat'' then Some dest
      else case getaddr network of None \<Rightarrow> Some dest
      | Some n \<Rightarrow> (case getaddr netmask of None \<Rightarrow> Some dest
      | Some m \<Rightarrow> (case getaddr foreign_network of None \<Rightarrow> Some dest
      | Some g \<Rightarrow> do {
          (_, d) \<leftarrow> add_entry dest \<lparr>cn_type = (if type = ''snat'' then CN_SNAT else CN_DNAT),
            cn_network = n, cn_netmask = m, cn_foreign_network = g\<rparr>;
          Some d })))"

subsection \<open>The transformation\<close>

text \<open>
  One rule on the packet, the accumulated difference and the mask of the addresses already rewritten. The source
  address is at offset 12, the destination at 16.
\<close>

definition nat_rule :: "bool \<Rightarrow> int \<Rightarrow> client_nat_entry \<Rightarrow> buffer \<times> int \<times> int \<Rightarrow> (buffer \<times> int \<times> int) option" where
  "nat_rule big direction e = (\<lambda>(b, accumulate, alog). do {
     let (off, amask) = (if cn_type e XOR direction \<noteq> 0 then (16, 2) else (12, 1));
     let (from, to) = (if direction \<noteq> 0 then (cn_foreign_network e, cn_network e) else (cn_network e, cn_foreign_network e));
     bs \<leftarrow> field b off 4;
     let addr = host32 big bs;
     if addr AND cn_netmask e = from \<and> amask AND alog = 0
     then do {
       let acc1 = ADD_CHECKSUM_32 accumulate addr;
       let addr1 = (addr AND NOT (cn_netmask e)) OR to;
       let acc2 = SUB_CHECKSUM_32 acc1 addr1;
       b1 \<leftarrow> set_field b off (host big (u32_be addr1));
       Some (b1, acc2, alog OR amask) }
     else Some (b, accumulate, alog) })"

primrec nat_loop :: "bool \<Rightarrow> int \<Rightarrow> client_nat_option_list \<Rightarrow> nat list \<Rightarrow> buffer \<times> int \<times> int \<Rightarrow> (buffer \<times> int \<times> int) option" where
  "nat_loop big direction l [] st = Some st"
| "nat_loop big direction l (i # is) st = do {
     e \<leftarrow> entry_at l i;
     st1 \<leftarrow> nat_rule big direction e st;
     nat_loop big direction l is st1 }"

definition adjust_field :: "bool \<Rightarrow> int \<Rightarrow> buffer \<Rightarrow> nat \<Rightarrow> buffer option" where
  "adjust_field big accumulate b off = do {
     ck \<leftarrow> field b off 2;
     set_field b off (host big (u16_be (ADJUST_CHECKSUM accumulate (host16 big ck)))) }"

definition client_nat_transform :: "bool \<Rightarrow> client_nat_option_list \<Rightarrow> buffer \<Rightarrow> int \<Rightarrow> buffer option" where
  "client_nat_transform big l ipbuf direction = do {
     (b, accumulate, alog) \<leftarrow> nat_loop big direction l [0..<nat (cnl_n l)] (ipbuf, 0, 0);
     if alog \<noteq> 0
     then do {
       b1 \<leftarrow> adjust_field big accumulate b 10;
       proto \<leftarrow> field_u8 b1 9;
       if proto = OPENVPN_IPPROTO_TCP
       then if buf_len b1 \<ge> int (sizeof_iphdr + sizeof_tcphdr) then adjust_field big accumulate b1 36 else Some b1
       else if proto = OPENVPN_IPPROTO_UDP
       then if buf_len b1 \<ge> int (sizeof_iphdr + sizeof_udphdr) then adjust_field big accumulate b1 26 else Some b1
       else Some b1 }
     else Some b }"

subsection \<open>Which address a field gets\<close>

definition nat_source :: "int \<Rightarrow> client_nat_entry \<Rightarrow> bool" where
  "nat_source direction e \<longleftrightarrow> cn_type e XOR direction = 0"

definition nat_from :: "int \<Rightarrow> client_nat_entry \<Rightarrow> u32" where
  "nat_from direction e = (if direction \<noteq> 0 then cn_foreign_network e else cn_network e)"

definition nat_to :: "int \<Rightarrow> client_nat_entry \<Rightarrow> u32" where
  "nat_to direction e = (if direction \<noteq> 0 then cn_network e else cn_foreign_network e)"

text \<open>The first rule of the right kind whose network contains the address replaces its network part.\<close>

definition nat_match :: "int \<Rightarrow> bool \<Rightarrow> client_nat_entry \<Rightarrow> u32 \<Rightarrow> bool" where
  "nat_match direction src e addr \<longleftrightarrow> nat_source direction e = src \<and> addr AND cn_netmask e = nat_from direction e"

definition nat_new :: "int \<Rightarrow> client_nat_entry \<Rightarrow> u32 \<Rightarrow> u32" where
  "nat_new direction e addr = (addr AND NOT (cn_netmask e)) OR nat_to direction e"

definition nat_addr :: "int \<Rightarrow> bool \<Rightarrow> client_nat_entry list \<Rightarrow> u32 \<Rightarrow> u32" where
  "nat_addr direction src es addr =
     (case find (\<lambda>e. nat_match direction src e addr) es of None \<Rightarrow> addr | Some e \<Rightarrow> nat_new direction e addr)"

definition nat_hit :: "int \<Rightarrow> bool \<Rightarrow> client_nat_entry list \<Rightarrow> u32 \<Rightarrow> bool" where
  "nat_hit direction src es addr \<longleftrightarrow> find (\<lambda>e. nat_match direction src e addr) es \<noteq> None"

definition cnl_wf :: "client_nat_option_list \<Rightarrow> bool" where
  "cnl_wf l \<longleftrightarrow> 0 \<le> cnl_n l \<and> cnl_n l \<le> MAX_CLIENT_NAT \<and> length (cnl_entries l) = nat MAX_CLIENT_NAT"

definition cnl_rules :: "client_nat_option_list \<Rightarrow> client_nat_entry list" where
  "cnl_rules l = take (nat (cnl_n l)) (cnl_entries l)"

text \<open>The rule that an option stands for, if its words are right.\<close>

definition option_rules :: "(string \<Rightarrow> u32 option) \<Rightarrow> string \<Rightarrow> string \<Rightarrow> string \<Rightarrow> string \<Rightarrow> client_nat_entry list" where
  "option_rules getaddr type network netmask foreign_network =
     (case (getaddr network, getaddr netmask, getaddr foreign_network) of
        (Some n, Some m, Some g) \<Rightarrow>
          if type = ''snat'' then [\<lparr>cn_type = CN_SNAT, cn_network = n, cn_netmask = m, cn_foreign_network = g\<rparr>]
          else if type = ''dnat'' then [\<lparr>cn_type = CN_DNAT, cn_network = n, cn_netmask = m, cn_foreign_network = g\<rparr>]
          else []
      | _ \<Rightarrow> [])"

definition src_addr :: "bool \<Rightarrow> buffer \<Rightarrow> u32" where
  "src_addr big b = host32 big (take 4 (drop 12 (buf_content b)))"

definition dst_addr :: "bool \<Rightarrow> buffer \<Rightarrow> u32" where
  "dst_addr big b = host32 big (take 4 (drop 16 (buf_content b)))"

subsection \<open>The table keeps its bound\<close>

lemma add_entry_wf:
  assumes "cnl_wf l"
  shows "\<exists>ok l'. add_entry l e = Some (ok, l') \<and> cnl_wf l' \<and> ok = (cnl_n l < MAX_CLIENT_NAT)
    \<and> cnl_rules l' = (if ok then cnl_rules l @ [e] else cnl_rules l)"
proof (cases "cnl_n l < MAX_CLIENT_NAT")
  case True
  then have "nat (cnl_n l) < length (cnl_entries l)" "nat (cnl_n l + 1) = Suc (nat (cnl_n l))"
    using assms by (auto simp: cnl_wf_def nat_less_iff)
  then show ?thesis
    using assms True by (auto simp: add_entry_def cnl_wf_def cnl_rules_def take_Suc_conv_app_nth)
qed (use assms in \<open>auto simp: add_entry_def\<close>)

lemma add_entry_take:
  assumes "cnl_wf l"
  shows "\<exists>d. do { (_, d) \<leftarrow> add_entry l e; Some d } = Some d \<and> cnl_wf d \<and> cnl_rules d = take 64 (cnl_rules l @ [e])"
proof -
  obtain ok d where d: "add_entry l e = Some (ok, d)" "cnl_wf d" "ok = (cnl_n l < MAX_CLIENT_NAT)"
      "cnl_rules d = (if ok then cnl_rules l @ [e] else cnl_rules l)"
    using add_entry_wf [OF assms] by blast
  have "length (cnl_rules l) = nat (cnl_n l)" using assms by (auto simp: cnl_rules_def cnl_wf_def)
  with d show ?thesis using assms by (auto simp: cnl_wf_def MAX_CLIENT_NAT_def)
qed

lemma entry_at_rules:
  assumes "cnl_wf l"
  shows "map (entry_at l) [0..<nat (cnl_n l)] = map Some (cnl_rules l)"
proof -
  have "nat (cnl_n l) \<le> length (cnl_entries l)" using assms unfolding cnl_wf_def by auto
  then show ?thesis by (intro nth_equalityI) (simp_all add: entry_at_def cnl_rules_def)
qed

lemma copy_loop_wf:
  assumes "map (entry_at src) is = map Some es" and "cnl_wf dest"
  shows "\<exists>d. copy_loop src dest is = Some d \<and> cnl_wf d
    \<and> cnl_rules d = take (nat MAX_CLIENT_NAT) (cnl_rules dest @ es)"
  using assms
proof (induction "is" arbitrary: es dest)
  case Nil
  then show ?case by (auto simp: cnl_wf_def cnl_rules_def)
next
  case (Cons i "is")
  then obtain e es' where es: "es = e # es'" "entry_at src i = Some e" "map (entry_at src) is = map Some es'" by (cases es) auto
  obtain ok d where d: "add_entry dest e = Some (ok, d)" "cnl_wf d" "ok = (cnl_n dest < MAX_CLIENT_NAT)"
      "cnl_rules d = (if ok then cnl_rules dest @ [e] else cnl_rules dest)"
    using add_entry_wf [OF Cons.prems(2)] by blast
  show ?case
  proof (cases ok)
    case True
    then show ?thesis using Cons.IH [OF es(3) d(2)] es d by simp
  next
    case False
    then have "length (cnl_rules dest) = nat MAX_CLIENT_NAT" using d(3) Cons.prems(2) by (auto simp: cnl_rules_def cnl_wf_def)
    then show ?thesis using False es d by simp
  qed
qed

subsection \<open>The rules on the addresses\<close>

definition half_sum :: "u32 \<Rightarrow> int" where
  "half_sum u = uint (u AND 0xffff) + uint (drop_bit 16 u)"

definition with_addrs :: "bool \<Rightarrow> u8 list \<Rightarrow> u32 \<Rightarrow> u32 \<Rightarrow> u8 list" where
  "with_addrs big c sa da = take 12 c @ host big (u32_be sa) @ host big (u32_be da) @ drop 20 c"

definition alog_of :: "bool \<Rightarrow> bool \<Rightarrow> int" where
  "alog_of s d = (if s then 1 else 0) OR (if d then 2 else 0)"

lemma host32_host [simp]: "host32 big (host big (u32_be w)) = w"
  by (simp add: host32_def host_def)

lemma with_addrs_fields:
  assumes "20 \<le> length c"
  shows "length (with_addrs big c sa da) = length c"
    and "take 4 (drop 12 (with_addrs big c sa da)) = host big (u32_be sa)"
    and "take 4 (drop 16 (with_addrs big c sa da)) = host big (u32_be da)"
    and "overwrite (with_addrs big c sa da) 12 (host big (u32_be w)) = with_addrs big c w da"
    and "overwrite (with_addrs big c sa da) 16 (host big (u32_be w)) = with_addrs big c sa w"
  using assms by (simp_all add: with_addrs_def overwrite_def)

lemma half_sum_checksum: "ADD_CHECKSUM_32 acc u = acc + half_sum u" "SUB_CHECKSUM_32 acc u = acc - half_sum u"
  by (simp_all add: ADD_CHECKSUM_32_def SUB_CHECKSUM_32_def half_sum_def)

lemma alog_of_bits:
  "1 AND alog_of s d = 0 \<longleftrightarrow> \<not> s" "2 AND alog_of s d = 0 \<longleftrightarrow> \<not> d"
  "alog_of s d OR 1 = alog_of True d" "alog_of s d OR 2 = alog_of s True" "alog_of s d = 0 \<longleftrightarrow> \<not> s \<and> \<not> d"
  by (cases s; cases d; simp add: alog_of_def)+

text \<open>One rule, on a packet whose addresses are \<open>sa\<close> and \<open>da\<close>.\<close>

lemma nat_rule_eq:
  fixes big :: bool
  assumes "buf_wf b" and "20 \<le> length (buf_content b)"
  defines "st \<equiv> \<lambda>sa da. poked b 0 (with_addrs big (buf_content b) sa da)"
  shows "nat_rule big direction e (st sa da, acc, alog_of s d) =
    (if \<not> s \<and> nat_match direction True e sa
     then Some (st (nat_new direction e sa) da, acc + half_sum sa - half_sum (nat_new direction e sa), alog_of True d)
     else if \<not> d \<and> nat_match direction False e da
     then Some (st sa (nat_new direction e da), acc + half_sum da - half_sum (nat_new direction e da), alog_of s True)
     else Some (st sa da, acc, alog_of s d))"
proof -
  define c where "c = buf_content b"
  define w where "w = with_addrs big c sa da"
  have lw: "length w = length c" "20 \<le> length w"
    using assms(2) with_addrs_fields(1) [of c] by (auto simp: w_def c_def)
  then have "w \<noteq> []" by auto
  note lw = lw this
  have wf: "buf_wf (poked b 0 w)" "buf_content (poked b 0 w) = w"
    using poked_content [OF assms(1), of w] lw by (auto simp: c_def)
  have rd: "field (poked b 0 w) 12 4 = Some (host big (u32_be sa))" "field (poked b 0 w) 16 4 = Some (host big (u32_be da))"
    using field_content [OF wf(1), of _ 4] wf(2) lw with_addrs_fields(2,3) [of c] assms(2) by (auto simp: w_def c_def)
  have wr: "set_field (poked b 0 w) off (host big (u32_be v)) = Some (poked b 0 (overwrite w off (host big (u32_be v))))"
    if "off \<le> 16" for off v
  proof -
    have fit: "off + length (host big (u32_be v)) \<le> length w" "host big (u32_be v) \<noteq> []"
      using that lw by (auto simp flip: length_greater_0_conv)
    show ?thesis
      using set_field_content(1) [OF wf(1), of off "host big (u32_be v)"] fit wf(2)
        poked_poked [OF assms(1), of w off "host big (u32_be v)"] lw by (simp add: c_def)
  qed
  have ov: "overwrite w 12 (host big (u32_be v)) = with_addrs big c v da" "overwrite w 16 (host big (u32_be v)) = with_addrs big c sa v" for v
    using with_addrs_fields(4,5) [of c] assms(2) by (auto simp: w_def c_def)
  show ?thesis
    unfolding st_def c_def [symmetric] w_def [symmetric]
    by (cases "nat_source direction e")
      (simp_all add: nat_rule_def rd wr ov alog_of_bits half_sum_checksum nat_match_def nat_new_def
        nat_source_def nat_from_def nat_to_def Let_def del: bind_Some_iff)
qed

lemma nat_loop_eq:
  fixes big :: bool and direction :: int
  assumes "buf_wf b" and "20 \<le> length (buf_content b)" and "map (entry_at l) is = map Some es"
  defines "st \<equiv> \<lambda>sa da. poked b 0 (with_addrs big (buf_content b) sa da)"
    and "sa' \<equiv> \<lambda>s es sa. if s then sa else nat_addr direction True es sa"
    and "da' \<equiv> \<lambda>d es da. if d then da else nat_addr direction False es da"
  shows "nat_loop big direction l is (st sa da, acc, alog_of s d) =
    Some (st (sa' s es sa) (da' d es da),
          acc + half_sum sa - half_sum (sa' s es sa) + half_sum da - half_sum (da' d es da),
          alog_of (s \<or> nat_hit direction True es sa) (d \<or> nat_hit direction False es da))"
  using assms(3)
proof (induction "is" arbitrary: es sa da acc s d)
  case Nil
  then show ?case by (simp add: sa'_def da'_def nat_addr_def nat_hit_def)
next
  case (Cons i "is")
  then obtain e es' where es: "es = e # es'" "entry_at l i = Some e" "map (entry_at l) is = map Some es'" by (cases es) auto
  have not_both: "\<not> (nat_match direction True e sa \<and> nat_match direction False e da)" by (simp add: nat_match_def)
  show ?case
    using not_both nat_rule_eq [OF assms(1,2), of big direction e sa da acc s d] Cons.IH [OF es(3)]
    by (simp add: es st_def sa'_def da'_def nat_addr_def nat_hit_def)
qed

subsection \<open>The checksums\<close>

lemma list_of_2: "length xs = 2 \<Longrightarrow> \<exists>a b. xs = [a, b]"
  by (auto simp: numeral_eq_Suc length_Suc_conv)

lemma list_of_4: "length xs = 4 \<Longrightarrow> \<exists>a b c d. xs = [a, b, c, d]"
  by (auto simp: numeral_eq_Suc length_Suc_conv)

definition adjusted :: "bool \<Rightarrow> int \<Rightarrow> u8 list \<Rightarrow> nat \<Rightarrow> u8 list" where
  "adjusted big acc c off = overwrite c off (host big (u16_be (ADJUST_CHECKSUM acc (host16 big (take 2 (drop off c))))))"

lemma length_adjusted [simp]: "off + 2 \<le> length c \<Longrightarrow> length (adjusted big acc c off) = length c"
  by (simp add: adjusted_def)

lemma adjust_field_eq:
  assumes "buf_wf b" and "length c = length (buf_content b)" and "off + 2 \<le> length c"
  shows "adjust_field big acc (poked b 0 c) off = Some (poked b 0 (adjusted big acc c off))"
proof -
  define y where "y = host big (u16_be (ADJUST_CHECKSUM acc (host16 big (take 2 (drop off c)))))"
  have y: "length y = 2" "y \<noteq> []" "c \<noteq> []" using assms(3) by (auto simp: y_def simp flip: length_greater_0_conv)
  have wf: "buf_wf (poked b 0 c)" "buf_content (poked b 0 c) = c" using poked_content [OF assms(1,2)] y by auto
  have "field (poked b 0 c) off 2 = Some (take 2 (drop off c))" using field_content [OF wf(1), of off 2] wf(2) assms(3) by simp
  moreover have "set_field (poked b 0 c) off y = Some (poked (poked b 0 c) off y)"
    using set_field_content(1) [OF wf(1), of off y] wf(2) assms(3) y by simp
  ultimately show ?thesis
    using poked_poked [OF assms(1,2), of off y] assms(3) y by (simp add: adjust_field_def adjusted_def y_def [symmetric])
qed

lemma adjusted_slices:
  "p \<le> off \<Longrightarrow> off + 2 \<le> length c \<Longrightarrow> drop p (adjusted big acc c off) = adjusted big acc (drop p c) (off - p)"
  "off + 2 \<le> n \<Longrightarrow> off + 2 \<le> length c \<Longrightarrow> take n (adjusted big acc c off) = adjusted big acc (take n c) off"
  "n \<le> off \<Longrightarrow> off + 2 \<le> length c \<Longrightarrow> take n (adjusted big acc c off) = take n c"
  by (simp_all add: adjusted_def overwrite_def drop_take min_def)

lemma drop_adjusted:
  assumes "off + 2 \<le> p" and "off + 2 \<le> length c"
  shows "drop p (adjusted big acc c off) = drop p c"
proof -
  have "p - off - 2 + (off + 2) = p" using assms(1) by linarith
  then show ?thesis using assms by (simp add: adjusted_def overwrite_def)
qed

lemma adjusted_nth: "off + 2 \<le> length c \<Longrightarrow> i < length c \<Longrightarrow> i \<noteq> off \<Longrightarrow> i \<noteq> Suc off \<Longrightarrow> adjusted big acc c off ! i = c ! i"
  by (auto simp: adjusted_def nth_overwrite)

lemma adjusted_sum:
  assumes "even off" and "off + 2 \<le> length c" and "\<bar>acc\<bar> < 2 ^ 30"
  shows "same_sum (word_sum big (adjusted big acc c off)) (word_sum big c + acc)"
proof -
  define k where "k = host16 big (take 2 (drop off c))"
  obtain x y where xy: "host big (u16_be (ADJUST_CHECKSUM acc k)) = [x, y]"
    using list_of_2 [of "host big (u16_be (ADJUST_CHECKSUM acc k))"] by auto
  have "host16 big [x, y] = ADJUST_CHECKSUM acc k" using host16_host [of "u16_be (ADJUST_CHECKSUM acc k)" big] xy by simp
  then have "word_sum big (adjusted big acc c off) = word_sum big c - uint k + uint (ADJUST_CHECKSUM acc k)"
    using word_sum_overwrite [OF assms(1,2), of big x y] by (simp add: adjusted_def k_def [symmetric] xy)
  moreover have "same_sum (uint (ADJUST_CHECKSUM acc k)) (acc + uint k)" by (rule ADJUST_CHECKSUM_mod [OF assms(3)])
  ultimately show ?thesis
    using same_sum_add [of "uint (ADJUST_CHECKSUM acc k)" "acc + uint k" "word_sum big c - uint k"] by simp
qed

lemma half_sum_bound: "0 \<le> half_sum u" "half_sum u < 2 ^ 18"
proof -
  obtain a b c d where u: "u32_be u = [a, b, c, d]" using list_of_4 [of "u32_be u"] by auto
  have "host32 True [a, b, c, d] = u" by (simp add: host32_def host_def flip: u)
  then have "half_sum u = uint (host16 True [a, b]) + uint (host16 True [c, d])" using halves_sum [of True a b c d] by (simp add: half_sum_def)
  then show "0 \<le> half_sum u" "half_sum u < 2 ^ 18"
    using uint_lt2p [of "host16 True [a, b]"] uint_lt2p [of "host16 True [c, d]"] by simp_all
qed

lemma word_sum_host32: "word_sum big (host big (u32_be u) @ ys) = half_sum u + word_sum big ys"
proof -
  obtain a b c d where u: "host big (u32_be u) = [a, b, c, d]"
    using list_of_4 [of "host big (u32_be u)"] by auto
  have "host32 big [a, b, c, d] = u" by (simp flip: u)
  then show ?thesis using halves_sum [of big a b c d] by (simp add: u half_sum_def)
qed

lemma with_addrs_sums:
  assumes "20 \<le> length c"
  shows "word_sum big (take 20 (with_addrs big c sa da)) = word_sum big (take 12 c) + half_sum sa + half_sum da"
    and "word_sum big (drop 12 (with_addrs big c sa da)) = half_sum sa + half_sum da + word_sum big (drop 20 c)"
  using assms word_sum_append [of "take 12 c" big "host big (u32_be sa) @ host big (u32_be da)"] word_sum_host32 [of big da "[]"]
  by (simp_all add: with_addrs_def word_sum_host32)

lemma with_addrs_self:
  assumes "20 \<le> length c"
  shows "with_addrs big c (host32 big (take 4 (drop 12 c))) (host32 big (take 4 (drop 16 c))) = c"
proof -
  have h: "host big (u32_be (host32 big xs)) = xs" if "length xs = 4" for xs
    using that by (cases big) (simp_all add: host32_def host_def u32_be_be_u32)
  have "take 4 (drop 12 c) @ take 4 (drop 16 c) @ drop 20 c = drop 12 c"
    using append_take_drop_id [of 4 "drop 12 c"] append_take_drop_id [of 4 "drop 16 c"] by simp
  then show ?thesis using assms by (simp add: with_addrs_def h)
qed

subsection \<open>The whole transformation\<close>

definition transport_check :: "u8 list \<Rightarrow> nat option" where
  "transport_check c =
     (if c ! 9 = 6 \<and> 40 \<le> length c then Some 36 else if c ! 9 = 17 \<and> 28 \<le> length c then Some 26 else None)"

text \<open>
  The packet \<open>d\<close> is the packet \<open>c\<close> after translation: the addresses are the translated ones, only they and the checksums
  differ, the header keeps its sum, and so do the addresses with the segment (the pseudo header and the segment).
\<close>

definition translated :: "bool \<Rightarrow> int \<Rightarrow> client_nat_entry list \<Rightarrow> u8 list \<Rightarrow> u8 list \<Rightarrow> bool" where
  "translated big direction es c d \<longleftrightarrow>
     length d = length c
     \<and> host32 big (take 4 (drop 12 d)) = nat_addr direction True es (host32 big (take 4 (drop 12 c)))
     \<and> host32 big (take 4 (drop 16 d)) = nat_addr direction False es (host32 big (take 4 (drop 16 c)))
     \<and> (\<forall>i < length c. d ! i \<noteq> c ! i \<longrightarrow> 10 \<le> i \<and> i < 20 \<or> transport_check c = Some i \<or> transport_check c = Some (i - 1))
     \<and> same_sum (word_sum big (take 20 d)) (word_sum big (take 20 c))
     \<and> (transport_check c \<noteq> None \<longrightarrow> same_sum (word_sum big (drop 12 d)) (word_sum big (drop 12 c)))"

definition nat_result :: "int \<Rightarrow> bool \<Rightarrow> u8 list \<Rightarrow> u8 list \<Rightarrow> u8 list" where
  "nat_result acc big c w =
     (let w1 = adjusted big acc w 10 in case transport_check c of None \<Rightarrow> w1 | Some k \<Rightarrow> adjusted big acc w1 k)"

lemma transport_check_Some: "transport_check c = Some k \<Longrightarrow> even k \<and> 26 \<le> k \<and> k + 2 \<le> length c"
  by (auto simp: transport_check_def split: if_splits)

lemma with_addrs_nth:
  assumes "20 \<le> length c" and "i < length c" and "i < 12 \<or> 20 \<le> i"
  shows "with_addrs big c sa da ! i = c ! i"
  using assms by (auto simp: with_addrs_def nth_append)

lemma nat_result_slices:
  assumes "20 \<le> length c" and "length w = length c"
  shows "length (nat_result acc big c w) = length c"
    and "take 20 (nat_result acc big c w) = adjusted big acc (take 20 w) 10"
    and "transport_check c = Some k \<Longrightarrow> drop 12 (nat_result acc big c w) = adjusted big acc (drop 12 w) (k - 12)"
    and "12 \<le> p \<Longrightarrow> p + 4 \<le> 20 \<Longrightarrow> take 4 (drop p (nat_result acc big c w)) = take 4 (drop p w)"
    and "i < length c \<Longrightarrow> i \<noteq> 10 \<Longrightarrow> i \<noteq> 11 \<Longrightarrow> transport_check c \<noteq> Some i \<Longrightarrow> transport_check c \<noteq> Some (i - 1)
      \<Longrightarrow> nat_result acc big c w ! i = w ! i"
proof -
  define w1 where "w1 = adjusted big acc w 10"
  define d where "d = nat_result acc big c w"
  have lw: "length w1 = length c" using assms by (auto simp: w1_def)
  have d: "d = (case transport_check c of None \<Rightarrow> w1 | Some k \<Rightarrow> adjusted big acc w1 k)"
    by (simp only: d_def nat_result_def w1_def Let_def)
  show "length (nat_result acc big c w) = length c"
    unfolding d_def [symmetric] using lw transport_check_Some [of c] by (auto simp: d split: option.split)
  have hd: "take 20 d = take 20 w1"
    using lw transport_check_Some [of c] adjusted_slices(3) [of 20 _ w1] by (auto simp: d split: option.split)
  then show "take 20 (nat_result acc big c w) = adjusted big acc (take 20 w) 10"
    unfolding d_def [symmetric] using adjusted_slices(2) [of 10 20 w] assms by (simp add: w1_def)
  show "drop 12 (nat_result acc big c w) = adjusted big acc (drop 12 w) (k - 12)" if "transport_check c = Some k"
    using that lw transport_check_Some [OF that] adjusted_slices(1) [of 12 k w1] drop_adjusted [of 10 12 w] assms
    unfolding d_def [symmetric] by (simp add: d w1_def)
  show "take 4 (drop p (nat_result acc big c w)) = take 4 (drop p w)" if "12 \<le> p" "p + 4 \<le> 20"
  proof -
    have "take 4 (drop p d) = take 4 (drop p (take 20 d))" using that by (simp add: drop_take min_def)
    also have "\<dots> = take 4 (drop p w1)" using that by (simp add: hd drop_take min_def)
    also have "drop p w1 = drop p w" using drop_adjusted [of 10 p w] assms that by (simp add: w1_def)
    finally show ?thesis by (simp add: d_def)
  qed
  show "nat_result acc big c w ! i = w ! i"
    if "i < length c" "i \<noteq> 10" "i \<noteq> 11" "transport_check c \<noteq> Some i" "transport_check c \<noteq> Some (i - 1)"
    unfolding d_def [symmetric] using that lw assms transport_check_Some [of c]
    by (auto simp: d w1_def adjusted_nth split: option.split)
qed

lemma translated_result:
  fixes big direction es c
  defines "sa \<equiv> host32 big (take 4 (drop 12 c))" and "da \<equiv> host32 big (take 4 (drop 16 c))"
  defines "sa' \<equiv> nat_addr direction True es sa" and "da' \<equiv> nat_addr direction False es da"
  defines "acc \<equiv> half_sum sa - half_sum sa' + half_sum da - half_sum da'"
  assumes len: "20 \<le> length c"
  shows "translated big direction es c (nat_result acc big c (with_addrs big c sa' da'))"
proof -
  define w where "w = with_addrs big c sa' da'"
  have lw: "length w = length c" using len with_addrs_fields(1) [of c] by (auto simp: w_def)
  note res = nat_result_slices [OF len lw, where acc = acc and big = big]
  have acc: "\<bar>acc\<bar> < 2 ^ 30"
    using half_sum_bound [of sa] half_sum_bound [of da] half_sum_bound [of sa'] half_sum_bound [of da'] by (simp add: acc_def)
  have self: "with_addrs big c sa da = c" using with_addrs_self [of c big] len by (simp add: sa_def da_def)
  have sums: "word_sum big (take 20 w) + acc = word_sum big (take 20 c)" "word_sum big (drop 12 w) + acc = word_sum big (drop 12 c)"
    using with_addrs_sums [of c big sa' da'] with_addrs_sums [of c big sa da] self len by (simp_all add: w_def acc_def)
  have "same_sum (word_sum big (adjusted big acc (take 20 w) 10)) (word_sum big (take 20 c))"
    using adjusted_sum [of 10 "take 20 w" acc big] lw len acc sums by simp
  moreover have "same_sum (word_sum big (adjusted big acc (drop 12 w) (k - 12))) (word_sum big (drop 12 c))"
    if "transport_check c = Some k" for k
  proof -
    have k: "even (k - 12)" "k - 12 + 2 \<le> length (drop 12 w)" using transport_check_Some [OF that] lw by auto
    show ?thesis using adjusted_sum [OF k acc, of big] sums by simp
  qed
  moreover have "take 4 (drop 12 w) = host big (u32_be sa')" "take 4 (drop 16 w) = host big (u32_be da')"
    using with_addrs_fields(2,3) [of c] len by (simp_all add: w_def)
  moreover have "10 \<le> i \<and> i < 20 \<or> transport_check c = Some i \<or> transport_check c = Some (i - 1)"
    if "i < length c" "nat_result acc big c w ! i \<noteq> c ! i" for i
  proof (rule ccontr)
    assume no: "\<not> ?thesis"
    then have "w ! i = c ! i" using that(1) with_addrs_nth [of c i] len by (auto simp: w_def)
    then show False using that res(5) [of i] no by auto
  qed
  ultimately show ?thesis
    unfolding translated_def w_def [symmetric]
    using res(1-4) by (auto simp: sa'_def da'_def sa_def da_def)
qed

lemma nat_addr_miss: "\<not> nat_hit direction src es a \<Longrightarrow> nat_addr direction src es a = a"
  by (auto simp: nat_hit_def nat_addr_def)

lemma translated_self:
  assumes "nat_addr direction True es (host32 big (take 4 (drop 12 c))) = host32 big (take 4 (drop 12 c))"
    and "nat_addr direction False es (host32 big (take 4 (drop 16 c))) = host32 big (take 4 (drop 16 c))"
  shows "translated big direction es c c"
  using assms by (simp add: translated_def same_sum_def)

lemma client_nat_transform_ok:
  assumes "buf_wf b" and "20 \<le> length (buf_content b)" and "cnl_wf l"
  shows "\<exists>d. client_nat_transform big l b direction = Some (poked b 0 d)
    \<and> translated big direction (cnl_rules l) (buf_content b) d"
proof -
  define c where "c = buf_content b"
  define sa where "sa = host32 big (take 4 (drop 12 c))"
  define da where "da = host32 big (take 4 (drop 16 c))"
  define es where "es = cnl_rules l"
  define sa' where "sa' = nat_addr direction True es sa"
  define da' where "da' = nat_addr direction False es da"
  define acc where "acc = half_sum sa - half_sum sa' + half_sum da - half_sum da'"
  define w where "w = with_addrs big c sa' da'"
  define hit where "hit \<longleftrightarrow> nat_hit direction True es sa \<or> nat_hit direction False es da"
  have len: "20 \<le> length c" "length w = length c" using assms(2) with_addrs_fields(1) [of c] by (auto simp: c_def w_def)
  have start: "poked b 0 (with_addrs big c sa da) = b"
    using with_addrs_self [of c big] len poked_self [OF assms(1)] by (simp add: sa_def da_def c_def)
  have loop: "nat_loop big direction l [0..<nat (cnl_n l)] (b, 0, 0) = Some (poked b 0 w, acc,
      alog_of (nat_hit direction True es sa) (nat_hit direction False es da))"
    using nat_loop_eq [OF assms(1,2) entry_at_rules [OF assms(3)], of big direction sa da 0 False False] start
    by (simp add: c_def [symmetric] es_def [symmetric] sa'_def [symmetric] da'_def [symmetric] acc_def w_def alog_of_def [of False])
  define w1 where "w1 = adjusted big acc w 10"
  have lw1: "length w1 = length c" "w1 \<noteq> []" "w1 ! 9 = c ! 9"
    using len adjusted_nth [of 10 w 9 big acc] with_addrs_nth [of c 9] by (auto simp: w1_def w_def simp flip: length_greater_0_conv)
  have p1: "adjust_field big acc (poked b 0 w) 10 = Some (poked b 0 w1)"
    using adjust_field_eq [OF assms(1), of w 10] len by (simp add: c_def w1_def)
  have p2: "adjust_field big acc (poked b 0 w1) k = Some (poked b 0 (adjusted big acc w1 k))" if "k + 2 \<le> length c" for k
    using adjust_field_eq [OF assms(1), of w1 k] lw1 that by (simp add: c_def)
  have bl: "buf_len (poked b 0 w1) = int (length c)"
    using length_buf_content [of "poked b 0 w1"] poked_content [OF assms(1), of w1] lw1 by (simp add: c_def)
  have pr: "field_u8 (poked b 0 w1) 9 = Some (c ! 9)"
    using field_u8_content [of "poked b 0 w1" 9] poked_content [OF assms(1), of w1] lw1 len by (simp add: c_def)
  show ?thesis
  proof (cases hit)
    case True
    then have "client_nat_transform big l b direction = Some (poked b 0 (nat_result acc big c w))"
      using loop p1 p2 pr bl len
      by (auto simp: client_nat_transform_def hit_def alog_of_bits proto_consts nat_result_def transport_check_def w1_def [symmetric] Let_def
          simp del: bind_Some_iff)
    moreover have "translated big direction es c (nat_result acc big c w)"
      using translated_result [OF len(1), of big direction es] by (simp add: acc_def w_def sa'_def da'_def sa_def da_def)
    ultimately show ?thesis by (auto simp: c_def es_def)
  next
    case False
    then have "sa' = sa" "da' = da" by (simp_all add: hit_def sa'_def da'_def nat_addr_miss)
    moreover from this have "client_nat_transform big l b direction = Some (poked b 0 c)"
      using False loop len start with_addrs_self [of c big]
      by (simp add: client_nat_transform_def hit_def alog_of_bits w_def sa_def da_def)
    ultimately show ?thesis using translated_self [of direction es big c] by (auto simp: sa'_def da'_def sa_def da_def c_def es_def)
  qed
qed

lemma client_nat_transform_buf:
  assumes "buf_wf b" and "20 \<le> length (buf_content b)" and "cnl_wf l"
  shows "\<exists>b'. client_nat_transform big l b direction = Some b' \<and> buf_wf b' \<and> b_len b' = b_len b \<and> b_offset b' = b_offset b
    \<and> translated big direction (cnl_rules l) (buf_content b) (buf_content b')"
proof -
  obtain d where d: "client_nat_transform big l b direction = Some (poked b 0 d)"
      "translated big direction (cnl_rules l) (buf_content b) d"
    using client_nat_transform_ok [OF assms] by blast
  have "length d = length (buf_content b)" using d(2) by (simp add: translated_def)
  moreover from this have "d \<noteq> []" using assms(2) by auto
  ultimately show ?thesis using d poked_content [OF assms(1), of d] by auto
qed

subsection \<open>Replies\<close>

text \<open>A table that can be reversed: network addresses have no host bits, and no two rules of a kind share a foreign network.\<close>

definition proper_rule :: "client_nat_entry \<Rightarrow> bool" where
  "proper_rule e \<longleftrightarrow> (cn_type e = CN_SNAT \<or> cn_type e = CN_DNAT)
     \<and> cn_network e AND cn_netmask e = cn_network e \<and> cn_foreign_network e AND cn_netmask e = cn_foreign_network e"

definition separate_rules :: "client_nat_entry \<Rightarrow> client_nat_entry \<Rightarrow> bool" where
  "separate_rules e f \<longleftrightarrow> e = f \<or> cn_type e \<noteq> cn_type f
     \<or> cn_foreign_network e AND cn_netmask f \<noteq> cn_foreign_network f AND cn_netmask e"

definition reversible :: "client_nat_entry list \<Rightarrow> bool" where
  "reversible es \<longleftrightarrow> list_all proper_rule es \<and> list_all (\<lambda>e. list_all (separate_rules e) es) es"

text \<open>An address that a rule translates, or that is in no foreign network.\<close>

definition nat_clear :: "client_nat_entry list \<Rightarrow> bool \<Rightarrow> u32 \<Rightarrow> bool" where
  "nat_clear es src a \<longleftrightarrow> nat_hit CN_OUTGOING src es a \<or> \<not> nat_hit CN_INCOMING (\<not> src) es a"

lemma replace_masked:
  fixes a m f :: u32
  assumes "f AND m = f"
  shows "((a AND NOT m) OR f) AND m = f" and "(((a AND NOT m) OR f) AND NOT m) OR (a AND m) = a"
proof -
  have sub: "bit m i" if "bit f i" for i using that assms by (metis bit_and_iff)
  show "((a AND NOT m) OR f) AND m = f" by (rule bit_eqI) (auto simp: bit_and_iff bit_or_iff bit_not_iff dest: sub)
  show "(((a AND NOT m) OR f) AND NOT m) OR (a AND m) = a" by (rule bit_eqI) (auto simp: bit_and_iff bit_or_iff bit_not_iff dest: sub)
qed

lemma nat_new_back:
  assumes "proper_rule e" and "nat_match CN_OUTGOING src e a"
  shows "nat_match CN_INCOMING (\<not> src) e (nat_new CN_OUTGOING e a)"
    and "nat_new CN_INCOMING e (nat_new CN_OUTGOING e a) = a"
proof -
  have a: "a AND cn_netmask e = cn_network e" and src: "nat_source CN_OUTGOING e = src"
    using assms(2) by (auto simp: nat_match_def nat_from_def CN_OUTGOING_def)
  have f: "cn_foreign_network e AND cn_netmask e = cn_foreign_network e" using assms(1) by (simp add: proper_rule_def)
  have n: "nat_new CN_OUTGOING e a = (a AND NOT (cn_netmask e)) OR cn_foreign_network e"
    by (simp add: nat_new_def nat_to_def CN_OUTGOING_def)
  have "nat_new CN_OUTGOING e a AND cn_netmask e = cn_foreign_network e"
    unfolding n by (rule replace_masked(1) [OF f])
  moreover have "nat_source CN_INCOMING e = (\<not> src)"
    using src assms(1) by (auto simp: nat_source_def proper_rule_def CN_INCOMING_def CN_OUTGOING_def CN_SNAT_def CN_DNAT_def)
  ultimately show "nat_match CN_INCOMING (\<not> src) e (nat_new CN_OUTGOING e a)"
    by (simp add: nat_match_def nat_from_def CN_INCOMING_def)
  have "(nat_new CN_OUTGOING e a AND NOT (cn_netmask e)) OR cn_network e = a"
    using replace_masked(2) [OF f, of a] a unfolding n by simp
  then show "nat_new CN_INCOMING e (nat_new CN_OUTGOING e a) = a"
    unfolding nat_new_def [of CN_INCOMING] by (simp add: nat_to_def CN_INCOMING_def)
qed

lemma separate_match:
  assumes "separate_rules e f" and "proper_rule e" and "proper_rule f"
    and "nat_match CN_INCOMING src e x" and "nat_match CN_INCOMING src f x"
  shows "e = f"
proof -
  have "cn_type e = cn_type f"
    using assms(2-) by (auto simp: nat_match_def nat_source_def proper_rule_def CN_INCOMING_def CN_SNAT_def CN_DNAT_def)
  moreover have x: "cn_foreign_network e = x AND cn_netmask e" "cn_foreign_network f = x AND cn_netmask f"
    using assms(4,5) by (simp_all add: nat_match_def nat_from_def CN_INCOMING_def)
  have "cn_foreign_network e AND cn_netmask f = cn_foreign_network f AND cn_netmask e" unfolding x by (simp add: ac_simps)
  ultimately show ?thesis using assms(1) by (auto simp: separate_rules_def)
qed

lemma find_first: "find P xs = Some x \<Longrightarrow> x \<in> set xs \<and> P x"
  by (auto simp: find_Some_iff)

lemma nat_addr_back:
  assumes "reversible es" and "nat_clear es src a"
  shows "nat_addr CN_INCOMING (\<not> src) es (nat_addr CN_OUTGOING src es a) = a"
proof (cases "find (\<lambda>e. nat_match CN_OUTGOING src e a) es")
  case None
  then show ?thesis using assms(2) by (simp add: nat_addr_def nat_hit_def nat_clear_def)
next
  case (Some e)
  define x where "x = nat_new CN_OUTGOING e a"
  have in_es: "e \<in> set es" "nat_match CN_OUTGOING src e a" using find_first [OF Some] by auto
  have rules: "proper_rule f \<and> separate_rules e f" if "f \<in> set es" for f
    using assms(1) that in_es(1) by (auto simp: reversible_def list_all_iff)
  have undo: "nat_match CN_INCOMING (\<not> src) e x" "nat_new CN_INCOMING e x = a"
    using nat_new_back [of e src a] rules in_es by (auto simp: x_def)
  obtain f where f: "find (\<lambda>e. nat_match CN_INCOMING (\<not> src) e x) es = Some f"
    using undo(1) in_es(1) by (cases "find (\<lambda>e. nat_match CN_INCOMING (\<not> src) e x) es") (auto simp: find_None_iff)
  then have "e = f" using separate_match [of e f "\<not> src" x] find_first [OF f] rules in_es(1) undo(1) by blast
  then show ?thesis using f undo(2) Some by (simp add: nat_addr_def x_def)
qed

subsection \<open>The properties\<close>

definition sample_nat :: client_nat_option_list where
  "sample_nat = new_client_nat_list\<lparr>cnl_n := 1, cnl_entries := (cnl_entries new_client_nat_list)
     [0 := \<lparr>cn_type = CN_SNAT, cn_network = 0x0a000000, cn_netmask = 0xffffff00, cn_foreign_network = 0xac100500\<rparr>]\<rparr>"

definition sample_udp :: "u32 \<Rightarrow> u32 \<Rightarrow> u8 list" where
  "sample_udp s d = [0x45, 0, 0, 28, 0, 1, 0, 0, 64, 17, 0, 0] @ u32_be s @ u32_be d @ [4, 210, 0, 53, 0, 8, 0, 7]"

lemma sample_nat_wf: "cnl_wf sample_nat"
  by (simp add: sample_nat_def cnl_wf_def new_client_nat_list_def MAX_CLIENT_NAT_def)

lemma sample_nat_rules: "cnl_rules sample_nat =
    [\<lparr>cn_type = CN_SNAT, cn_network = 0x0a000000, cn_netmask = 0xffffff00, cn_foreign_network = 0xac100500\<rparr>]"
  by (simp add: sample_nat_def cnl_rules_def new_client_nat_list_def MAX_CLIENT_NAT_def numeral_eq_Suc)

lemma sample_udp_buf:
  "buf_wf (buf_of (sample_udp s d) 0 28)" "buf_content (buf_of (sample_udp s d) 0 28) = sample_udp s d"
  "length (sample_udp s d) = 28" "host32 True (take 4 (drop 12 (sample_udp s d))) = s" "host32 True (take 4 (drop 16 (sample_udp s d))) = d"
  by (simp_all add: sample_udp_def BUF_SIZE_MAX_def host32_def host_def)

text \<open>
  C36: every operation on the table of rules returns and keeps the type of the table: an array of 64 entries of
  which the first \<open>n \<le> 64\<close> are in use. A copy and an added option append to the rules in use as far as
  the array has room, and an option with a wrong type or an address that does not resolve adds nothing.
\<close>

theorem client_nat_table_typed:
  assumes "cnl_wf l" and "cnl_wf src"
  shows "cnl_wf new_client_nat_list \<and> cnl_rules new_client_nat_list = [] \<and> clone_client_nat_option_list l = l
    \<and> (\<exists>d. copy_client_nat_option_list l src = Some d \<and> cnl_wf d \<and> cnl_rules d = take 64 (cnl_rules l @ cnl_rules src))
    \<and> (\<exists>d. add_client_nat_to_option_list getaddr l type network netmask foreign = Some d \<and> cnl_wf d
        \<and> cnl_rules d = take 64 (cnl_rules l @ option_rules getaddr type network netmask foreign))"
proof (intro conjI)
  show "\<exists>d. copy_client_nat_option_list l src = Some d \<and> cnl_wf d \<and> cnl_rules d = take 64 (cnl_rules l @ cnl_rules src)"
    using copy_loop_wf [OF entry_at_rules [OF assms(2)] assms(1)] by (simp add: copy_client_nat_option_list_def MAX_CLIENT_NAT_def)
  have "take 64 (cnl_rules l) = cnl_rules l" using assms(1) by (auto simp: cnl_rules_def cnl_wf_def MAX_CLIENT_NAT_def)
  then show "\<exists>d. add_client_nat_to_option_list getaddr l type network netmask foreign = Some d \<and> cnl_wf d
        \<and> cnl_rules d = take 64 (cnl_rules l @ option_rules getaddr type network netmask foreign)"
    using add_entry_take [OF assms(1)] assms(1)
    by (cases "type = ''snat'' \<or> type = ''dnat''")
      (auto simp: add_client_nat_to_option_list_def option_rules_def simp del: bind_Some_iff split: option.split)
qed (auto simp: new_client_nat_list_def cnl_wf_def cnl_rules_def clone_client_nat_option_list_def MAX_CLIENT_NAT_def)

theorem client_nat_table_typed_witness:
  "\<exists>d. copy_client_nat_option_list sample_nat sample_nat = Some d \<and> cnl_rules d = cnl_rules sample_nat @ cnl_rules sample_nat"
  using client_nat_table_typed [OF sample_nat_wf sample_nat_wf, of "\<lambda>_. None" "[]" "[]" "[]" "[]"] by (auto simp: sample_nat_rules)





end
