(* ===== verification/Hkdf.thy ===== *)
theory Hkdf
  imports Buffer Integer_Ops
begin

text \<open>
  Key derivation of the epoch data format: \<^verbatim>\<open>ovpn_hkdf_expand\<close> and \<^verbatim>\<open>ovpn_expand_label\<close> of \<^verbatim>\<open>crypto_epoch.c\<close>. The HMAC with
  SHA-256 belongs to the TLS library and is the argument \<open>hmac\<close>, from a key and a message to 32 bytes.
  The result: up to 8160 bytes the output is the one that RFC 5869 defines; for longer
  outputs, which \<^verbatim>\<open>ovpn_expand_label\<close> admits, the 8-bit block counter wraps and the rest is left as it was.
\<close>

type_synonym hmac_fn = "u8 list \<Rightarrow> u8 list \<Rightarrow> u8 list"

definition SHA256_DIGEST_LENGTH :: nat where "SHA256_DIGEST_LENGTH = 32"

text \<open>
  The loop over the blocks: \<open>block\<close> is the 8-bit counter, and \<open>(block - 1) * digest_size\<close> is computed as an \<^verbatim>\<open>unsigned int\<close>. The counter
  wraps to 0 after 255 rounds, which makes the product \<open>2 ^ 32 - 32\<close>; the fuel 256 covers every \<open>out_len\<close>
  up to that value.
\<close>

definition block_offset :: "u8 \<Rightarrow> nat" where
  "block_offset block = unat ((ucast block - 1) * 32 :: u32)"

fun hkdf_loop :: "nat \<Rightarrow> hmac_fn \<Rightarrow> u8 list \<Rightarrow> u8 list \<Rightarrow> nat \<Rightarrow> u8 \<Rightarrow> u8 list \<Rightarrow> u8 list \<Rightarrow> u8 list option" where
  "hkdf_loop 0 hmac secret info out_len block t_prev out = None"
| "hkdf_loop (Suc fuel) hmac secret info out_len block t_prev out =
     (if block_offset block < out_len
      then let t = hmac secret (t_prev @ info @ [block]);
               out_offset = block_offset block;
               copylen = min SHA256_DIGEST_LENGTH (out_len - out_offset)
           in hkdf_loop fuel hmac secret info out_len (block + 1) t (overwrite out out_offset (take copylen t))
      else Some out)"

definition ovpn_hkdf_expand :: "hmac_fn \<Rightarrow> u8 list \<Rightarrow> u8 list \<Rightarrow> u8 list \<Rightarrow> u8 list option" where
  \<comment> \<open>\<open>out\<close> holds the bytes of the output before the call; its length is \<^verbatim>\<open>out_len\<close>\<close>
  "ovpn_hkdf_expand hmac secret info out = do {
     assertion (int (length info) \<le> INT_MAX);
     hkdf_loop 256 hmac secret info (length out) 1 [] out }"

definition label_prefix :: "u8 list" where
  "label_prefix = [0x6f, 0x76, 0x70, 0x6e, 0x20]"

definition ovpn_expand_label ::
  "hmac_fn \<Rightarrow> (nat \<Rightarrow> u8) \<Rightarrow> u8 list \<Rightarrow> u8 list \<Rightarrow> u8 list \<Rightarrow> u8 list \<Rightarrow> (bool \<times> u8 list) option" where
  "ovpn_expand_label hmac junk secret label ctxt out =
     (if length secret \<noteq> 32 \<or> length label > 250 \<or> length ctxt > 255 \<or> length label < 1 then Some (False, out)
      else do {
        assertion (length out \<le> 65535);
        let hkdf_label_len = 2 + 5 + 1 + length label + 1 + length ctxt;
        b0 \<leftarrow> alloc_buf_gc junk (int hkdf_label_len);
        (_, b1) \<leftarrow> buf_write_u16 b0 (of_nat (length out));
        (_, b2) \<leftarrow> buf_write_u8 b1 (5 + of_nat (length label));
        (_, b3) \<leftarrow> buf_write b2 label_prefix;
        (_, b4) \<leftarrow> buf_write b3 label;
        (_, b5) \<leftarrow> buf_write_u8 b4 (of_nat (length ctxt));
        (_, b6) \<leftarrow> (if ctxt \<noteq> [] then buf_write b5 ctxt else Some (True, b5));
        assertion (buf_len b6 = int hkdf_label_len);
        info \<leftarrow> bptr_read b6 (int hkdf_label_len);
        r \<leftarrow> ovpn_hkdf_expand hmac secret info out;
        Some (True, r) })"

subsection \<open>The expansion of RFC 5869\<close>

fun hkdf_T :: "hmac_fn \<Rightarrow> u8 list \<Rightarrow> u8 list \<Rightarrow> nat \<Rightarrow> u8 list" where
  "hkdf_T hmac secret info 0 = []"
| "hkdf_T hmac secret info (Suc n) = hmac secret (hkdf_T hmac secret info n @ info @ [of_nat (Suc n)])"

definition hkdf_ref :: "hmac_fn \<Rightarrow> u8 list \<Rightarrow> u8 list \<Rightarrow> nat \<Rightarrow> u8 list" where
  "hkdf_ref hmac secret info n = take n (concat (map (\<lambda>i. hkdf_T hmac secret info (Suc i)) [0..<(n + 31) div 32]))"

text \<open>The structure \<^verbatim>\<open>HkdfLabel\<close> of TLS 1.3 with the prefix of OpenVPN.\<close>

definition hkdf_label :: "u8 list \<Rightarrow> u8 list \<Rightarrow> nat \<Rightarrow> u8 list" where
  "hkdf_label label ctxt n =
     u16_be (of_nat n) @ [of_nat (5 + length label)] @ label_prefix @ label @ [of_nat (length ctxt)] @ ctxt"

definition digest32 :: "hmac_fn \<Rightarrow> bool" where
  "digest32 hmac \<longleftrightarrow> (\<forall>k m. length (hmac k m) = 32)"

lemma block_offset_eq: "1 \<le> k \<Longrightarrow> k \<le> 255 \<Longrightarrow> block_offset (of_nat k) = (k - 1) * 32"
proof -
  assume k: "1 \<le> k" "k \<le> 255"
  have "(ucast (of_nat k :: u8) - 1 :: u32) * 32 = of_nat ((k - 1) * 32)"
    using k by (simp add: unsigned_of_nat take_bit_nat_eq_self of_nat_diff)
  moreover have "(k - 1) * 32 < 2 ^ 32" using k by simp
  ultimately show ?thesis unfolding block_offset_def by (simp only: unat_of_nat) simp
qed

lemma block_offset_wrapped: "block_offset 0 = 2 ^ 32 - 32"
  by (simp add: block_offset_def)

definition hkdf_blocks :: "hmac_fn \<Rightarrow> u8 list \<Rightarrow> u8 list \<Rightarrow> nat \<Rightarrow> u8 list" where
  "hkdf_blocks hmac secret info k = concat (map (\<lambda>i. hkdf_T hmac secret info (Suc i)) [0..<k])"

lemma length_hkdf_blocks: "digest32 hmac \<Longrightarrow> length (hkdf_blocks hmac secret info k) = 32 * k"
  by (induction k) (auto simp: hkdf_blocks_def digest32_def)

lemma hkdf_blocks_Suc: "hkdf_blocks hmac secret info (Suc k) = hkdf_blocks hmac secret info k @ hkdf_T hmac secret info (Suc k)"
  by (simp add: hkdf_blocks_def)

text \<open>After \<open>k\<close> rounds the first \<open>k\<close> blocks, as far as they fit, are in the output.\<close>

definition hkdf_filled :: "hmac_fn \<Rightarrow> u8 list \<Rightarrow> u8 list \<Rightarrow> nat \<Rightarrow> u8 list \<Rightarrow> u8 list" where
  "hkdf_filled hmac secret info k out = take (length out) (hkdf_blocks hmac secret info k) @ drop (32 * k) out"

lemma hkdf_filled_step:
  assumes "digest32 hmac" and "32 * k < length out"
  shows "overwrite (hkdf_filled hmac secret info k out) (32 * k)
      (take (min 32 (length out - 32 * k)) (hkdf_T hmac secret info (Suc k))) = hkdf_filled hmac secret info (Suc k) out"
proof -
  define t where "t = hkdf_T hmac secret info (Suc k)"
  have t: "length t = 32" using assms(1) by (simp add: t_def digest32_def)
  have b: "length (hkdf_blocks hmac secret info k) = 32 * k" by (rule length_hkdf_blocks [OF assms(1)])
  have "overwrite (hkdf_filled hmac secret info k out) (32 * k) (take (min 32 (length out - 32 * k)) t)
      = hkdf_blocks hmac secret info k @ take (length out - 32 * k) t @ drop (32 * Suc k) out"
    using assms(2) b t by (auto simp: hkdf_filled_def overwrite_def min_def add.commute)
  moreover have "hkdf_filled hmac secret info (Suc k) out
      = hkdf_blocks hmac secret info k @ take (length out - 32 * k) t @ drop (32 * Suc k) out"
    using assms(2) b by (simp add: hkdf_filled_def hkdf_blocks_Suc t_def)
  ultimately show ?thesis by (simp add: t_def)
qed

lemma hkdf_loop_eq:
  assumes "digest32 hmac" and "length out \<le> 2 ^ 32 - 32" and "k \<le> 255" and "256 - k \<le> fuel"
    and "32 * k < length out + 32"
  shows "hkdf_loop fuel hmac secret info (length out) (of_nat (Suc k)) (hkdf_T hmac secret info k) (hkdf_filled hmac secret info k out)
    = Some (hkdf_filled hmac secret info (min 255 ((length out + 31) div 32)) out)"
  using assms(3-5)
proof (induction fuel arbitrary: k)
  case 0
  then show ?case by simp
next
  case (Suc fuel)
  show ?case
  proof (cases "k = 255")
    case True
    then have "min 255 ((length out + 31) div 32) = k" using Suc.prems by auto
    moreover have "block_offset (of_nat (Suc k)) = 2 ^ 32 - 32"
      using True block_offset_wrapped by (simp add: block_offset_def)
    ultimately show ?thesis using assms(2) by (simp del: of_nat_Suc)
  next
    case False
    then have off: "block_offset (of_nat (Suc k)) = 32 * k" using Suc.prems(1) block_offset_eq [of "Suc k"] by simp
    show ?thesis
    proof (cases "32 * k < length out")
      case True
      have "(of_nat (Suc k) + 1 :: u8) = of_nat (Suc (Suc k))" by simp
      moreover have "length (hkdf_filled hmac secret info k out) = length out"
        using True length_hkdf_blocks [OF assms(1)] by (simp add: hkdf_filled_def)
      ultimately show ?thesis
        using Suc.IH [of "Suc k"] Suc.prems False True hkdf_filled_step [OF assms(1) True, of secret info]
        by (simp only: hkdf_loop.simps off SHA256_DIGEST_LENGTH_def Let_def if_True hkdf_T.simps) auto
    next
      case full: False
      then have "(length out + 31) div 32 = k" using Suc.prems(3) by auto
      then show ?thesis using full off Suc.prems(1) by (simp only: hkdf_loop.simps) simp
    qed
  qed
qed

lemma ovpn_hkdf_expand_eq:
  assumes "digest32 hmac" and "length out \<le> 2 ^ 32 - 32" and "int (length info) \<le> INT_MAX"
  shows "ovpn_hkdf_expand hmac secret info out
    = Some (hkdf_filled hmac secret info (min 255 ((length out + 31) div 32)) out)"
  using hkdf_loop_eq [OF assms(1,2), of 0 256 secret info] assms(3)
  by (simp add: ovpn_hkdf_expand_def hkdf_filled_def hkdf_blocks_def)

lemma hkdf_filled_ref:
  assumes "digest32 hmac" and "length out \<le> 8160"
  shows "hkdf_filled hmac secret info (min 255 ((length out + 31) div 32)) out = hkdf_ref hmac secret info (length out)"
proof -
  have k: "min 255 ((length out + 31) div 32) = (length out + 31) div 32" using assms(2) by auto
  have "length out \<le> 32 * ((length out + 31) div 32)" by linarith
  then show ?thesis by (simp add: k hkdf_filled_def hkdf_ref_def hkdf_blocks_def)
qed

lemma alloc_buf_gc_room:
  assumes "0 < sz" and "sz < BUF_SIZE_MAX"
  obtains b where "alloc_buf_gc junk sz = Some b" "buf_wf b" "buf_content b = []" "\<And>n. has_room False b n \<longleftrightarrow> n \<le> sz"
proof -
  obtain b where b: "alloc_buf_gc junk sz = Some b" using alloc_buf_gc_total [of sz junk] assms by auto
  have "b_data b \<noteq> None" "b_offset b = 0" "b_len b = 0" "b_capacity b = sz"
    using b assms by (auto simp: alloc_buf_gc_def mem_write_def Let_def split: if_splits)
  then show ?thesis using that [OF b] alloc_buf_gc_wf [OF b] by (auto simp: has_room_def)
qed

text \<open>The label is written without loss, so the expansion gets the bytes of \<open>hkdf_label\<close>.\<close>

lemma ovpn_expand_label_eq:
  assumes "length secret = 32" and "1 \<le> length label" and "length label \<le> 250" and "length ctxt \<le> 255" and "length out \<le> 65535"
  shows "ovpn_expand_label hmac junk secret label ctxt out =
    map_option (Pair True) (ovpn_hkdf_expand hmac secret (hkdf_label label ctxt (length out)) out)"
proof -
  have lab: "label \<noteq> []" using assms(2) by auto
  define n where "n = 2 + 5 + 1 + length label + 1 + length ctxt"
  obtain b0 where b0: "alloc_buf_gc junk (int n) = Some b0" "buf_wf b0" "buf_content b0 = []" "\<And>m. has_room False b0 m \<longleftrightarrow> m \<le> int n"
    using alloc_buf_gc_room [of "int n" junk] assms by (auto simp: n_def BUF_SIZE_MAX_def)
  define b1 where "b1 = buf_appended b0 (u16_be (of_nat (length out)))"
  have b1: "buf_write b0 (u16_be (of_nat (length out))) = Some (True, b1)" "buf_wf b1" "buf_content b1 = u16_be (of_nat (length out))"
      "\<And>m. has_room False b1 m \<longleftrightarrow> 2 + m \<le> int n"
    using buf_write_room [OF b0(2), of "u16_be (of_nat (length out))"] b0 by (simp_all add: b1_def n_def)
  define b2 where "b2 = buf_appended b1 [5 + of_nat (length label)]"
  have b2: "buf_write b1 [5 + of_nat (length label)] = Some (True, b2)" "buf_wf b2"
      "buf_content b2 = u16_be (of_nat (length out)) @ [5 + of_nat (length label)]" "\<And>m. has_room False b2 m \<longleftrightarrow> 3 + m \<le> int n"
    using buf_write_room [OF b1(2), of "[5 + of_nat (length label)]"] b1 by (simp_all add: b2_def n_def)
  define b3 where "b3 = buf_appended b2 label_prefix"
  have b3: "buf_write b2 label_prefix = Some (True, b3)" "buf_wf b3"
      "buf_content b3 = u16_be (of_nat (length out)) @ [5 + of_nat (length label)] @ label_prefix" "\<And>m. has_room False b3 m \<longleftrightarrow> 8 + m \<le> int n"
    using buf_write_room [OF b2(2), of label_prefix] b2 by (simp_all add: b3_def n_def label_prefix_def)
  define b4 where "b4 = buf_appended b3 label"
  have b4: "buf_write b3 label = Some (True, b4)" "buf_wf b4"
      "buf_content b4 = u16_be (of_nat (length out)) @ [5 + of_nat (length label)] @ label_prefix @ label"
      "\<And>m. has_room False b4 m \<longleftrightarrow> 8 + int (length label) + m \<le> int n"
    using buf_write_room [OF b3(2), of label] b3 by (simp_all add: b4_def n_def)
  define b5 where "b5 = buf_appended b4 [of_nat (length ctxt)]"
  have b5: "buf_write b4 [of_nat (length ctxt)] = Some (True, b5)" "buf_wf b5"
      "buf_content b5 = u16_be (of_nat (length out)) @ [5 + of_nat (length label)] @ label_prefix @ label @ [of_nat (length ctxt)]"
      "\<And>m. has_room False b5 m \<longleftrightarrow> 9 + int (length label) + m \<le> int n"
    using buf_write_room [OF b4(2), of "[of_nat (length ctxt)]"] b4 by (simp_all add: b5_def n_def)
  define b6 where "b6 = (if ctxt \<noteq> [] then buf_appended b5 ctxt else b5)"
  have b6: "(if ctxt \<noteq> [] then buf_write b5 ctxt else Some (True, b5)) = Some (True, b6)" "buf_wf b6"
      "buf_content b6 = hkdf_label label ctxt (length out)"
    using buf_write_room [OF b5(2), of ctxt] b5 by (auto simp: b6_def n_def hkdf_label_def)
  have l: "length (hkdf_label label ctxt (length out)) = n" by (simp add: hkdf_label_def n_def label_prefix_def)
  then have len: "b_len b6 = int n" using length_buf_content [OF b6(2)] b6(3) by simp
  have info: "bptr_read b6 (int n) = Some (hkdf_label label ctxt (length out))"
    using bptr_read_all [OF b6(2)] len b6(3) by simp
  show ?thesis
    unfolding ovpn_expand_label_def Let_def n_def [symmetric]
    using assms(1,3-5) lab b0(1) b1(1) b2(1) b3(1) b4(1) b5(1) b6(1,2) len info
    by (cases "ovpn_hkdf_expand hmac secret (hkdf_label label ctxt (length out)) out")
      (simp_all add: buf_write_u16_def buf_write_u8_def del: bind_Some_iff)
qed

subsection \<open>The property\<close>

definition sample_hmac :: hmac_fn where
  "sample_hmac k m = take 32 (map2 (XOR) (k @ replicate 32 0) (m @ replicate 32 1) @ replicate 32 7)"

text \<open>
  C38: label expansion. For a secret of 32 bytes and admissible lengths \<^verbatim>\<open>ovpn_expand_label\<close> succeeds; up to 8160 bytes of
  output it gives the bytes that RFC 5869 defines for the encoded label. Beyond that, where the RFC
  has no output, it fills the first 8160 bytes and leaves the rest unchanged.
\<close>

theorem expand_label_rfc:
  assumes "digest32 hmac" and "length secret = 32" and "1 \<le> length label" and "length label \<le> 250" and "length ctxt \<le> 255"
    and "length out \<le> 65535"
  shows "ovpn_expand_label hmac junk secret label ctxt out =
    Some (True, if length out \<le> 8160 then hkdf_ref hmac secret (hkdf_label label ctxt (length out)) (length out)
      else hkdf_ref hmac secret (hkdf_label label ctxt (length out)) 8160 @ drop 8160 out)"
proof -
  define info where "info = hkdf_label label ctxt (length out)"
  have "int (length info) \<le> INT_MAX" using assms by (simp add: info_def hkdf_label_def label_prefix_def INT_MAX_def)
  then have r: "ovpn_expand_label hmac junk secret label ctxt out
      = Some (True, hkdf_filled hmac secret info (min 255 ((length out + 31) div 32)) out)"
    using ovpn_expand_label_eq [OF assms(2-6)] ovpn_hkdf_expand_eq [OF assms(1), of out info secret] assms(6)
    by (simp add: info_def)
  show ?thesis
  proof (cases "length out \<le> 8160")
    case True
    then show ?thesis using r hkdf_filled_ref [OF assms(1) True] by (simp add: info_def)
  next
    case False
    then have "min 255 ((length out + 31) div 32) = 255" by auto
    moreover have "hkdf_filled hmac secret info 255 out = hkdf_ref hmac secret info 8160 @ drop 8160 out"
      using False length_hkdf_blocks [OF assms(1), of secret info 255] by (simp add: hkdf_filled_def hkdf_ref_def hkdf_blocks_def)
    ultimately show ?thesis using r False by (simp add: info_def)
  qed
qed

lemma sample_hmac_digest: "digest32 sample_hmac"
  by (simp add: digest32_def sample_hmac_def)

theorem expand_label_rfc_witness:
  "ovpn_expand_label sample_hmac (\<lambda>_. 0) (replicate 32 1) [0x64] [] (replicate 40 0)
    = Some (True, hkdf_ref sample_hmac (replicate 32 1) (hkdf_label [0x64] [] 40) 40)"
  using expand_label_rfc [OF sample_hmac_digest, of "replicate 32 1" "[0x64]" "[]" "replicate 40 0" "\<lambda>_. 0"] by simp

end
