(* ===== verification/Epoch_Keys.thy ===== *)
theory Epoch_Keys
  imports Hkdf Packet_Id
begin

text \<open>
  Epoch data keys: \<^verbatim>\<open>crypto_epoch.c\<close> and the key contexts of \<^verbatim>\<open>crypto.h\<close> and \<^verbatim>\<open>crypto.c\<close>. Each direction has a chain of epoch keys; the key of an
  epoch gives the data key, and a peer moves to the next epoch without a message of its own. The receiver
  keeps the current key, the previous one and a fixed number of future ones. Here are the functions, as they act on \<^verbatim>\<open>struct crypto_options\<close>.

  The TLS library is represented by \<open>hmac\<close> and by what the code asks about a cipher: \<^verbatim>\<open>struct key_type\<close> holds these answers
  instead of the names of cipher and digest. A cipher context is the key it was set up with.
\<close>

unbundle bit_operations_syntax

subsection \<open>Key material\<close>

definition MAX_CIPHER_KEY_LENGTH :: nat where "MAX_CIPHER_KEY_LENGTH = 64"
definition MAX_HMAC_KEY_LENGTH :: nat where "MAX_HMAC_KEY_LENGTH = 64"
definition OPENVPN_MAX_IV_LENGTH :: nat where "OPENVPN_MAX_IV_LENGTH = 16"
definition OPENVPN_AEAD_MIN_IV_LEN :: nat where "OPENVPN_AEAD_MIN_IV_LEN = 12"
definition UINT16_MAX :: u16 where "UINT16_MAX = 0xffff"

lemmas key_consts = MAX_CIPHER_KEY_LENGTH_def MAX_HMAC_KEY_LENGTH_def OPENVPN_MAX_IV_LENGTH_def
  OPENVPN_AEAD_MIN_IV_LEN_def UINT16_MAX_def

record key_type =
  kt_cipher_defined :: bool
  kt_aead :: bool
  kt_chacha :: bool
  kt_key_size :: nat
  kt_iv_size :: nat
  kt_block_size :: nat
  kt_md_size :: "nat option"

record key_parameters =
  kp_cipher :: "u8 list"
  kp_cipher_size :: nat
  kp_hmac :: "u8 list"
  kp_hmac_size :: nat
  kp_epoch :: u16

record epoch_key =
  ek_key :: "u8 list"
  ek_epoch :: u16

record cipher_ctx =
  cc_type :: key_type
  cc_key :: "u8 list"

record key_ctx =
  kc_cipher :: "cipher_ctx option"
  kc_hmac :: "u8 list option"
  kc_implicit_iv :: "u8 list"
  kc_plaintext_blocks :: u64
  kc_failed_verifications :: u64
  kc_epoch :: u16

record crypto_options =
  co_encrypt :: key_ctx
  co_decrypt :: key_ctx
  co_initialized :: bool
  co_epoch_key_send :: epoch_key
  co_epoch_key_recv :: epoch_key
  co_epoch_key_type :: key_type
  co_aead_usage_limit :: u64
  co_epoch_data_keys_future :: "key_ctx list"
  co_epoch_data_keys_future_count :: u16
  co_epoch_retiring_data_receive_key :: key_ctx
  co_epoch_retiring_key_pid_recv :: packet_id_rec
  co_packet_id :: packet_id
  co_pid_persist :: "packet_id_persist option"
  co_packet_id_long_form :: bool

definition cleared_key_ctx :: key_ctx where
  "cleared_key_ctx = \<lparr>kc_cipher = None, kc_hmac = None, kc_implicit_iv = replicate OPENVPN_MAX_IV_LENGTH 0,
     kc_plaintext_blocks = 0, kc_failed_verifications = 0, kc_epoch = 0\<rparr>"

definition cleared_key_parameters :: key_parameters where
  "cleared_key_parameters = \<lparr>kp_cipher = replicate MAX_CIPHER_KEY_LENGTH 0, kp_cipher_size = 0,
     kp_hmac = replicate MAX_HMAC_KEY_LENGTH 0, kp_hmac_size = 0, kp_epoch = 0\<rparr>"

definition free_key_ctx :: "key_ctx \<Rightarrow> key_ctx" where
  "free_key_ctx ctx = ctx\<lparr>kc_cipher := None, kc_hmac := None, kc_implicit_iv := replicate OPENVPN_MAX_IV_LENGTH 0,
     kc_plaintext_blocks := 0, kc_epoch := 0\<rparr>"

definition init_key_ctx :: "key_parameters \<Rightarrow> key_type \<Rightarrow> key_ctx option" where
  "init_key_ctx key kt = do {
     let c0 = cleared_key_ctx;
     c1 \<leftarrow> (if kt_cipher_defined kt
            then do {
              assertion (kp_cipher_size key \<ge> kt_key_size kt);
              Some (c0\<lparr>kc_cipher := Some \<lparr>cc_type = kt, cc_key = take (kt_key_size kt) (kp_cipher key)\<rparr>\<rparr>) }
            else Some c0);
     c2 \<leftarrow> (case kt_md_size kt of
              None \<Rightarrow> Some c1
            | Some n \<Rightarrow> do {
                assertion (kp_hmac_size key \<ge> n);
                Some (c1\<lparr>kc_hmac := Some (take n (kp_hmac key))\<rparr>) });
     Some (c2\<lparr>kc_epoch := kp_epoch key\<rparr>) }"

definition cipher_ctx_mode_aead :: "cipher_ctx option \<Rightarrow> bool" where
  "cipher_ctx_mode_aead c = (case c of None \<Rightarrow> False | Some x \<Rightarrow> kt_aead (cc_type x))"

definition key_ctx_update_implicit_iv :: "key_ctx \<Rightarrow> key_parameters \<Rightarrow> key_ctx option" where
  "key_ctx_update_implicit_iv ctx key =
     (if cipher_ctx_mode_aead (kc_cipher ctx)
      then do {
        c \<leftarrow> kc_cipher ctx;
        let iv_length = kt_iv_size (cc_type c);
        assertion (iv_length \<ge> OPENVPN_AEAD_MIN_IV_LEN);
        let (impl_iv_len, impl_iv_offset) = (if kp_epoch key \<noteq> 0 then (iv_length, 0) else (iv_length - 4, 4));
        assertion (impl_iv_offset + impl_iv_len \<le> OPENVPN_MAX_IV_LENGTH);
        assertion (impl_iv_len \<le> MAX_HMAC_KEY_LENGTH);
        assertion (impl_iv_len \<le> kp_hmac_size key);
        Some (ctx\<lparr>kc_implicit_iv :=
          overwrite (replicate OPENVPN_MAX_IV_LENGTH 0) impl_iv_offset (take impl_iv_len (kp_hmac key))\<rparr>) }
      else Some ctx)"

definition init_key_bi_ctx_send :: "key_parameters \<Rightarrow> key_type \<Rightarrow> key_ctx option" where
  "init_key_bi_ctx_send key_params kt = do {
     c \<leftarrow> init_key_ctx key_params kt;
     c1 \<leftarrow> key_ctx_update_implicit_iv c key_params;
     Some (c1\<lparr>kc_epoch := kp_epoch key_params\<rparr>) }"

definition init_key_bi_ctx_recv :: "key_parameters \<Rightarrow> key_type \<Rightarrow> key_ctx option" where
  "init_key_bi_ctx_recv key_params kt = do {
     c \<leftarrow> init_key_ctx key_params kt;
     c1 \<leftarrow> key_ctx_update_implicit_iv c key_params;
     Some (c1\<lparr>kc_epoch := kp_epoch key_params\<rparr>) }"

definition cipher_get_aead_limits :: "key_type \<Rightarrow> u64" where
  "cipher_get_aead_limits kt = (if \<not> kt_aead kt then 0 else if kt_chacha kt then 0 else push_bit 36 1 - 1)"

definition cipher_decrypt_verify_fail_exceeded :: "key_ctx \<Rightarrow> bool" where
  "cipher_decrypt_verify_fail_exceeded ctx \<longleftrightarrow> kc_failed_verifications ctx > push_bit 36 1"

definition cipher_decrypt_verify_fail_warn :: "key_ctx \<Rightarrow> bool" where
  "cipher_decrypt_verify_fail_warn ctx \<longleftrightarrow> kc_failed_verifications ctx > push_bit 35 1"

definition aead_usage_limit_reached :: "u64 \<Rightarrow> key_ctx \<Rightarrow> u64 \<Rightarrow> bool" where
  "aead_usage_limit_reached limit key_ctx higest_pid \<longleftrightarrow> limit > 0 \<and> kc_plaintext_blocks key_ctx + higest_pid > limit"

subsection \<open>The chain of epoch keys\<close>

definition bytes_of :: "string \<Rightarrow> u8 list" where
  "bytes_of s = map of_char s"

definition epoch_key_iterate :: "hmac_fn \<Rightarrow> (nat \<Rightarrow> u8) \<Rightarrow> epoch_key \<Rightarrow> epoch_key option" where
  "epoch_key_iterate hmac junk ek = do {
     (_, k) \<leftarrow> ovpn_expand_label hmac junk (ek_key ek) (bytes_of ''datakey upd'') [] (replicate SHA256_DIGEST_LENGTH 0);
     Some \<lparr>ek_key = k, ek_epoch = ek_epoch ek + 1\<rparr> }"

text \<open>The output is written to the front of the arrays of \<open>key\<close>; more bytes than an array has fault.\<close>

definition epoch_data_key_derive ::
  "hmac_fn \<Rightarrow> (nat \<Rightarrow> u8) \<Rightarrow> key_parameters \<Rightarrow> epoch_key \<Rightarrow> key_type \<Rightarrow> key_parameters option" where
  "epoch_data_key_derive hmac junk key ek kt = do {
     let k0 = key\<lparr>kp_hmac_size := kt_iv_size kt, kp_cipher_size := kt_key_size kt\<rparr>;
     assertion (kp_cipher_size k0 \<le> length (kp_cipher k0));
     (_, c) \<leftarrow> ovpn_expand_label hmac junk (ek_key ek) (bytes_of ''data_key'') [] (take (kp_cipher_size k0) (kp_cipher k0));
     let k1 = k0\<lparr>kp_cipher := overwrite (kp_cipher k0) 0 c\<rparr>;
     assertion (kp_hmac_size k1 \<le> length (kp_hmac k1));
     (_, h) \<leftarrow> ovpn_expand_label hmac junk (ek_key ek) (bytes_of ''data_iv'') [] (take (kp_hmac_size k1) (kp_hmac k1));
     Some (k1\<lparr>kp_hmac := overwrite (kp_hmac k1) 0 h, kp_epoch := ek_epoch ek\<rparr>) }"

definition epoch_init_send_key_ctx :: "hmac_fn \<Rightarrow> (nat \<Rightarrow> u8) \<Rightarrow> crypto_options \<Rightarrow> crypto_options option" where
  "epoch_init_send_key_ctx hmac junk co = do {
     assertion (kc_epoch (co_encrypt co) \<noteq> ek_epoch (co_epoch_key_send co));
     send_key \<leftarrow> epoch_data_key_derive hmac junk cleared_key_parameters (co_epoch_key_send co) (co_epoch_key_type co);
     c \<leftarrow> init_key_bi_ctx_send send_key (co_epoch_key_type co);
     let pid = co_packet_id co;
     Some (co\<lparr>co_encrypt := c, co_packet_id := pid\<lparr>p_send := reset_packet_id_send (p_send pid)\<rparr>\<rparr>) }"

definition epoch_init_recv_key :: "hmac_fn \<Rightarrow> (nat \<Rightarrow> u8) \<Rightarrow> crypto_options \<Rightarrow> key_ctx option" where
  "epoch_init_recv_key hmac junk co = do {
     recv_key \<leftarrow> epoch_data_key_derive hmac junk cleared_key_parameters (co_epoch_key_recv co) (co_epoch_key_type co);
     init_key_bi_ctx_recv recv_key (co_epoch_key_type co) }"

subsection \<open>Future receive keys\<close>

definition free_old_key :: "u16 \<Rightarrow> key_ctx \<Rightarrow> key_ctx" where
  "free_old_key current k = (if kc_epoch k > 0 \<and> kc_epoch k < current then free_key_ctx k else k)"

primrec generate_loop :: "hmac_fn \<Rightarrow> (nat \<Rightarrow> u8) \<Rightarrow> nat list \<Rightarrow> crypto_options \<Rightarrow> crypto_options option" where
  "generate_loop hmac junk [] co = Some co"
| "generate_loop hmac junk (i # is) co = do {
     ek \<leftarrow> epoch_key_iterate hmac junk (co_epoch_key_recv co);
     let co1 = co\<lparr>co_epoch_key_recv := ek\<rparr>;
     k \<leftarrow> epoch_init_recv_key hmac junk co1;
     generate_loop hmac junk is
       (co1\<lparr>co_epoch_data_keys_future := (co_epoch_data_keys_future co1)[i := k]\<rparr>) }"

text \<open>
  The array has \<^verbatim>\<open>epoch_data_keys_future_count\<close> elements; an access outside it faults, which is why the number of elements must
  not be 0 and the number of keys to generate not larger than it. Sums of epochs are 16-bit words.
\<close>

definition epoch_generate_future_receive_keys :: "hmac_fn \<Rightarrow> (nat \<Rightarrow> u8) \<Rightarrow> crypto_options \<Rightarrow> crypto_options option" where
  "epoch_generate_future_receive_keys hmac junk co = do {
     assertion (co_initialized co);
     let current_decrypt_epoch = kc_epoch (co_decrypt co);
     let count = unat (co_epoch_data_keys_future_count co);
     let keys = co_epoch_data_keys_future co;
     assertion (0 < count \<and> length keys = count);
     assertion (ek_epoch (co_epoch_key_recv co) = 1 \<or> kc_epoch (keys ! (count - 1)) = ek_epoch (co_epoch_key_recv co)
       \<or> current_decrypt_epoch = ek_epoch (co_epoch_key_recv co));
     let keys1 = map (free_old_key current_decrypt_epoch) keys;
     let current_highest_key = ek_epoch (co_epoch_key_recv co);
     assertion (current_highest_key = kc_epoch (keys1 ! (count - 1)) \<or> current_highest_key = current_decrypt_epoch);
     let desired_highest_key = current_decrypt_epoch + co_epoch_data_keys_future_count co;
     let num = unat (desired_highest_key - current_highest_key);
     assertion (num \<le> count);
     assertion (list_all (\<lambda>k. kc_epoch k = 0) (take num keys1));
     let keys2 = drop num keys1 @ drop (count - num) keys1;
     co1 \<leftarrow> generate_loop hmac junk [count - num..<count] (co\<lparr>co_epoch_data_keys_future := keys2\<rparr>);
     assertion (list_all (\<lambda>k. kc_epoch k > 0) (co_epoch_data_keys_future co1));
     Some co1 }"

subsection \<open>Changing keys\<close>

definition epoch_iterate_send_key :: "hmac_fn \<Rightarrow> (nat \<Rightarrow> u8) \<Rightarrow> crypto_options \<Rightarrow> crypto_options option" where
  "epoch_iterate_send_key hmac junk co = do {
     assertion (ek_epoch (co_epoch_key_send co) < UINT16_MAX);
     ek \<leftarrow> epoch_key_iterate hmac junk (co_epoch_key_send co);
     epoch_init_send_key_ctx hmac junk (co\<lparr>co_encrypt := free_key_ctx (co_encrypt co), co_epoch_key_send := ek\<rparr>) }"

text \<open>The loop that brings the sending epoch key up to the new epoch; \<open>2 ^ 16\<close> rounds are enough for a 16-bit epoch.\<close>

fun iterate_send_to :: "nat \<Rightarrow> hmac_fn \<Rightarrow> (nat \<Rightarrow> u8) \<Rightarrow> u16 \<Rightarrow> epoch_key \<Rightarrow> epoch_key option" where
  "iterate_send_to 0 hmac junk new_epoch ek = None"
| "iterate_send_to (Suc fuel) hmac junk new_epoch ek =
     (if ek_epoch ek < new_epoch
      then do { ek1 \<leftarrow> epoch_key_iterate hmac junk ek; iterate_send_to fuel hmac junk new_epoch ek1 }
      else Some ek)"

fun find_future :: "u16 \<Rightarrow> key_ctx list \<Rightarrow> nat option" where
  "find_future e [] = None"
| "find_future e (k # ks) = (if kc_epoch k = e then Some 0 else map_option Suc (find_future e ks))"

definition epoch_replace_update_recv_key ::
  "hmac_fn \<Rightarrow> (nat \<Rightarrow> u8) \<Rightarrow> crypto_options \<Rightarrow> u16 \<Rightarrow> crypto_options option" where
  "epoch_replace_update_recv_key hmac junk co new_epoch = do {
     fki \<leftarrow> find_future new_epoch (co_epoch_data_keys_future co);
     let new_ctx = co_epoch_data_keys_future co ! fki;
     co1 \<leftarrow> (if kc_epoch (co_encrypt co) < new_epoch
             then do {
               ek \<leftarrow> iterate_send_to (2 ^ 16) hmac junk new_epoch (co_epoch_key_send co);
               epoch_init_send_key_ctx hmac junk
                 (co\<lparr>co_encrypt := free_key_ctx (co_encrypt co), co_epoch_key_send := ek\<rparr>) }
             else Some co);
     let pid = co_packet_id co1;
     (ret, rcv) \<leftarrow> packet_id_move_recv (co_epoch_retiring_key_pid_recv co1) (p_rec pid);
     epoch_generate_future_receive_keys hmac junk
       (co1\<lparr>co_epoch_retiring_data_receive_key := co_decrypt co1,
            co_epoch_retiring_key_pid_recv := ret,
            co_packet_id := pid\<lparr>p_rec := rcv\<rparr>,
            co_decrypt := new_ctx,
            co_epoch_data_keys_future := (co_epoch_data_keys_future co1)[fki := cleared_key_ctx]\<rparr>) }"

definition cleared_epoch_key :: epoch_key where
  "cleared_epoch_key = \<lparr>ek_key = replicate SHA256_DIGEST_LENGTH 0, ek_epoch = 0\<rparr>"

definition free_epoch_key_ctx :: "crypto_options \<Rightarrow> crypto_options" where
  "free_epoch_key_ctx co = co\<lparr>co_epoch_data_keys_future := [],
     co_epoch_retiring_data_receive_key := free_key_ctx (co_epoch_retiring_data_receive_key co),
     co_epoch_retiring_key_pid_recv := (co_epoch_retiring_key_pid_recv co)\<lparr>r_seq_list := None\<rparr>,
     co_epoch_key_recv := cleared_epoch_key, co_epoch_key_send := cleared_epoch_key\<rparr>"

definition epoch_init_key_ctx ::
  "hmac_fn \<Rightarrow> (nat \<Rightarrow> u8) \<Rightarrow> crypto_options \<Rightarrow> key_type \<Rightarrow> epoch_key \<Rightarrow> epoch_key \<Rightarrow> u16 \<Rightarrow> crypto_options option" where
  "epoch_init_key_ctx hmac junk co key_type e1_send e1_recv future_key_count = do {
     assertion (ek_epoch e1_send = 1 \<and> ek_epoch e1_recv = 1);
     let co1 = co\<lparr>co_epoch_key_recv := e1_recv, co_epoch_key_send := e1_send, co_epoch_key_type := key_type,
                 co_aead_usage_limit := cipher_get_aead_limits key_type\<rparr>;
     co2 \<leftarrow> epoch_init_send_key_ctx hmac junk co1;
     k \<leftarrow> epoch_init_recv_key hmac junk co2;
     epoch_generate_future_receive_keys hmac junk
       (co2\<lparr>co_decrypt := k, co_initialized := True, co_epoch_data_keys_future_count := future_key_count,
            co_epoch_data_keys_future := replicate (unat future_key_count) cleared_key_ctx\<rparr>) }"

subsection \<open>Using keys\<close>

text \<open>The function returns a pointer into the structure: which of its key contexts.\<close>

datatype key_slot = Current_key | Retiring_key | Future_key nat

fun slot_ctx :: "crypto_options \<Rightarrow> key_slot \<Rightarrow> key_ctx" where
  "slot_ctx opt Current_key = co_decrypt opt"
| "slot_ctx opt Retiring_key = co_epoch_retiring_data_receive_key opt"
| "slot_ctx opt (Future_key i) = co_epoch_data_keys_future opt ! i"

definition epoch_lookup_decrypt_key :: "crypto_options \<Rightarrow> u16 \<Rightarrow> key_slot option" where
  "epoch_lookup_decrypt_key opt epoch =
     (let d = uint (kc_epoch (co_decrypt opt)); count = uint (co_epoch_data_keys_future_count opt)
      in if kc_epoch (co_decrypt opt) = epoch then Some Current_key
         else if kc_epoch (co_epoch_retiring_data_receive_key opt) \<noteq> 0
                 \<and> kc_epoch (co_epoch_retiring_data_receive_key opt) = epoch then Some Retiring_key
         else if epoch > kc_epoch (co_decrypt opt) \<and> uint epoch \<le> d + count
         then if uint epoch > 65535 - count - 1 then None else Some (Future_key (nat (uint epoch - (d + 1))))
         else None)"

definition epoch_check_send_iterate :: "hmac_fn \<Rightarrow> (nat \<Rightarrow> u8) \<Rightarrow> crypto_options \<Rightarrow> crypto_options option" where
  "epoch_check_send_iterate hmac junk opt =
     (if ek_epoch (co_epoch_key_send opt) = UINT16_MAX then Some opt
      else do {
        opt1 \<leftarrow> (if co_aead_usage_limit opt \<noteq> 0
          then if aead_usage_limit_reached (co_aead_usage_limit opt) (co_encrypt opt) (s_id (p_send (co_packet_id opt)))
            then epoch_iterate_send_key hmac junk opt
            else if kc_epoch (co_encrypt opt) = kc_epoch (co_decrypt opt)
                    \<and> (aead_usage_limit_reached (co_aead_usage_limit opt) (co_decrypt opt) (r_id (p_rec (co_packet_id opt)))
                       \<or> cipher_decrypt_verify_fail_warn (co_decrypt opt))
            then epoch_iterate_send_key hmac junk opt
            else Some opt
          else Some opt);
        if s_id (p_send (co_packet_id opt1)) = PACKET_ID_EPOCH_MAX then epoch_iterate_send_key hmac junk opt1
        else Some opt1 })"

definition crypto_check_replay ::
  "hmac_fn \<Rightarrow> (nat \<Rightarrow> u8) \<Rightarrow> time_t \<Rightarrow> crypto_options \<Rightarrow> packet_id_net \<Rightarrow> u16 \<Rightarrow> (bool \<times> crypto_options) option" where
  "crypto_check_replay hmac junk now opt pin epoch =
     (if epoch \<noteq> 0 \<and> kc_epoch (co_decrypt opt) \<noteq> epoch \<and> epoch = kc_epoch (co_epoch_retiring_data_receive_key opt)
      then do {
        (ok, r) \<leftarrow> replay_check now (co_epoch_retiring_key_pid_recv opt) pin;
        let opt1 = opt\<lparr>co_epoch_retiring_key_pid_recv := r\<rparr>;
        Some (ok, if ok \<and> co_packet_id_long_form opt1
          then opt1\<lparr>co_pid_persist := map_option (\<lambda>pp. packet_id_persist_save_obj pp (co_packet_id opt1)) (co_pid_persist opt1)\<rparr>
          else opt1) }
      else do {
        opt0 \<leftarrow> (if epoch = 0 \<or> kc_epoch (co_decrypt opt) = epoch then Some opt
                 else epoch_replace_update_recv_key hmac junk opt epoch);
        (ok, r) \<leftarrow> replay_check now (p_rec (co_packet_id opt0)) pin;
        let opt1 = opt0\<lparr>co_packet_id := (co_packet_id opt0)\<lparr>p_rec := r\<rparr>\<rparr>;
        Some (ok, if ok \<and> co_packet_id_long_form opt1
          then opt1\<lparr>co_pid_persist := map_option (\<lambda>pp. packet_id_persist_save_obj pp (co_packet_id opt1)) (co_pid_persist opt1)\<rparr>
          else opt1) })"

end
