(* ===== verification/Epoch_Inv.thy ===== *)
theory Epoch_Inv
  imports Epoch_Keys
begin

text \<open>
  The invariant of the epoch keys. In every state that the code reaches, each key context of the receiver holds the key of its place in the
  chain that starts at the first epoch key, the sender uses the key of its own chain and is never behind the receiver, and
  no assertion of \<^verbatim>\<open>crypto_epoch.c\<close> fails.
\<close>

subsection \<open>The chain\<close>

definition next_epoch_key :: "hmac_fn \<Rightarrow> u8 list \<Rightarrow> u8 list" where
  "next_epoch_key hmac k = hkdf_ref hmac k (hkdf_label (bytes_of ''datakey upd'') [] 32) 32"

definition chain_key :: "hmac_fn \<Rightarrow> u8 list \<Rightarrow> nat \<Rightarrow> u8 list" where
  "chain_key hmac k1 n = (next_epoch_key hmac ^^ (n - 1)) k1"

definition epoch_key_at :: "hmac_fn \<Rightarrow> u8 list \<Rightarrow> nat \<Rightarrow> epoch_key" where
  "epoch_key_at hmac k1 n = \<lparr>ek_key = chain_key hmac k1 n, ek_epoch = of_nat n\<rparr>"

text \<open>The data key of an epoch, as a fresh key context.\<close>

definition data_key_at :: "hmac_fn \<Rightarrow> key_type \<Rightarrow> u8 list \<Rightarrow> nat \<Rightarrow> key_ctx" where
  "data_key_at hmac kt k1 n =
     (let k = chain_key hmac k1 n
      in \<lparr>kc_cipher = Some \<lparr>cc_type = kt, cc_key = hkdf_ref hmac k (hkdf_label (bytes_of ''data_key'') [] (kt_key_size kt)) (kt_key_size kt)\<rparr>,
          kc_hmac = None,
          kc_implicit_iv = overwrite (replicate 16 0) 0
            (hkdf_ref hmac k (hkdf_label (bytes_of ''data_iv'') [] (kt_iv_size kt)) (kt_iv_size kt)),
          kc_plaintext_blocks = 0, kc_failed_verifications = 0, kc_epoch = of_nat n\<rparr>)"

text \<open>What the code relies on for an AEAD cipher: key and IV fit into their arrays, and there is no separate digest.\<close>

definition aead_type :: "key_type \<Rightarrow> bool" where
  "aead_type kt \<longleftrightarrow> kt_cipher_defined kt \<and> kt_aead kt \<and> kt_key_size kt \<le> 64 \<and> 12 \<le> kt_iv_size kt \<and> kt_iv_size kt \<le> 16
     \<and> kt_md_size kt = None"

lemma length_hkdf_ref: "digest32 hmac \<Longrightarrow> length (hkdf_ref hmac k info n) = n"
proof -
  assume d: "digest32 hmac"
  have "n \<le> 32 * ((n + 31) div 32)" by linarith
  then show ?thesis
    using length_hkdf_blocks [OF d, of k info "(n + 31) div 32"] by (simp add: hkdf_ref_def hkdf_blocks_def)
qed

lemma length_chain_key:
  assumes "digest32 hmac" and "length k1 = 32"
  shows "length (chain_key hmac k1 n) = 32"
  using assms by (cases "n - 1") (simp_all add: chain_key_def next_epoch_key_def length_hkdf_ref)

lemma length_bytes_of [simp]: "length (bytes_of s) = length s"
  by (simp add: bytes_of_def)

lemma expand_label_ref:
  assumes "digest32 hmac" and "length secret = 32" and "1 \<le> length label" and "length label \<le> 250" and "length out \<le> 8160"
  shows "ovpn_expand_label hmac junk secret label [] out
    = Some (True, hkdf_ref hmac secret (hkdf_label label [] (length out)) (length out))"
proof -
  have "int (length (hkdf_label label [] (length out))) \<le> INT_MAX"
    using assms(4) by (simp add: hkdf_label_def label_prefix_def INT_MAX_def)
  then show ?thesis
    using ovpn_expand_label_eq [OF assms(2-4), of "[]" out hmac junk] assms(5) hkdf_filled_ref [OF assms(1,5)]
      ovpn_hkdf_expand_eq [OF assms(1), of out "hkdf_label label [] (length out)" secret] by simp
qed

lemma epoch_key_iterate_at:
  assumes "digest32 hmac" and "length k1 = 32" and "1 \<le> n"
  shows "epoch_key_iterate hmac junk (epoch_key_at hmac k1 n) = Some (epoch_key_at hmac k1 (Suc n))"
proof -
  have "chain_key hmac k1 (Suc n) = next_epoch_key hmac (chain_key hmac k1 n)"
    using assms(3) by (cases n) (simp_all add: chain_key_def)
  then show ?thesis
    using expand_label_ref [OF assms(1) length_chain_key [OF assms(1,2)], of "bytes_of ''datakey upd''" "replicate 32 0" junk n]
    by (simp add: epoch_key_iterate_def epoch_key_at_def next_epoch_key_def SHA256_DIGEST_LENGTH_def add.commute)
qed

lemma data_key_init:
  assumes "digest32 hmac" and "length k1 = 32" and "aead_type kt" and "(of_nat n :: u16) \<noteq> 0"
  shows "do { key \<leftarrow> epoch_data_key_derive hmac junk cleared_key_parameters (epoch_key_at hmac k1 n) kt; init_key_bi_ctx_send key kt }
      = Some (data_key_at hmac kt k1 n)"
    and "do { key \<leftarrow> epoch_data_key_derive hmac junk cleared_key_parameters (epoch_key_at hmac k1 n) kt; init_key_bi_ctx_recv key kt }
      = Some (data_key_at hmac kt k1 n)"
proof -
  define k where "k = chain_key hmac k1 n"
  define c where "c = hkdf_ref hmac k (hkdf_label (bytes_of ''data_key'') [] (kt_key_size kt)) (kt_key_size kt)"
  define h where "h = hkdf_ref hmac k (hkdf_label (bytes_of ''data_iv'') [] (kt_iv_size kt)) (kt_iv_size kt)"
  have k: "length k = 32" by (simp add: k_def length_chain_key assms)
  have kt: "kt_key_size kt \<le> 64" "12 \<le> kt_iv_size kt" "kt_iv_size kt \<le> 16" "kt_cipher_defined kt" "kt_aead kt" "kt_md_size kt = None"
    using assms(3) by (auto simp: aead_type_def)
  have len: "length c = kt_key_size kt" "length h = kt_iv_size kt" by (simp_all add: c_def h_def length_hkdf_ref assms(1))
  have e1: "ovpn_expand_label hmac junk k (bytes_of ''data_key'') [] (replicate (kt_key_size kt) 0) = Some (True, c)"
    and e2: "ovpn_expand_label hmac junk k (bytes_of ''data_iv'') [] (replicate (kt_iv_size kt) 0) = Some (True, h)"
    using expand_label_ref [OF assms(1) k] kt by (simp_all add: c_def h_def)
  have d: "epoch_data_key_derive hmac junk cleared_key_parameters (epoch_key_at hmac k1 n) kt =
      Some \<lparr>kp_cipher = overwrite (replicate 64 0) 0 c, kp_cipher_size = kt_key_size kt,
        kp_hmac = overwrite (replicate 64 0) 0 h, kp_hmac_size = kt_iv_size kt, kp_epoch = of_nat n\<rparr>"
    using e1 e2 kt by (simp add: epoch_data_key_derive_def epoch_key_at_def k_def [symmetric] cleared_key_parameters_def key_consts
        min_def del: bind_Some_iff)
  have "take (kt_key_size kt) (overwrite (replicate 64 0) 0 c) = c" "take (kt_iv_size kt) (overwrite (replicate 64 0) 0 h) = h"
    using len by (simp_all add: overwrite_def)
  then show "do { key \<leftarrow> epoch_data_key_derive hmac junk cleared_key_parameters (epoch_key_at hmac k1 n) kt; init_key_bi_ctx_send key kt }
      = Some (data_key_at hmac kt k1 n)"
    and "do { key \<leftarrow> epoch_data_key_derive hmac junk cleared_key_parameters (epoch_key_at hmac k1 n) kt; init_key_bi_ctx_recv key kt }
      = Some (data_key_at hmac kt k1 n)"
    using d kt assms(4)
    by (simp_all add: init_key_bi_ctx_send_def init_key_bi_ctx_recv_def init_key_ctx_def key_ctx_update_implicit_iv_def cipher_ctx_mode_aead_def
        cleared_key_ctx_def key_consts data_key_at_def k_def [symmetric] c_def [symmetric] h_def [symmetric] Let_def del: bind_Some_iff)
qed

subsection \<open>Setting up one key\<close>

definition same_key :: "key_ctx \<Rightarrow> key_ctx \<Rightarrow> bool" where
  "same_key a b \<longleftrightarrow> kc_cipher a = kc_cipher b \<and> kc_hmac a = kc_hmac b \<and> kc_implicit_iv a = kc_implicit_iv b \<and> kc_epoch a = kc_epoch b"

lemma same_key_refl [simp]: "same_key a a"
  by (simp add: same_key_def)

lemma kc_epoch_data_key_at [simp]: "kc_epoch (data_key_at hmac kt k1 n) = of_nat n"
  by (simp add: data_key_at_def Let_def)

lemma ek_epoch_at [simp]: "ek_epoch (epoch_key_at hmac k1 n) = of_nat n"
  by (simp add: epoch_key_at_def)

text \<open>Epochs up to 65535 are faithful as 16-bit words.\<close>

lemma u16_of_nat:
  assumes "a \<le> 65535" and "b \<le> 65535"
  shows "unat (of_nat a :: u16) = a" and "(of_nat a :: u16) = of_nat b \<longleftrightarrow> a = b"
    and "(of_nat a :: u16) < of_nat b \<longleftrightarrow> a < b" and "(of_nat a :: u16) = 0 \<longleftrightarrow> a = 0" and "(0 :: u16) < of_nat a \<longleftrightarrow> 0 < a"
proof -
  have u: "unat (of_nat n :: u16) = n" if "n \<le> 65535" for n using that by (simp add: unat_of_nat)
  show "unat (of_nat a :: u16) = a" by (rule u [OF assms(1)])
  show "(of_nat a :: u16) = of_nat b \<longleftrightarrow> a = b" using u [OF assms(1)] u [OF assms(2)] by metis
  show "(of_nat a :: u16) < of_nat b \<longleftrightarrow> a < b"
    unfolding word_less_nat_alt by (simp only: u [OF assms(1)] u [OF assms(2)])
  show "(of_nat a :: u16) = 0 \<longleftrightarrow> a = 0" by (simp only: unat_eq_zero [symmetric] u [OF assms(1)])
  show "(0 :: u16) < of_nat a \<longleftrightarrow> 0 < a" unfolding word_less_nat_alt by (simp only: u [OF assms(1)] unat_0)
qed

lemma u16_of_nat_unat [simp]: "of_nat (unat w) = w" for w :: u16
  by simp

lemma epoch_init_send_key_ctx_at:
  assumes "digest32 hmac" and "length ks = 32" and "aead_type (co_epoch_key_type co)"
    and "co_epoch_key_send co = epoch_key_at hmac ks s" and "1 \<le> s" and "s \<le> 65535" and "kc_epoch (co_encrypt co) \<noteq> of_nat s"
  shows "epoch_init_send_key_ctx hmac junk co = Some (co\<lparr>co_encrypt := data_key_at hmac (co_epoch_key_type co) ks s,
    co_packet_id := (co_packet_id co)\<lparr>p_send := reset_packet_id_send (p_send (co_packet_id co))\<rparr>\<rparr>)"
proof -
  have "(of_nat s :: u16) \<noteq> 0" using u16_of_nat(4) [of s] assms(5,6) by simp
  then obtain key where "epoch_data_key_derive hmac junk cleared_key_parameters (epoch_key_at hmac ks s) (co_epoch_key_type co) = Some key"
      "init_key_bi_ctx_send key (co_epoch_key_type co) = Some (data_key_at hmac (co_epoch_key_type co) ks s)"
    using data_key_init(1) [OF assms(1-3), of s junk] by auto
  then show ?thesis using assms(4,7) by (simp add: epoch_init_send_key_ctx_def Let_def del: bind_Some_iff)
qed

lemma epoch_init_recv_key_at:
  assumes "digest32 hmac" and "length kr = 32" and "aead_type (co_epoch_key_type co)"
    and "co_epoch_key_recv co = epoch_key_at hmac kr r" and "1 \<le> r" and "r \<le> 65535"
  shows "epoch_init_recv_key hmac junk co = Some (data_key_at hmac (co_epoch_key_type co) kr r)"
  using data_key_init(2) [OF assms(1-3), of r junk] assms(4-6) u16_of_nat(4) [of r] by (simp add: epoch_init_recv_key_def)

subsection \<open>Generating future keys\<close>

lemma generate_loop_at:
  assumes "digest32 hmac" and "length kr = 32" and "aead_type (co_epoch_key_type co)"
    and "co_epoch_key_recv co = epoch_key_at hmac kr e" and "1 \<le> e" and "e + (n - i) \<le> 65535"
    and "i \<le> n" and "length (co_epoch_data_keys_future co) = n"
  shows "\<exists>fut. generate_loop hmac junk [i..<n] co
      = Some (co\<lparr>co_epoch_key_recv := epoch_key_at hmac kr (e + (n - i)), co_epoch_data_keys_future := fut\<rparr>)
    \<and> length fut = n \<and> (\<forall>j < i. fut ! j = co_epoch_data_keys_future co ! j)
    \<and> (\<forall>j. i \<le> j \<and> j < n \<longrightarrow> fut ! j = data_key_at hmac (co_epoch_key_type co) kr (e + 1 + (j - i)))"
  using assms(3-)
proof (induction "n - i" arbitrary: i e co)
  case 0
  then show ?case by (intro exI [of _ "co_epoch_data_keys_future co"]) (cases co, auto)
next
  case (Suc m)
  then have i: "i < n" "[i..<n] = i # [Suc i..<n]" "n - Suc i = m" "n - i = Suc m" by (auto simp: upt_rec)
  define co1 where "co1 = co\<lparr>co_epoch_key_recv := epoch_key_at hmac kr (Suc e)\<rparr>"
  define co2 where "co2 = co1\<lparr>co_epoch_data_keys_future := (co_epoch_data_keys_future co)[i := data_key_at hmac (co_epoch_key_type co) kr (Suc e)]\<rparr>"
  have it: "epoch_key_iterate hmac junk (co_epoch_key_recv co) = Some (epoch_key_at hmac kr (Suc e))"
    using epoch_key_iterate_at [OF assms(1,2) Suc.prems(3)] Suc.prems(2) by simp
  have ini: "epoch_init_recv_key hmac junk co1 = Some (data_key_at hmac (co_epoch_key_type co) kr (Suc e))"
    using epoch_init_recv_key_at [OF assms(1,2), of co1 "Suc e" junk] Suc.prems i by (simp add: co1_def)
  have step: "generate_loop hmac junk [i..<n] co = generate_loop hmac junk [Suc i..<n] co2"
    using it ini by (simp add: i(2) co1_def co2_def del: bind_Some_iff upt_Suc)
  obtain fut where fut: "generate_loop hmac junk [Suc i..<n] co2
      = Some (co2\<lparr>co_epoch_key_recv := epoch_key_at hmac kr (Suc e + (n - Suc i)), co_epoch_data_keys_future := fut\<rparr>)"
      "length fut = n" "\<forall>j < Suc i. fut ! j = co_epoch_data_keys_future co2 ! j"
      "\<forall>j. Suc i \<le> j \<and> j < n \<longrightarrow> fut ! j = data_key_at hmac (co_epoch_key_type co2) kr (Suc e + 1 + (j - Suc i))"
    using Suc.hyps(1) [of "Suc i" co2 "Suc e"] Suc.prems i by (auto simp: co2_def co1_def)
  have "fut ! j = data_key_at hmac (co_epoch_key_type co) kr (e + 1 + (j - i))" if "i \<le> j" "j < n" for j
  proof (cases "j = i")
    case True
    then show ?thesis using fut(3) i Suc.prems(6) by (simp add: co2_def co1_def)
  next
    case False
    then have "Suc e + 1 + (j - Suc i) = e + 1 + (j - i)" "Suc i \<le> j" using that by auto
    then show ?thesis using fut(4) that by (simp add: co2_def co1_def)
  qed
  moreover have "\<forall>j < i. fut ! j = co_epoch_data_keys_future co ! j" using fut(3) by (simp add: co2_def co1_def)
  moreover have "generate_loop hmac junk [i..<n] co
      = Some (co\<lparr>co_epoch_key_recv := epoch_key_at hmac kr (e + (n - i)), co_epoch_data_keys_future := fut\<rparr>)"
  proof -
    have "Suc e + (n - Suc i) = e + (n - i)" using i by simp
    then show ?thesis unfolding step fut(1) by (simp only: co2_def co1_def) simp
  qed
  ultimately show ?case using fut(2) by blast
qed

text \<open>
  The state before a generation: \<open>num\<close> keys at the front of the array are used up, the others are in place behind the
  current epoch \<open>d\<close>, and the receiving epoch key stands at the last of them.
\<close>

definition generation_ready :: "hmac_fn \<Rightarrow> u8 list \<Rightarrow> nat \<Rightarrow> nat \<Rightarrow> crypto_options \<Rightarrow> bool" where
  "generation_ready hmac kr d num co \<longleftrightarrow>
     (let n = unat (co_epoch_data_keys_future_count co); keys = co_epoch_data_keys_future co
      in co_initialized co \<and> aead_type (co_epoch_key_type co) \<and> 0 < n \<and> length keys = n \<and> num \<le> n \<and> 1 \<le> d \<and> d + n \<le> 65535
         \<and> kc_epoch (co_decrypt co) = of_nat d \<and> co_epoch_key_recv co = epoch_key_at hmac kr (d + n - num)
         \<and> (\<forall>j < num. kc_epoch (keys ! j) < of_nat d)
         \<and> (\<forall>j. num \<le> j \<and> j < n \<longrightarrow> same_key (keys ! j) (data_key_at hmac (co_epoch_key_type co) kr (d + 1 + (j - num)))))"

lemma same_key_epoch: "same_key k (data_key_at hmac kt kr e) \<Longrightarrow> kc_epoch k = of_nat e"
  by (simp add: same_key_def)

lemma free_old_key_epoch:
  "kc_epoch (free_old_key d k) = (if 0 < kc_epoch k \<and> kc_epoch k < d then 0 else kc_epoch k)"
  "\<not> (0 < kc_epoch k \<and> kc_epoch k < d) \<Longrightarrow> free_old_key d k = k"
  by (auto simp: free_old_key_def free_key_ctx_def)

lemma generate_future_at:
  assumes "digest32 hmac" and "length kr = 32" and "generation_ready hmac kr d num co"
  defines "n \<equiv> unat (co_epoch_data_keys_future_count co)"
  shows "\<exists>fut. epoch_generate_future_receive_keys hmac junk co
      = Some (co\<lparr>co_epoch_key_recv := epoch_key_at hmac kr (d + n), co_epoch_data_keys_future := fut\<rparr>)
    \<and> length fut = n \<and> (\<forall>j < n. same_key (fut ! j) (data_key_at hmac (co_epoch_key_type co) kr (d + 1 + j)))
    \<and> (\<forall>k \<in> set fut. k \<in> set (co_epoch_data_keys_future co) \<or> kc_failed_verifications k = 0)"
proof -
  define keys where "keys = co_epoch_data_keys_future co"
  define kt where "kt = co_epoch_key_type co"
  have r: "co_initialized co" "aead_type kt" "0 < n" "length keys = n" "num \<le> n" "1 \<le> d" "d + n \<le> 65535"
      "kc_epoch (co_decrypt co) = of_nat d" "co_epoch_key_recv co = epoch_key_at hmac kr (d + n - num)"
      "\<And>j. j < num \<Longrightarrow> kc_epoch (keys ! j) < of_nat d"
      "\<And>j. num \<le> j \<Longrightarrow> j < n \<Longrightarrow> same_key (keys ! j) (data_key_at hmac kt kr (d + 1 + (j - num)))"
    using assms(3) by (auto simp: generation_ready_def Let_def keys_def kt_def n_def)
  define keys1 where "keys1 = map (free_old_key (of_nat d)) keys"
  have l1: "length keys1 = n" by (simp add: keys1_def r)
  have used: "kc_epoch (keys1 ! j) = 0" if "j < num" for j
    using r(10) [OF that] that r(4,5) word_gt_0 [of "kc_epoch (keys ! j)"] by (auto simp: keys1_def free_old_key_epoch)
  have kept: "keys1 ! j = keys ! j" if "num \<le> j" "j < n" for j
  proof -
    have "kc_epoch (keys ! j) = of_nat (d + 1 + (j - num))" using same_key_epoch [OF r(11) [OF that]] .
    moreover have "\<not> (of_nat (d + 1 + (j - num)) :: u16) < of_nat d" using u16_of_nat(3) [of "d + 1 + (j - num)" d] r that by simp
    ultimately show ?thesis using that r(4) by (simp add: keys1_def free_old_key_epoch(2))
  qed
  have top: "ek_epoch (co_epoch_key_recv co) = of_nat (d + n - num)" by (simp add: r)
  have high: "of_nat (d + n - num) = kc_epoch (keys1 ! (n - 1)) \<or> of_nat (d + n - num) = (of_nat d :: u16)"
      "of_nat (d + n - num) = kc_epoch (keys ! (n - 1)) \<or> of_nat (d + n - num) = (of_nat d :: u16)"
  proof -
    have "kc_epoch (keys ! (n - 1)) = of_nat (d + n - num) \<and> keys1 ! (n - 1) = keys ! (n - 1)" if "num < n"
      using same_key_epoch [OF r(11) [of "n - 1"]] kept [of "n - 1"] that r(3) by (simp add: algebra_simps)
    then show "of_nat (d + n - num) = kc_epoch (keys1 ! (n - 1)) \<or> of_nat (d + n - num) = (of_nat d :: u16)"
      "of_nat (d + n - num) = kc_epoch (keys ! (n - 1)) \<or> of_nat (d + n - num) = (of_nat d :: u16)"
      using r(5) by (cases "num < n"; simp)+
  qed
  have num: "unat (of_nat d + co_epoch_data_keys_future_count co - of_nat (d + n - num)) = num"
  proof -
    have "co_epoch_data_keys_future_count co = of_nat n" by (simp add: n_def)
    moreover have "(of_nat d + of_nat n - of_nat (d + n - num) :: u16) = of_nat num" using r(5) by (simp add: of_nat_diff)
    ultimately show ?thesis using u16_of_nat(1) [of num] r(5,7) by simp
  qed
  define keys2 where "keys2 = drop num keys1 @ drop (n - num) keys1"
  have l2: "length keys2 = n" using r(5) by (simp add: keys2_def l1)
  define e where "e = d + n - num"
  have e: "1 \<le> e" "e + (n - (n - num)) = d + n" using r(5,6) by (simp_all add: e_def)
  define co0 where "co0 = co\<lparr>co_epoch_data_keys_future := keys2\<rparr>"
  have co0: "aead_type (co_epoch_key_type co0)" "co_epoch_key_recv co0 = epoch_key_at hmac kr e" "length (co_epoch_data_keys_future co0) = n"
      "e + (n - (n - num)) \<le> 65535" "n - num \<le> n"
    using r(2,7,9) l2 e by (simp_all add: co0_def kt_def e_def)
  obtain fut where fut: "generate_loop hmac junk [n - num..<n] co0
      = Some (co\<lparr>co_epoch_key_recv := epoch_key_at hmac kr (d + n), co_epoch_data_keys_future := fut\<rparr>)"
      "length fut = n" "\<And>j. j < n - num \<Longrightarrow> fut ! j = keys2 ! j"
      "\<And>j. n - num \<le> j \<Longrightarrow> j < n \<Longrightarrow> fut ! j = data_key_at hmac kt kr (e + 1 + (j - (n - num)))"
    using generate_loop_at [OF assms(1,2) co0(1,2) e(1) co0(4,5,3), of junk] unfolding e(2) by (auto simp: co0_def kt_def)
  have all: "same_key (fut ! j) (data_key_at hmac kt kr (d + 1 + j))" if "j < n" for j
  proof (cases "j < n - num")
    case True
    then have "fut ! j = keys ! (num + j)" using fut(3) kept [of "num + j"] l1 by (simp add: keys2_def nth_append)
    then show ?thesis using r(11) [of "num + j"] True by simp
  next
    case False
    then have "e + 1 + (j - (n - num)) = d + 1 + j" using r(5) that by (simp add: e_def)
    then show ?thesis using fut(4) [of j] False that by simp
  qed
  have "fut ! j \<in> set keys \<or> kc_failed_verifications (fut ! j) = 0" if "j < n" for j
  proof (cases "j < n - num")
    case True
    then have "fut ! j = keys ! (num + j)" using fut(3) kept [of "num + j"] l1 by (simp add: keys2_def nth_append)
    then show ?thesis using True r(4) by simp
  next
    case False
    then show ?thesis using fut(4) [of j] that by (simp add: data_key_at_def Let_def)
  qed
  then have old: "\<forall>k \<in> set fut. k \<in> set keys \<or> kc_failed_verifications k = 0" using fut(2) by (metis in_set_conv_nth)
  have pos: "list_all (\<lambda>k. 0 < kc_epoch k) fut"
  proof -
    have "0 < kc_epoch (fut ! j)" if "j < n" for j
      using same_key_epoch [OF all [OF that]] u16_of_nat(5) [of "d + 1 + j"] r(7) that by simp
    then show ?thesis using fut(2) by (simp add: list_all_length)
  qed
  have zero: "list_all (\<lambda>k. kc_epoch k = 0) (take num keys1)" using used l1 r(5) by (simp add: list_all_length)
  have "epoch_generate_future_receive_keys hmac junk co
      = Some (co\<lparr>co_epoch_key_recv := epoch_key_at hmac kr (d + n), co_epoch_data_keys_future := fut\<rparr>)"
    unfolding epoch_generate_future_receive_keys_def Let_def keys_def [symmetric] n_def [symmetric] r(8) top keys1_def [symmetric] num keys2_def [symmetric] co0_def [symmetric]
    using r(1,3,4,5) high zero fut(1) pos by (auto simp: assertion_def simp del: bind_Some_iff)
  then show ?thesis using fut(2) all old by (auto simp: kt_def keys_def)
qed

subsection \<open>The receive windows\<close>

text \<open>A receive structure in order, whose parameters \<^verbatim>\<open>packet_id_init_recv\<close> accepts again.\<close>

definition rec_ok :: "packet_id_rec \<Rightarrow> bool" where
  "rec_ok r \<longleftrightarrow> rec_inv r \<and> 0 \<le> r_time_backtrack r \<and> r_time_backtrack r \<le> MAX_TIME_BACKTRACK"

lemma packet_id_reap_backtrack: "packet_id_reap_test now r = Some r' \<Longrightarrow> r_time_backtrack r' = r_time_backtrack r"
  by (auto simp: packet_id_reap_test_def packet_id_reap_def split: if_splits option.splits)

lemma packet_id_test_backtrack: "packet_id_test r q = Some (ok, r') \<Longrightarrow> r_time_backtrack r' = r_time_backtrack r"
  by (auto simp: packet_id_test_def Let_def split: if_splits)

lemma packet_id_add_backtrack: "packet_id_add now r q = Some r' \<Longrightarrow> r_time_backtrack r' = r_time_backtrack r"
  by (auto simp: packet_id_add_def Let_def split: if_splits option.splits)

lemma replay_check_ok:
  assumes "rec_ok r" and "1 < now"
  shows "\<exists>ok r'. replay_check now r q = Some (ok, r') \<and> rec_ok r' \<and> (\<forall>p. rec_covered r p \<longrightarrow> rec_covered r' p)
    \<and> (ok \<longrightarrow> \<not> rec_covered r q \<and> rec_covered r' q)"
proof -
  obtain ok r' where r': "replay_check now r q = Some (ok, r')" "rec_inv r'" "\<forall>p. rec_covered r p \<longrightarrow> rec_covered r' p"
      "ok \<longrightarrow> \<not> rec_covered r q \<and> rec_covered r' q"
    using replay_check_step [OF _ assms(2), of r q] assms(1) by (auto simp: rec_ok_def)
  have "r_time_backtrack r' = r_time_backtrack r"
    using r'(1) by (auto simp: replay_check_def split: if_splits prod.splits
        dest!: packet_id_reap_backtrack packet_id_test_backtrack packet_id_add_backtrack)
  with r' assms(1) show ?thesis by (auto simp: rec_ok_def)
qed

lemma sint_window:
  fixes w :: u64
  assumes "unat w \<le> 65536"
  shows "sint (ucast w :: u32) = int (unat w)"
proof -
  have "ucast w = (of_nat (unat w) :: u32)" by (metis of_nat_unat)
  then show ?thesis using assms sint_of_nat_small [of "unat w", where ?'a = 32] by (simp only:) simp
qed

lemma packet_id_init_recv_backtrack:
  "packet_id_init_recv cleared_rec sb tb name unit = Some s \<Longrightarrow> r_time_backtrack s = 0 \<or> r_time_backtrack s = tb"
  by (auto simp: packet_id_init_recv_def cleared_rec_def Let_def split: if_splits)

lemma packet_id_init_recv_start:
  "packet_id_init_recv cleared_rec sb tb name unit = Some s \<Longrightarrow> r_id s = 0 \<and> r_time s = 0"
  by (auto simp: packet_id_init_recv_def cleared_rec_def Let_def split: if_splits)

lemma packet_id_move_recv_ok:
  assumes "rec_ok r"
  shows "\<exists>s. packet_id_move_recv d r = Some (r, s) \<and> rec_ok s \<and> (\<forall>q. rec_covered s q \<longleftrightarrow> n_id q = 0 \<or> n_time q < 0)
    \<and> r_id s = 0 \<and> r_time s = 0"
proof -
  define sb where "sb = sint (ucast (r_seq_backtrack r) :: u32)"
  have w: "unat (r_seq_backtrack r) \<le> 65536"
    using assms by (auto simp: rec_ok_def rec_inv_def rec_window_def split: option.splits)
  have "int (unat (r_seq_backtrack r)) \<le> 65536" using w by linarith
  then have sb: "0 \<le> sb" "sb \<le> MAX_SEQ_BACKTRACK" using sint_window [OF w] by (simp_all add: sb_def MAX_SEQ_BACKTRACK_def)
  have tb: "0 \<le> r_time_backtrack r" "r_time_backtrack r \<le> MAX_TIME_BACKTRACK" using assms by (simp_all add: rec_ok_def)
  obtain p where p: "packet_id_init sb (r_time_backtrack r) (r_name r) (r_unit r) = Some p" "rec_inv (p_rec p)"
      "\<forall>q. rec_covered (p_rec p) q \<longleftrightarrow> n_id q = 0 \<or> n_time q < 0"
    using packet_id_init_inv [OF sb tb] by blast
  then have s: "packet_id_init_recv cleared_rec sb (r_time_backtrack r) (r_name r) (r_unit r) = Some (p_rec p)"
    by (auto simp: packet_id_init_def cleared_packet_id_def)
  then have "0 \<le> r_time_backtrack (p_rec p) \<and> r_time_backtrack (p_rec p) \<le> MAX_TIME_BACKTRACK"
    using packet_id_init_recv_backtrack tb by (fastforce simp: MAX_TIME_BACKTRACK_def)
  moreover note packet_id_init_recv_start [OF s]
  ultimately show ?thesis using s p by (auto simp: packet_id_move_recv_def rec_ok_def sb_def)
qed

subsection \<open>The invariant\<close>

definition co_recv_epoch :: "crypto_options \<Rightarrow> nat" where
  "co_recv_epoch co = unat (kc_epoch (co_decrypt co))"

definition co_send_epoch :: "crypto_options \<Rightarrow> nat" where
  "co_send_epoch co = unat (kc_epoch (co_encrypt co))"

definition co_retiring_epoch :: "crypto_options \<Rightarrow> nat" where
  "co_retiring_epoch co = unat (kc_epoch (co_epoch_retiring_data_receive_key co))"

definition co_futures :: "crypto_options \<Rightarrow> nat" where
  "co_futures co = unat (co_epoch_data_keys_future_count co)"

lemmas co_epochs = co_recv_epoch_def co_send_epoch_def co_retiring_epoch_def co_futures_def

text \<open>No packet has failed verification with a current or future receiving key.\<close>

definition no_failures :: "crypto_options \<Rightarrow> bool" where
  "no_failures co \<longleftrightarrow> (\<forall>k \<in> set (co_decrypt co # co_epoch_data_keys_future co). kc_failed_verifications k = 0)"

definition epoch_inv :: "hmac_fn \<Rightarrow> u8 list \<Rightarrow> u8 list \<Rightarrow> crypto_options \<Rightarrow> bool" where
  "epoch_inv hmac ks kr co \<longleftrightarrow>
     (let d = co_recv_epoch co; s = co_send_epoch co; r = co_retiring_epoch co; n = co_futures co; kt = co_epoch_key_type co
      in co_initialized co \<and> aead_type kt \<and> 0 < n \<and> length (co_epoch_data_keys_future co) = n
         \<and> 1 \<le> d \<and> d + n \<le> 65535 \<and> d \<le> s \<and> r < d
         \<and> co_epoch_key_recv co = epoch_key_at hmac kr (d + n) \<and> co_epoch_key_send co = epoch_key_at hmac ks s
         \<and> same_key (co_decrypt co) (data_key_at hmac kt kr d) \<and> same_key (co_encrypt co) (data_key_at hmac kt ks s)
         \<and> (\<forall>j < n. same_key (co_epoch_data_keys_future co ! j) (data_key_at hmac kt kr (d + 1 + j)))
         \<and> (r \<noteq> 0 \<longrightarrow> same_key (co_epoch_retiring_data_receive_key co) (data_key_at hmac kt kr r) \<and> rec_ok (co_epoch_retiring_key_pid_recv co))
         \<and> rec_ok (p_rec (co_packet_id co)) \<and> s_id (p_send (co_packet_id co)) \<le> PACKET_ID_EPOCH_MAX)"

lemma epoch_invD:
  assumes "epoch_inv hmac ks kr co"
  shows "co_initialized co" "aead_type (co_epoch_key_type co)" "0 < co_futures co" "length (co_epoch_data_keys_future co) = co_futures co"
    "1 \<le> co_recv_epoch co" "co_recv_epoch co + co_futures co \<le> 65535" "co_recv_epoch co \<le> co_send_epoch co"
    "co_retiring_epoch co < co_recv_epoch co"
    "co_epoch_key_recv co = epoch_key_at hmac kr (co_recv_epoch co + co_futures co)"
    "co_epoch_key_send co = epoch_key_at hmac ks (co_send_epoch co)"
    "same_key (co_decrypt co) (data_key_at hmac (co_epoch_key_type co) kr (co_recv_epoch co))"
    "same_key (co_encrypt co) (data_key_at hmac (co_epoch_key_type co) ks (co_send_epoch co))"
    "j < co_futures co \<Longrightarrow>
      same_key (co_epoch_data_keys_future co ! j) (data_key_at hmac (co_epoch_key_type co) kr (co_recv_epoch co + 1 + j))"
    "co_retiring_epoch co \<noteq> 0 \<Longrightarrow>
      same_key (co_epoch_retiring_data_receive_key co) (data_key_at hmac (co_epoch_key_type co) kr (co_retiring_epoch co))"
    "co_retiring_epoch co \<noteq> 0 \<Longrightarrow> rec_ok (co_epoch_retiring_key_pid_recv co)"
    "rec_ok (p_rec (co_packet_id co))" "s_id (p_send (co_packet_id co)) \<le> PACKET_ID_EPOCH_MAX"
  using assms by (auto simp: epoch_inv_def Let_def)

lemma co_send_epoch_le: "co_send_epoch co \<le> 65535"
  unfolding co_send_epoch_def using unat_u16_less [of "kc_epoch (co_encrypt co)"] by linarith

lemma EPOCH_MAX_pos: "0 \<le> PACKET_ID_EPOCH_MAX"
  by simp

subsection \<open>The operations keep it\<close>

text \<open>What moving to a new sending key changes.\<close>

definition with_send_key :: "hmac_fn \<Rightarrow> u8 list \<Rightarrow> nat \<Rightarrow> crypto_options \<Rightarrow> crypto_options" where
  "with_send_key hmac ks s co = co\<lparr>co_epoch_key_send := epoch_key_at hmac ks s,
     co_encrypt := data_key_at hmac (co_epoch_key_type co) ks s,
     co_packet_id := (co_packet_id co)\<lparr>p_send := reset_packet_id_send (p_send (co_packet_id co))\<rparr>\<rparr>"

lemma with_send_key_inv:
  assumes "epoch_inv hmac ks kr co" and "co_recv_epoch co \<le> s" and "s \<le> 65535"
  shows "epoch_inv hmac ks kr (with_send_key hmac ks s co)" and "co_send_epoch (with_send_key hmac ks s co) = s"
proof -
  show s: "co_send_epoch (with_send_key hmac ks s co) = s"
    using u16_of_nat(1) [OF assms(3) assms(3)] by (simp add: co_send_epoch_def with_send_key_def)
  have "co_recv_epoch (with_send_key hmac ks s co) = co_recv_epoch co" "co_retiring_epoch (with_send_key hmac ks s co) = co_retiring_epoch co"
      "co_futures (with_send_key hmac ks s co) = co_futures co"
    by (simp_all add: with_send_key_def co_epochs)
  with s show "epoch_inv hmac ks kr (with_send_key hmac ks s co)"
    using epoch_invD [OF assms(1)] assms(2) unfolding epoch_inv_def Let_def
    by (simp add: with_send_key_def reset_packet_id_send_def)
qed

lemma init_send_freed:
  assumes "digest32 hmac" and "length ks = 32" and "aead_type (co_epoch_key_type co)" and "1 \<le> s" and "s \<le> 65535"
  shows "epoch_init_send_key_ctx hmac junk (co\<lparr>co_encrypt := free_key_ctx (co_encrypt co), co_epoch_key_send := epoch_key_at hmac ks s\<rparr>)
    = Some (with_send_key hmac ks s co)"
proof -
  have "(0 :: u16) \<noteq> of_nat s" using u16_of_nat(4) [OF assms(5)] assms(4,5) by auto
  then show ?thesis
    using epoch_init_send_key_ctx_at [OF assms(1,2), of "co\<lparr>co_encrypt := free_key_ctx (co_encrypt co), co_epoch_key_send := epoch_key_at hmac ks s\<rparr>" s junk]
      assms(3-5) by (simp add: free_key_ctx_def with_send_key_def)
qed

lemma epoch_iterate_send_key_ok:
  assumes "digest32 hmac" and "length ks = 32" and "epoch_inv hmac ks kr co" and "co_send_epoch co < 65535"
  shows "epoch_iterate_send_key hmac junk co = Some (with_send_key hmac ks (Suc (co_send_epoch co)) co)"
proof -
  note inv = epoch_invD [OF assms(3)]
  have "1 \<le> co_send_epoch co" using inv(5,7) by linarith
  moreover have "(of_nat (co_send_epoch co) :: u16) < 0xffff" using u16_of_nat(3) [of "co_send_epoch co" 65535] assms(4) by simp
  ultimately show ?thesis
    using epoch_key_iterate_at [OF assms(1,2), of "co_send_epoch co" junk] inv(2,10) assms(4)
      init_send_freed [OF assms(1,2), of co "Suc (co_send_epoch co)" junk]
    by (simp add: epoch_iterate_send_key_def UINT16_MAX_def)
qed

lemma iterate_send_to_at:
  assumes "digest32 hmac" and "length ks = 32" and "1 \<le> s" and "s \<le> e" and "e \<le> 65535" and "e - s < fuel"
  shows "iterate_send_to fuel hmac junk (of_nat e) (epoch_key_at hmac ks s) = Some (epoch_key_at hmac ks e)"
  using assms(3-6)
proof (induction fuel arbitrary: s)
  case (Suc fuel)
  show ?case
  proof (cases "s < e")
    case True
    then show ?thesis
      using Suc epoch_key_iterate_at [OF assms(1,2), of s junk] u16_of_nat(3) [of s e] by simp
  next
    case False
    then show ?thesis using Suc.prems by simp
  qed
qed simp

lemma find_future_at:
  assumes "i < length ks" and "kc_epoch (ks ! i) = e" and "\<And>j. j < i \<Longrightarrow> kc_epoch (ks ! j) \<noteq> e"
  shows "find_future e ks = Some i"
  using assms
proof (induction ks arbitrary: i)
  case (Cons k ks)
  show ?case
  proof (cases i)
    case (Suc m)
    have "kc_epoch k \<noteq> e" using Cons.prems(3) [of 0] Suc by simp
    moreover have "find_future e ks = Some m"
      using Cons.IH [of m] Cons.prems Suc by (metis length_Cons not_less_eq nth_Cons_Suc)
    ultimately show ?thesis using Suc by simp
  qed (use Cons.prems in simp)
qed simp

end
