(* ===== verification/Epoch_Ops.thy ===== *)
theory Epoch_Ops
  imports Epoch_Inv
begin

text \<open>
  The operations on the epoch keys: set-up, moving to a new sending or receiving key, finding the key of a packet, and the replay check. Each
  of them returns and keeps the invariant; a packet number is accepted at most once per epoch, also when the key has
  been replaced in between.
\<close>

subsection \<open>Moving to a new receiving key\<close>

text \<open>Moving to the receiving key of a later epoch \<open>e\<close>, which the sending key follows if it is behind.\<close>

definition moved_to :: "hmac_fn \<Rightarrow> u8 list \<Rightarrow> nat \<Rightarrow> crypto_options \<Rightarrow> crypto_options \<Rightarrow> bool" where
  "moved_to hmac ks e co co' \<longleftrightarrow>
     co_recv_epoch co' = e \<and> co_send_epoch co' = max e (co_send_epoch co) \<and> co_retiring_epoch co' = co_recv_epoch co
     \<and> co_futures co' = co_futures co \<and> co_epoch_retiring_key_pid_recv co' = p_rec (co_packet_id co)
     \<and> (\<forall>q. rec_covered (p_rec (co_packet_id co')) q \<longleftrightarrow> n_id q = 0 \<or> n_time q < 0)
     \<and> p_send (co_packet_id co') = (if co_send_epoch co < e then reset_packet_id_send (p_send (co_packet_id co)) else p_send (co_packet_id co))
     \<and> co_aead_usage_limit co' = co_aead_usage_limit co \<and> co_epoch_key_type co' = co_epoch_key_type co
     \<and> r_id (p_rec (co_packet_id co')) = 0 \<and> r_time (p_rec (co_packet_id co')) = 0 \<and> (no_failures co \<longrightarrow> no_failures co')"

lemma send_key_catch_up:
  assumes "digest32 hmac" and "length ks = 32" and "epoch_inv hmac ks kr co" and "co_recv_epoch co < e" and "e \<le> 65535"
  shows "(if kc_epoch (co_encrypt co) < of_nat e
       then do {
         ek \<leftarrow> iterate_send_to (2 ^ 16) hmac junk (of_nat e) (co_epoch_key_send co);
         epoch_init_send_key_ctx hmac junk (co\<lparr>co_encrypt := free_key_ctx (co_encrypt co), co_epoch_key_send := ek\<rparr>) }
       else Some co)
     = Some (if co_send_epoch co < e then with_send_key hmac ks e co else co)"
proof -
  note inv = epoch_invD [OF assms(3)]
  have s: "1 \<le> co_send_epoch co" using inv(5,7) by linarith
  have enc: "kc_epoch (co_encrypt co) = of_nat (co_send_epoch co)" by (simp add: co_send_epoch_def)
  show ?thesis
  proof (cases "co_send_epoch co < e")
    case True
    then show ?thesis
      using iterate_send_to_at [OF assms(1,2) s, of e "2 ^ 16" junk] u16_of_nat(3) [OF co_send_epoch_le assms(5), of co] assms(5)
        init_send_freed [OF assms(1,2) inv(2), of e junk] s
      by (simp add: enc inv(10))
  next
    case False
    then show ?thesis using u16_of_nat(3) [OF co_send_epoch_le assms(5), of co] by (simp add: enc)
  qed
qed

lemma find_future_inv:
  assumes "epoch_inv hmac ks kr co" and "co_recv_epoch co < e" and "e \<le> co_recv_epoch co + co_futures co"
  shows "find_future (of_nat e) (co_epoch_data_keys_future co) = Some (e - co_recv_epoch co - 1)"
proof (rule find_future_at)
  note inv = epoch_invD [OF assms(1)]
  define i where "i = e - co_recv_epoch co - 1"
  have i: "i < co_futures co" "co_recv_epoch co + 1 + i = e" using assms(2,3) by (auto simp: i_def)
  then show "e - co_recv_epoch co - 1 < length (co_epoch_data_keys_future co)" using inv(4) by (simp add: i_def)
  show "kc_epoch (co_epoch_data_keys_future co ! (e - co_recv_epoch co - 1)) = of_nat e"
    using same_key_epoch [OF inv(13) [OF i(1)]] i(2) by (simp add: i_def)
  fix j assume j: "j < e - co_recv_epoch co - 1"
  then have "kc_epoch (co_epoch_data_keys_future co ! j) = of_nat (co_recv_epoch co + 1 + j)"
    using same_key_epoch [OF inv(13) [of j]] i(1) by (simp add: i_def)
  moreover have "(of_nat (co_recv_epoch co + 1 + j) :: u16) \<noteq> of_nat e"
    using u16_of_nat(2) [of "co_recv_epoch co + 1 + j" e] j assms(3) inv(6) by linarith
  ultimately show "kc_epoch (co_epoch_data_keys_future co ! j) \<noteq> of_nat e" by simp
qed

lemma epoch_replace_update_recv_key_ok:
  assumes "digest32 hmac" and "length ks = 32" and "length kr = 32" and "epoch_inv hmac ks kr co"
    and "co_recv_epoch co < e" and "e \<le> co_recv_epoch co + co_futures co" and "e + co_futures co \<le> 65535"
  shows "\<exists>co'. epoch_replace_update_recv_key hmac junk co (of_nat e) = Some co' \<and> epoch_inv hmac ks kr co' \<and> moved_to hmac ks e co co'"
proof -
  note inv = epoch_invD [OF assms(4)]
  define d where "d = co_recv_epoch co"
  define n where "n = co_futures co"
  define i where "i = e - d - 1"
  have i: "i < n" "d + 1 + i = e" using assms(5,6) by (auto simp: i_def d_def n_def)
  have e: "e \<le> 65535" using assms(7) by linarith
  define co1 where "co1 = (if co_send_epoch co < e then with_send_key hmac ks e co else co)"
  have co1: "epoch_inv hmac ks kr co1" "co_send_epoch co1 = max e (co_send_epoch co)"
    using with_send_key_inv [OF assms(4) _ e] assms(4,5) by (auto simp: co1_def d_def)
  have same: "co_recv_epoch co1 = d" "co_futures co1 = n" "co_decrypt co1 = co_decrypt co" "co_epoch_data_keys_future co1 = co_epoch_data_keys_future co"
      "p_rec (co_packet_id co1) = p_rec (co_packet_id co)" "co_epoch_key_type co1 = co_epoch_key_type co" "co_aead_usage_limit co1 = co_aead_usage_limit co"
      "p_send (co_packet_id co1) = (if co_send_epoch co < e then reset_packet_id_send (p_send (co_packet_id co)) else p_send (co_packet_id co))"
    by (simp_all add: co1_def with_send_key_def co_epochs d_def n_def)
  obtain rcv where rcv: "packet_id_move_recv (co_epoch_retiring_key_pid_recv co1) (p_rec (co_packet_id co)) = Some (p_rec (co_packet_id co), rcv)"
      "rec_ok rcv" "\<forall>q. rec_covered rcv q \<longleftrightarrow> n_id q = 0 \<or> n_time q < 0" "r_id rcv = 0" "r_time rcv = 0"
    using packet_id_move_recv_ok [OF inv(16)] by blast
  define co2 where "co2 = co1\<lparr>co_epoch_retiring_data_receive_key := co_decrypt co1,
      co_epoch_retiring_key_pid_recv := p_rec (co_packet_id co), co_packet_id := (co_packet_id co1)\<lparr>p_rec := rcv\<rparr>,
      co_decrypt := co_epoch_data_keys_future co ! i, co_epoch_data_keys_future := (co_epoch_data_keys_future co)[i := cleared_key_ctx]\<rparr>"
  note inv1 = epoch_invD [OF co1(1)]
  have new: "same_key (co_epoch_data_keys_future co ! i) (data_key_at hmac (co_epoch_key_type co) kr e)"
    using inv(13) [of i] i by (simp add: n_def d_def)
  have ready: "generation_ready hmac kr e (Suc i) co2"
  proof -
    have used: "kc_epoch ((co_epoch_data_keys_future co)[i := cleared_key_ctx] ! j) < of_nat e" if "j < Suc i" for j
    proof (cases "j = i")
      case True
      then show ?thesis using i inv(4) u16_of_nat(5) [OF e e] by (simp add: cleared_key_ctx_def n_def)
    next
      case False
      then have "j < i" using that by simp
      then show ?thesis
        using same_key_epoch [OF inv(13) [of j]] i u16_of_nat(3) [of "d + 1 + j" e] e by (simp add: n_def d_def)
    qed
    have kept: "same_key ((co_epoch_data_keys_future co)[i := cleared_key_ctx] ! j) (data_key_at hmac (co_epoch_key_type co) kr (e + 1 + (j - Suc i)))"
      if "Suc i \<le> j" "j < n" for j
    proof -
      have "e + 1 + (j - Suc i) = d + 1 + j" using i(2) that by linarith
      then show ?thesis using inv(13) [of j] that by (simp add: n_def d_def)
    qed
    have "e + n - Suc i = d + n" using i by linarith
    then show ?thesis
      unfolding generation_ready_def Let_def
      using inv1(1,2,3,9) same used kept i assms(7) same_key_epoch [OF new] inv(4)
      by (auto simp: co2_def n_def co_futures_def)
  qed
  obtain fut where fut: "epoch_generate_future_receive_keys hmac junk co2
      = Some (co2\<lparr>co_epoch_key_recv := epoch_key_at hmac kr (e + n), co_epoch_data_keys_future := fut\<rparr>)"
      "length fut = n" "\<And>j. j < n \<Longrightarrow> same_key (fut ! j) (data_key_at hmac (co_epoch_key_type co) kr (e + 1 + j))"
      "\<forall>k \<in> set fut. k \<in> set ((co_epoch_data_keys_future co)[i := cleared_key_ctx]) \<or> kc_failed_verifications k = 0"
    using generate_future_at [OF assms(1,3) ready, of junk] same by (auto simp: co2_def n_def co_futures_def)
  define co3 where "co3 = co2\<lparr>co_epoch_key_recv := epoch_key_at hmac kr (e + n), co_epoch_data_keys_future := fut\<rparr>"
  have find: "find_future (of_nat e) (co_epoch_data_keys_future co) = Some i"
    using find_future_inv [OF assms(4-6)] by (simp add: i_def d_def)
  have run: "epoch_replace_update_recv_key hmac junk co (of_nat e) = Some co3"
    using find send_key_catch_up [OF assms(1,2,4,5) e, of junk] rcv(1) fut(1) same(3-5)
    unfolding epoch_replace_update_recv_key_def
    by (simp add: co1_def [symmetric] co2_def co3_def Let_def del: bind_Some_iff)
  have ep: "co_recv_epoch co3 = e" "co_send_epoch co3 = max e (co_send_epoch co)" "co_retiring_epoch co3 = d" "co_futures co3 = n"
    using same_key_epoch [OF new] u16_of_nat(1) [OF e e] co1(2) same
    by (simp_all add: co3_def co2_def co_epochs d_def n_def)
  have "epoch_inv hmac ks kr co3"
    unfolding epoch_inv_def Let_def ep
    using inv1 inv(11,16) same new fut rcv(2) co1(2) assms(5,7) i ep
    by (simp add: co3_def co2_def d_def n_def)
  moreover have "no_failures co3" if "no_failures co"
  proof -
    have "\<forall>k \<in> set ((co_epoch_data_keys_future co)[i := cleared_key_ctx]). kc_failed_verifications k = 0"
      using that set_update_subset_insert [of "co_epoch_data_keys_future co" i cleared_key_ctx] by (auto simp: no_failures_def cleared_key_ctx_def)
    moreover have "co_epoch_data_keys_future co ! i \<in> set (co_epoch_data_keys_future co)" using i(1) inv(4) by (simp add: n_def)
    ultimately show ?thesis using fut(4) that by (auto simp: no_failures_def co3_def co2_def)
  qed
  ultimately have "epoch_inv hmac ks kr co3 \<and> moved_to hmac ks e co co3"
    unfolding moved_to_def ep using same rcv(3-5) by (simp add: co3_def co2_def d_def n_def)
  then show ?thesis using run by blast
qed

subsection \<open>Setting up\<close>

text \<open>A structure without epoch keys: \<^verbatim>\<open>init_epoch_keys\<close> starts from one whose key contexts are cleared.\<close>

definition fresh_options :: "crypto_options \<Rightarrow> bool" where
  "fresh_options co \<longleftrightarrow> kc_epoch (co_encrypt co) = 0 \<and> kc_epoch (co_epoch_retiring_data_receive_key co) = 0
     \<and> rec_ok (p_rec (co_packet_id co))"

lemma epoch_init_key_ctx_ok:
  assumes "digest32 hmac" and "length ks = 32" and "length kr = 32" and "aead_type kt" and "fresh_options co"
    and "0 < unat count" and "unat count < 65535"
  shows "\<exists>co'. epoch_init_key_ctx hmac junk co kt (epoch_key_at hmac ks 1) (epoch_key_at hmac kr 1) count = Some co'
    \<and> epoch_inv hmac ks kr co' \<and> co_recv_epoch co' = 1 \<and> co_send_epoch co' = 1 \<and> co_retiring_epoch co' = 0 \<and> co_futures co' = unat count
    \<and> s_id (p_send (co_packet_id co')) = 0 \<and> p_rec (co_packet_id co') = p_rec (co_packet_id co) \<and> co_epoch_key_type co' = kt
    \<and> no_failures co'"
proof -
  have fr: "kc_epoch (co_encrypt co) = 0" "kc_epoch (co_epoch_retiring_data_receive_key co) = 0" "rec_ok (p_rec (co_packet_id co))"
    using assms(5) by (simp_all add: fresh_options_def)
  define co1 where "co1 = co\<lparr>co_epoch_key_recv := epoch_key_at hmac kr 1, co_epoch_key_send := epoch_key_at hmac ks 1, co_epoch_key_type := kt,
      co_aead_usage_limit := cipher_get_aead_limits kt\<rparr>"
  define co2 where "co2 = co1\<lparr>co_encrypt := data_key_at hmac kt ks 1,
      co_packet_id := (co_packet_id co1)\<lparr>p_send := reset_packet_id_send (p_send (co_packet_id co1))\<rparr>\<rparr>"
  have snd: "epoch_init_send_key_ctx hmac junk co1 = Some co2"
    using epoch_init_send_key_ctx_at [OF assms(1,2), of co1 1 junk] assms(4) fr by (simp add: co1_def co2_def)
  have rcv: "epoch_init_recv_key hmac junk co2 = Some (data_key_at hmac kt kr 1)"
    using epoch_init_recv_key_at [OF assms(1,3), of co2 1 junk] assms(4) by (simp add: co1_def co2_def)
  define co3 where "co3 = co2\<lparr>co_decrypt := data_key_at hmac kt kr 1, co_initialized := True, co_epoch_data_keys_future_count := count,
      co_epoch_data_keys_future := replicate (unat count) cleared_key_ctx\<rparr>"
  have ready: "generation_ready hmac kr 1 (unat count) co3"
    using assms(4,6,7) by (auto simp: generation_ready_def Let_def co3_def co2_def co1_def cleared_key_ctx_def)
  obtain fut where fut: "epoch_generate_future_receive_keys hmac junk co3
      = Some (co3\<lparr>co_epoch_key_recv := epoch_key_at hmac kr (1 + unat count), co_epoch_data_keys_future := fut\<rparr>)"
      "length fut = unat count" "\<And>j. j < unat count \<Longrightarrow> same_key (fut ! j) (data_key_at hmac kt kr (1 + 1 + j))"
      "\<forall>k \<in> set fut. k \<in> set (replicate (unat count) cleared_key_ctx) \<or> kc_failed_verifications k = 0"
    using generate_future_at [OF assms(1,3) ready, of junk] by (auto simp: co3_def co2_def co1_def)
  define co4 where "co4 = co3\<lparr>co_epoch_key_recv := epoch_key_at hmac kr (1 + unat count), co_epoch_data_keys_future := fut\<rparr>"
  have run: "epoch_init_key_ctx hmac junk co kt (epoch_key_at hmac ks 1) (epoch_key_at hmac kr 1) count = Some co4"
    using snd [unfolded co1_def] rcv fut(1) [unfolded co3_def]
    by (simp add: epoch_init_key_ctx_def co4_def co3_def Let_def del: bind_Some_iff)
  have f4: "co_decrypt co4 = data_key_at hmac kt kr 1" "co_encrypt co4 = data_key_at hmac kt ks 1"
      "kc_epoch (co_epoch_retiring_data_receive_key co4) = 0" "co_epoch_data_keys_future_count co4 = count" "co_epoch_key_type co4 = kt"
      "p_rec (co_packet_id co4) = p_rec (co_packet_id co)" "s_id (p_send (co_packet_id co4)) = 0" "co_initialized co4"
      "co_epoch_key_recv co4 = epoch_key_at hmac kr (1 + unat count)" "co_epoch_key_send co4 = epoch_key_at hmac ks 1" "co_epoch_data_keys_future co4 = fut"
    using fr by (simp_all add: co4_def co3_def co2_def co1_def reset_packet_id_send_def)
  then have ep: "co_recv_epoch co4 = 1" "co_send_epoch co4 = 1" "co_retiring_epoch co4 = 0" "co_futures co4 = unat count"
    by (simp_all add: co_epochs)
  have "epoch_inv hmac ks kr co4"
    unfolding epoch_inv_def Let_def ep using f4 fut(2,3) fr assms(4,6,7) by simp
  moreover have "no_failures co4"
    using fut(4) f4(1,11) by (auto simp: no_failures_def cleared_key_ctx_def data_key_at_def Let_def)
  ultimately show ?thesis using run ep f4 by auto
qed

subsection \<open>Finding a key\<close>

lemma epoch_lookup_cases:
  assumes "epoch_inv hmac ks kr co"
  shows "epoch_lookup_decrypt_key co epoch =
    (if unat epoch = co_recv_epoch co then Some Current_key
     else if unat epoch \<noteq> 0 \<and> unat epoch = co_retiring_epoch co then Some Retiring_key
     else if co_recv_epoch co < unat epoch \<and> unat epoch \<le> co_recv_epoch co + co_futures co \<and> unat epoch + co_futures co < 65535
     then Some (Future_key (unat epoch - co_recv_epoch co - 1)) else None)"
proof -
  define e where "e = unat epoch"
  have d: "uint (kc_epoch (co_decrypt co)) = int (co_recv_epoch co)" "uint (co_epoch_data_keys_future_count co) = int (co_futures co)"
      "uint epoch = int e"
    by (simp_all add: co_epochs e_def)
  have u: "v = w \<longleftrightarrow> unat w = unat v" for v w :: u16 unfolding word_unat_eq_iff by (rule eq_commute)
  have eq: "kc_epoch (co_decrypt co) = epoch \<longleftrightarrow> unat epoch = co_recv_epoch co"
      "kc_epoch (co_epoch_retiring_data_receive_key co) = epoch \<longleftrightarrow> unat epoch = co_retiring_epoch co"
      "kc_epoch (co_epoch_retiring_data_receive_key co) = 0 \<longleftrightarrow> co_retiring_epoch co = 0"
      "epoch > kc_epoch (co_decrypt co) \<longleftrightarrow> co_recv_epoch co < unat epoch"
    unfolding co_epochs word_less_nat_alt by (simp_all only: u unat_0 eq_commute)
  have "nat (int e - (int (co_recv_epoch co) + 1)) = e - co_recv_epoch co - 1" by linarith
  then show ?thesis
    unfolding epoch_lookup_decrypt_key_def Let_def d eq e_def [symmetric] by auto
qed

lemma epoch_lookup_key:
  assumes "epoch_inv hmac ks kr co" and "epoch_lookup_decrypt_key co epoch = Some slot"
  shows "same_key (slot_ctx co slot) (data_key_at hmac (co_epoch_key_type co) kr (unat epoch))" and "epoch \<noteq> 0"
    and "slot = Future_key i \<Longrightarrow> i < length (co_epoch_data_keys_future co)"
proof -
  note inv = epoch_invD [OF assms(1)]
  consider "slot = Current_key" "unat epoch = co_recv_epoch co"
    | "slot = Retiring_key" "unat epoch = co_retiring_epoch co" "co_retiring_epoch co \<noteq> 0"
    | "slot = Future_key (unat epoch - co_recv_epoch co - 1)" "co_recv_epoch co < unat epoch" "unat epoch \<le> co_recv_epoch co + co_futures co"
    using assms(2) unfolding epoch_lookup_cases [OF assms(1)] by (auto split: if_splits)
  then have "same_key (slot_ctx co slot) (data_key_at hmac (co_epoch_key_type co) kr (unat epoch)) \<and> epoch \<noteq> 0
    \<and> (slot = Future_key i \<longrightarrow> i < length (co_epoch_data_keys_future co))"
  proof cases
    case 3
    have "co_recv_epoch co + 1 + (unat epoch - co_recv_epoch co - 1) = unat epoch" using 3(2) by simp
    then show ?thesis using inv(4) inv(13) [of "unat epoch - co_recv_epoch co - 1"] 3 by auto
  qed (use inv(5,11,14) in auto)
  then show "same_key (slot_ctx co slot) (data_key_at hmac (co_epoch_key_type co) kr (unat epoch))" "epoch \<noteq> 0"
    "slot = Future_key i \<Longrightarrow> i < length (co_epoch_data_keys_future co)" by auto
qed

subsection \<open>Sending\<close>

lemma epoch_check_send_iterate_ok:
  assumes "digest32 hmac" and "length ks = 32" and "epoch_inv hmac ks kr co"
  shows "\<exists>co'. epoch_check_send_iterate hmac junk co = Some co' \<and> epoch_inv hmac ks kr co'
    \<and> (co' = co \<or> co_send_epoch co < 65535 \<and> co' = with_send_key hmac ks (Suc (co_send_epoch co)) co)
    \<and> (s_id (p_send (co_packet_id co')) = PACKET_ID_EPOCH_MAX \<longrightarrow> co_send_epoch co = 65535)"
proof -
  note inv = epoch_invD [OF assms(3)]
  have top: "ek_epoch (co_epoch_key_send co) = UINT16_MAX \<longleftrightarrow> co_send_epoch co = 65535"
    using u16_of_nat(2) [OF co_send_epoch_le, of 65535 co] by (simp add: inv(10) UINT16_MAX_def)
  show ?thesis
  proof (cases "co_send_epoch co = 65535")
    case True
    then show ?thesis using top assms(3) by (simp add: epoch_check_send_iterate_def)
  next
    case False
    then have s: "co_send_epoch co < 65535" using co_send_epoch_le [of co] by linarith
    define co1 where "co1 = with_send_key hmac ks (Suc (co_send_epoch co)) co"
    have it: "epoch_iterate_send_key hmac junk co = Some co1"
      using epoch_iterate_send_key_ok [OF assms s] by (simp add: co1_def)
    have "epoch_inv hmac ks kr co1" unfolding co1_def by (rule with_send_key_inv(1) [OF assms(3)]) (use inv(7) s in simp_all)
    moreover have "s_id (p_send (co_packet_id co1)) \<noteq> PACKET_ID_EPOCH_MAX"
      by (simp add: co1_def with_send_key_def reset_packet_id_send_def PACKET_ID_EPOCH_MAX_def)
    ultimately show ?thesis
      using it False top s assms(3) by (auto simp: epoch_check_send_iterate_def co1_def simp del: bind_Some_iff)
  qed
qed

subsection \<open>Receiving\<close>

text \<open>The packets, given by epoch and number, that are no longer accepted.\<close>

definition epoch_covered :: "crypto_options \<Rightarrow> u16 \<times> packet_id_net \<Rightarrow> bool" where
  "epoch_covered co = (\<lambda>(e, q). e = 0 \<or> (unat e < co_recv_epoch co \<and> unat e \<noteq> co_retiring_epoch co)
     \<or> (unat e = co_recv_epoch co \<and> rec_covered (p_rec (co_packet_id co)) q)
     \<or> (unat e = co_retiring_epoch co \<and> rec_covered (co_epoch_retiring_key_pid_recv co) q))"

text \<open>A change of the state that does not bring back a sending key: the sending side is untouched, or moves to a later epoch and starts to count again.\<close>

definition send_forward :: "crypto_options \<Rightarrow> crypto_options \<Rightarrow> bool" where
  "send_forward co co' \<longleftrightarrow> co_send_epoch co' = co_send_epoch co \<and> p_send (co_packet_id co') = p_send (co_packet_id co)
     \<or> co_send_epoch co < co_send_epoch co' \<and> s_id (p_send (co_packet_id co')) = 0"

text \<open>The outcome of a replay check: the state stays in order, what was refused stays refused, and an accepted packet is new and refused from now on.\<close>

definition checked_once ::
  "hmac_fn \<Rightarrow> u8 list \<Rightarrow> u8 list \<Rightarrow> crypto_options \<Rightarrow> u16 \<times> packet_id_net \<Rightarrow> (bool \<times> crypto_options) option \<Rightarrow> bool" where
  "checked_once hmac ks kr co p res \<longleftrightarrow> (\<exists>ok co'. res = Some (ok, co') \<and> epoch_inv hmac ks kr co'
     \<and> (\<forall>q. epoch_covered co q \<longrightarrow> epoch_covered co' q) \<and> (ok \<longrightarrow> \<not> epoch_covered co p \<and> epoch_covered co' p)
     \<and> send_forward co co' \<and> co_epoch_key_type co' = co_epoch_key_type co \<and> co_futures co' = co_futures co)"

lemma persist_irrelevant [simp]:
  "epoch_inv hmac ks kr (co\<lparr>co_pid_persist := x\<rparr>) = epoch_inv hmac ks kr co"
  "epoch_covered (co\<lparr>co_pid_persist := x\<rparr>) = epoch_covered co" "send_forward c (co\<lparr>co_pid_persist := x\<rparr>) = send_forward c co"
  by (simp_all add: epoch_inv_def co_epochs epoch_covered_def send_forward_def Let_def)

lemma epoch_inv_set_rec:
  assumes "epoch_inv hmac ks kr co" and "rec_ok r"
  shows "epoch_inv hmac ks kr (co\<lparr>co_packet_id := (co_packet_id co)\<lparr>p_rec := r\<rparr>\<rparr>)"
    and "epoch_inv hmac ks kr (co\<lparr>co_epoch_retiring_key_pid_recv := r\<rparr>)"
  using assms by (simp_all add: epoch_inv_def co_epochs Let_def)

lemma replay_current:
  assumes "epoch_inv hmac ks kr co" and "1 < now" and "unat epoch = co_recv_epoch co"
  shows "checked_once hmac ks kr co (epoch, pin) (crypto_check_replay hmac junk now co pin epoch)"
proof -
  note inv = epoch_invD [OF assms(1)]
  have e: "kc_epoch (co_decrypt co) = epoch" "epoch \<noteq> 0" using assms(3) inv(5) by (auto simp: co_recv_epoch_def word_unat_eq_iff)
  obtain ok r where r: "replay_check now (p_rec (co_packet_id co)) pin = Some (ok, r)" "rec_ok r"
      "\<forall>p. rec_covered (p_rec (co_packet_id co)) p \<longrightarrow> rec_covered r p"
      "ok \<longrightarrow> \<not> rec_covered (p_rec (co_packet_id co)) pin \<and> rec_covered r pin"
    using replay_check_ok [OF inv(16) assms(2)] by blast
  define co1 where "co1 = co\<lparr>co_packet_id := (co_packet_id co)\<lparr>p_rec := r\<rparr>\<rparr>"
  define x where "x = map_option (\<lambda>pp. packet_id_persist_save_obj pp (co_packet_id co1)) (co_pid_persist co1)"
  have run: "crypto_check_replay hmac junk now co pin epoch = Some (ok, if ok \<and> co_packet_id_long_form co1 then co1\<lparr>co_pid_persist := x\<rparr> else co1)"
    using e r(1) by (simp add: crypto_check_replay_def co1_def x_def Let_def del: bind_Some_iff)
  have c1: "epoch_inv hmac ks kr co1" using epoch_inv_set_rec(1) [OF assms(1) r(2)] by (simp add: co1_def)
  have ep: "co_recv_epoch co1 = co_recv_epoch co" "co_retiring_epoch co1 = co_retiring_epoch co" "co_send_epoch co1 = co_send_epoch co"
    by (simp_all add: co1_def co_epochs)
  have "\<forall>p. epoch_covered co p \<longrightarrow> epoch_covered co1 p" "ok \<longrightarrow> \<not> epoch_covered co (epoch, pin) \<and> epoch_covered co1 (epoch, pin)"
    unfolding epoch_covered_def ep using r(3,4) assms(3) e(2) inv(8) by (auto simp: co1_def)
  moreover have "send_forward co co1" unfolding send_forward_def ep by (simp add: co1_def)
  ultimately show ?thesis using run c1 by (auto simp: checked_once_def co1_def co_futures_def)
qed

lemma replay_retiring:
  assumes "epoch_inv hmac ks kr co" and "1 < now" and "unat epoch = co_retiring_epoch co" and "co_retiring_epoch co \<noteq> 0"
  shows "checked_once hmac ks kr co (epoch, pin) (crypto_check_replay hmac junk now co pin epoch)"
proof -
  note inv = epoch_invD [OF assms(1)]
  have e: "kc_epoch (co_epoch_retiring_data_receive_key co) = epoch" "epoch \<noteq> 0" "kc_epoch (co_decrypt co) \<noteq> epoch"
    using assms(3,4) inv(8) by (auto simp: co_retiring_epoch_def co_recv_epoch_def word_unat_eq_iff)
  obtain ok r where r: "replay_check now (co_epoch_retiring_key_pid_recv co) pin = Some (ok, r)" "rec_ok r"
      "\<forall>p. rec_covered (co_epoch_retiring_key_pid_recv co) p \<longrightarrow> rec_covered r p"
      "ok \<longrightarrow> \<not> rec_covered (co_epoch_retiring_key_pid_recv co) pin \<and> rec_covered r pin"
    using replay_check_ok [OF inv(15) [OF assms(4)] assms(2)] by blast
  define co1 where "co1 = co\<lparr>co_epoch_retiring_key_pid_recv := r\<rparr>"
  define x where "x = map_option (\<lambda>pp. packet_id_persist_save_obj pp (co_packet_id co1)) (co_pid_persist co1)"
  have run: "crypto_check_replay hmac junk now co pin epoch = Some (ok, if ok \<and> co_packet_id_long_form co1 then co1\<lparr>co_pid_persist := x\<rparr> else co1)"
    using e r(1) by (simp add: crypto_check_replay_def co1_def x_def Let_def del: bind_Some_iff)
  have c1: "epoch_inv hmac ks kr co1" using epoch_inv_set_rec(2) [OF assms(1) r(2)] by (simp add: co1_def)
  have ep: "co_recv_epoch co1 = co_recv_epoch co" "co_retiring_epoch co1 = co_retiring_epoch co" "co_send_epoch co1 = co_send_epoch co"
    by (simp_all add: co1_def co_epochs)
  have "\<forall>p. epoch_covered co p \<longrightarrow> epoch_covered co1 p" "ok \<longrightarrow> \<not> epoch_covered co (epoch, pin) \<and> epoch_covered co1 (epoch, pin)"
    unfolding epoch_covered_def ep using r(3,4) assms(3) e(2) inv(8) by (auto simp: co1_def)
  moreover have "send_forward co co1" unfolding send_forward_def ep by (simp add: co1_def)
  ultimately show ?thesis using run c1 by (auto simp: checked_once_def co1_def co_futures_def)
qed

lemma moved_covered:
  assumes "moved_to hmac ks e co co'" and "co_recv_epoch co < e" and "epoch_covered co p" and "co_retiring_epoch co < co_recv_epoch co"
  shows "epoch_covered co' p"
proof (cases p)
  case (Pair x q)
  have m: "co_recv_epoch co' = e" "co_retiring_epoch co' = co_recv_epoch co" "co_epoch_retiring_key_pid_recv co' = p_rec (co_packet_id co)"
    using assms(1) by (simp_all add: moved_to_def)
  have "x = 0 \<or> unat x < co_recv_epoch co \<or> unat x = co_recv_epoch co \<and> rec_covered (p_rec (co_packet_id co)) q"
    using assms(3,4) by (auto simp: epoch_covered_def Pair)
  then show ?thesis using assms(2) by (auto simp: epoch_covered_def Pair m)
qed

lemma moved_send_forward:
  assumes "moved_to hmac ks e co co'"
  shows "send_forward co co'"
  using assms by (auto simp: moved_to_def send_forward_def reset_packet_id_send_def max_def)

lemma send_forward_trans: "send_forward a b \<Longrightarrow> send_forward b c \<Longrightarrow> send_forward a c"
  by (auto simp: send_forward_def)

lemma replay_future:
  assumes "digest32 hmac" and "length ks = 32" and "length kr = 32" and "epoch_inv hmac ks kr co" and "1 < now"
    and "co_recv_epoch co < unat epoch" and "unat epoch \<le> co_recv_epoch co + co_futures co" and "unat epoch + co_futures co \<le> 65535"
  shows "checked_once hmac ks kr co (epoch, pin) (crypto_check_replay hmac junk now co pin epoch)"
proof -
  note inv = epoch_invD [OF assms(4)]
  obtain co0 where co0: "epoch_replace_update_recv_key hmac junk co epoch = Some co0" "epoch_inv hmac ks kr co0"
      "moved_to hmac ks (unat epoch) co co0"
    using epoch_replace_update_recv_key_ok [OF assms(1-4,6-8), of junk] by auto
  have d0: "unat epoch = co_recv_epoch co0" "co_futures co0 = co_futures co" "co_epoch_key_type co0 = co_epoch_key_type co"
    using co0(3) by (simp_all add: moved_to_def)
  have e: "epoch \<noteq> 0" "kc_epoch (co_decrypt co) \<noteq> epoch" "epoch \<noteq> kc_epoch (co_epoch_retiring_data_receive_key co)" "kc_epoch (co_decrypt co0) = epoch"
    using assms(6) inv(8) d0(1) by (auto simp: co_recv_epoch_def co_retiring_epoch_def word_unat_eq_iff)
  have "crypto_check_replay hmac junk now co pin epoch = crypto_check_replay hmac junk now co0 pin epoch"
    using e co0(1) by (simp add: crypto_check_replay_def del: bind_Some_iff)
  moreover have "\<not> epoch_covered co (epoch, pin)" using assms(6) inv(8) e(1) by (auto simp: epoch_covered_def)
  ultimately show ?thesis
    using replay_current [OF co0(2) assms(5) d0(1), of pin junk] moved_covered [OF co0(3) assms(6) _ inv(8)]
      send_forward_trans [OF moved_send_forward [OF co0(3)]] d0(2,3) unfolding checked_once_def by auto
qed

lemma crypto_check_replay_ok:
  assumes "digest32 hmac" and "length ks = 32" and "length kr = 32" and "epoch_inv hmac ks kr co" and "1 < now"
    and "epoch_lookup_decrypt_key co epoch = Some slot"
  shows "checked_once hmac ks kr co (epoch, pin) (crypto_check_replay hmac junk now co pin epoch)"
proof -
  consider "unat epoch = co_recv_epoch co" | "unat epoch = co_retiring_epoch co" "co_retiring_epoch co \<noteq> 0"
    | "co_recv_epoch co < unat epoch" "unat epoch \<le> co_recv_epoch co + co_futures co" "unat epoch + co_futures co \<le> 65535"
    using assms(6) unfolding epoch_lookup_cases [OF assms(4)] by (auto split: if_splits)
  then show ?thesis
    using replay_current [OF assms(4,5)] replay_retiring [OF assms(4,5)] replay_future [OF assms(1-5)] by cases blast+
qed

end
