(* ===== verification/Data_Channel.thy ===== *)
theory Data_Channel
  imports Epoch_Ops
begin

text \<open>
  The data channel with AEAD ciphers: \<^verbatim>\<open>openvpn_encrypt_aead\<close> and \<^verbatim>\<open>openvpn_decrypt_aead\<close> of \<^verbatim>\<open>crypto.c\<close>, in the 32-bit format and in the
  epoch format. The cipher of the TLS library is a pair of arguments: \<open>seal\<close> gives ciphertext and tag for a cipher context, an
  IV, the authenticated header and a plaintext, and \<open>unseal\<close> the outcome of the library calls for decryption. The
  library calls of the sending side, which the code asserts to succeed, do so.
\<close>

type_synonym aead_seal = "cipher_ctx \<Rightarrow> u8 list \<Rightarrow> u8 list \<Rightarrow> u8 list \<Rightarrow> u8 list \<times> u8 list"

datatype aead_result = Reset_failed | Update_failed | Tag_failed | Opened "u8 list"

type_synonym aead_unseal = "cipher_ctx \<Rightarrow> u8 list \<Rightarrow> u8 list \<Rightarrow> u8 list \<Rightarrow> u8 list \<Rightarrow> aead_result"

definition OPENVPN_AEAD_TAG_LENGTH :: int where "OPENVPN_AEAD_TAG_LENGTH = 16"
definition AEAD_LIMIT_BLOCKSIZE :: int where "AEAD_LIMIT_BLOCKSIZE = 16"

subsection \<open>Steps that both directions share\<close>

text \<open>The packet id in the IV buffer is combined with the implicit IV of the key.\<close>

definition xor_iv :: "nat \<Rightarrow> u8 list \<Rightarrow> key_ctx \<Rightarrow> u8 list" where
  "xor_iv iv_len iv ctx = map2 (XOR) (take iv_len iv) (take iv_len (kc_implicit_iv ctx))"

text \<open>The cipher writes its output behind the content and \<^verbatim>\<open>buf_inc_len\<close> takes it in.\<close>

definition cipher_output :: "buffer \<Rightarrow> u8 list \<Rightarrow> buffer option" where
  "cipher_output work out = do {
     p \<leftarrow> buf_bend work;
     blk \<leftarrow> mem_write (b_data work) p out;
     let (ok, w) = buf_inc_len (work\<lparr>b_data := blk\<rparr>) (int (length out));
     assertion ok;
     Some w }"

definition write_at :: "buffer \<Rightarrow> int \<Rightarrow> u8 list \<Rightarrow> buffer option" where
  "write_at work p bs = do { blk \<leftarrow> mem_write (b_data work) p bs; Some (work\<lparr>b_data := blk\<rparr>) }"

definition count_blocks :: "key_ctx \<Rightarrow> buffer \<Rightarrow> key_ctx" where
  "count_blocks ctx work = ctx\<lparr>kc_plaintext_blocks := kc_plaintext_blocks ctx
     + of_int ((buf_len work + (AEAD_LIMIT_BLOCKSIZE - 1)) div AEAD_LIMIT_BLOCKSIZE)\<rparr>"

subsection \<open>Sending\<close>

definition alloc_tag :: "buffer \<Rightarrow> (int \<times> buffer) option" where
  "alloc_tag work = (case buf_write_alloc work OPENVPN_AEAD_TAG_LENGTH of (None, _) \<Rightarrow> None | (Some p, w) \<Rightarrow> Some (p, w))"

text \<open>The part behind the preparation of the IV.\<close>

definition encrypt_payload ::
  "aead_seal \<Rightarrow> bool \<Rightarrow> cipher_ctx \<Rightarrow> u8 list \<Rightarrow> buffer \<Rightarrow> buffer \<Rightarrow> crypto_options \<Rightarrow> (buffer \<times> crypto_options) option" where
  "encrypt_payload seal epoch_format c iv buf work opt =
     (if \<not> buf_safe work (b_len buf + OPENVPN_AEAD_TAG_LENGTH + int (kt_block_size (cc_type c)))
      then Some (buf\<lparr>b_len := 0\<rparr>, opt)
      else do {
        ad \<leftarrow> bptr_read work (buf_len work);
        (mac_out, w1) \<leftarrow> (if \<not> epoch_format then alloc_tag work else Some (0, work));
        pt \<leftarrow> bptr_read buf (buf_len buf);
        let (ct, tag) = seal c iv ad pt;
        w2 \<leftarrow> cipher_output w1 ct;
        let opt1 = opt\<lparr>co_encrypt := count_blocks (co_encrypt opt) w2\<rparr>;
        (mac_out1, w3) \<leftarrow> (if epoch_format then alloc_tag w2 else Some (mac_out, w2));
        w4 \<leftarrow> write_at w3 mac_out1 tag;
        Some (w4, opt1) })"

definition openvpn_encrypt_aead ::
  "aead_seal \<Rightarrow> hmac_fn \<Rightarrow> (nat \<Rightarrow> u8) \<Rightarrow> time_t \<Rightarrow> bool \<Rightarrow> buffer \<Rightarrow> buffer \<Rightarrow> crypto_options \<Rightarrow> (buffer \<times> crypto_options) option" where
  "openvpn_encrypt_aead seal hmac junk now epoch_format buf work opt0 = do {
     opt \<leftarrow> (if epoch_format then epoch_check_send_iterate hmac junk opt0 else Some opt0);
     let ctx = co_encrypt opt;
     c \<leftarrow> kc_cipher ctx;
     assertion (packet_id_initialized (co_packet_id opt));
     let iv_len = kt_iv_size (cc_type c);
     assertion (iv_len \<ge> OPENVPN_AEAD_MIN_IV_LEN \<and> iv_len \<le> OPENVPN_MAX_IV_LENGTH);
     iv_buffer \<leftarrow> buf_set_write (Some (replicate OPENVPN_MAX_IV_LENGTH 0)) (int iv_len);
     (ok, snd', ivb) \<leftarrow> (if epoch_format
        then packet_id_write_epoch now (p_send (co_packet_id opt)) (kc_epoch ctx) iv_buffer
        else packet_id_write now (p_send (co_packet_id opt)) iv_buffer False False);
     let opt1 = opt\<lparr>co_packet_id := (co_packet_id opt)\<lparr>p_send := snd'\<rparr>\<rparr>;
     if \<not> ok then Some (buf\<lparr>b_len := 0\<rparr>, opt1)
     else do {
       iv \<leftarrow> b_data ivb;
       (ok1, w) \<leftarrow> buf_write work (take (nat (buf_len ivb)) iv);
       assertion ok1;
       encrypt_payload seal epoch_format c (xor_iv iv_len iv ctx) buf w opt1 } }"

subsection \<open>Receiving\<close>

definition set_slot :: "crypto_options \<Rightarrow> key_slot \<Rightarrow> key_ctx \<Rightarrow> crypto_options" where
  "set_slot opt slot ctx = (case slot of
     Current_key \<Rightarrow> opt\<lparr>co_decrypt := ctx\<rparr>
   | Retiring_key \<Rightarrow> opt\<lparr>co_epoch_retiring_data_receive_key := ctx\<rparr>
   | Future_key i \<Rightarrow> opt\<lparr>co_epoch_data_keys_future := (co_epoch_data_keys_future opt)[i := ctx]\<rparr>)"

text \<open>The exit of \<^verbatim>\<open>CRYPT_ERROR\<close> and \<^verbatim>\<open>CRYPT_DROP\<close>.\<close>

definition error_exit :: "buffer \<Rightarrow> crypto_options \<Rightarrow> bool \<times> buffer \<times> crypto_options" where
  "error_exit buf opt = (False, buf\<lparr>b_len := 0\<rparr>, opt)"

text \<open>The part behind the choice of the key: \<open>ivp\<close> are the bytes of the packet id and \<open>buf\<close> starts behind them.\<close>

definition decrypt_payload ::
  "aead_unseal \<Rightarrow> hmac_fn \<Rightarrow> (nat \<Rightarrow> u8) \<Rightarrow> time_t \<Rightarrow> bool \<Rightarrow> key_slot \<Rightarrow> u16 \<Rightarrow> packet_id_net \<Rightarrow> u8 list
     \<Rightarrow> buffer \<Rightarrow> buffer \<Rightarrow> int \<Rightarrow> nat \<Rightarrow> crypto_options \<Rightarrow> (bool \<times> buffer \<times> crypto_options) option" where
  "decrypt_payload unseal hmac junk now epoch_format slot epoch pin ivp buf work ad_start iv_len opt = do {
     let ctx = slot_ctx opt slot;
     c \<leftarrow> kc_cipher ctx;
     let iv = xor_iv iv_len (overwrite (replicate OPENVPN_MAX_IV_LENGTH 0) 0 ivp) ctx;
     bptr \<leftarrow> buf_bptr buf;
     ad \<leftarrow> mem_read (b_data buf) ad_start (bptr - ad_start);
     (tag, buf1, data_len) \<leftarrow> (if epoch_format
       then do {
         let data_len = buf_len buf - OPENVPN_AEAD_TAG_LENGTH;
         t \<leftarrow> mem_read (b_data buf) (bptr + data_len) OPENVPN_AEAD_TAG_LENGTH;
         Some (t, buf, data_len) }
       else do {
         t \<leftarrow> bptr_read buf OPENVPN_AEAD_TAG_LENGTH;
         let (ok, b) = buf_advance buf OPENVPN_AEAD_TAG_LENGTH;
         assertion ok;
         Some (t, b, buf_len b) });
     if \<not> buf_safe work (b_len buf1 + int (kt_block_size (cc_type c))) then Some (error_exit buf1 opt)
     else do {
       ct \<leftarrow> bptr_read buf1 data_len;
       case unseal c iv ad ct tag of
         Reset_failed \<Rightarrow> Some (error_exit buf1 opt)
       | Update_failed \<Rightarrow> Some (error_exit buf1 opt)
       | Tag_failed \<Rightarrow> Some (error_exit buf1
           (set_slot opt slot (ctx\<lparr>kc_failed_verifications := kc_failed_verifications ctx + 1\<rparr>)))
       | Opened pt \<Rightarrow> do {
           w \<leftarrow> cipher_output work pt;
           (ok, opt1) \<leftarrow> crypto_check_replay hmac junk now opt pin epoch;
           if \<not> ok then Some (error_exit buf1 opt1)
           else Some (True, w, opt1\<lparr>co_decrypt := count_blocks (co_decrypt opt1) w\<rparr>) } } }"

definition openvpn_decrypt_aead ::
  "aead_unseal \<Rightarrow> hmac_fn \<Rightarrow> (nat \<Rightarrow> u8) \<Rightarrow> time_t \<Rightarrow> bool \<Rightarrow> int \<Rightarrow> buffer \<Rightarrow> buffer \<Rightarrow> int \<Rightarrow> crypto_options
     \<Rightarrow> (bool \<times> buffer \<times> crypto_options) option" where
  "openvpn_decrypt_aead unseal hmac junk now epoch_format headroom buf work ad_start opt =
     (if \<not> epoch_format \<and> cipher_decrypt_verify_fail_exceeded (co_decrypt opt) then Some (error_exit buf opt)
      else do {
        assertion (b_len buf > 0);
        c \<leftarrow> kc_cipher (co_decrypt opt);
        bptr \<leftarrow> buf_bptr buf;
        assertion (0 \<le> ad_start \<and> ad_start \<le> bptr);
        let (ok, w) = buf_init work headroom;
        assertion ok;
        assertion (packet_id_initialized (co_packet_id opt));
        let min_packet_len = packet_id_size False + OPENVPN_AEAD_TAG_LENGTH + 1 + (if epoch_format then 4 else 0);
        if b_len buf < min_packet_len then Some (error_exit buf opt)
        else do {
          let iv_len = kt_iv_size (cc_type c);
          if epoch_format
          then do {
            ivp \<leftarrow> bptr_read buf 8;
            (epoch, pin, buf1) \<leftarrow> packet_id_read_epoch \<lparr>n_id = 0, n_time = 0\<rparr> buf;
            if epoch = 0 then Some (error_exit buf1 opt)
            else case epoch_lookup_decrypt_key opt epoch of
              None \<Rightarrow> Some (error_exit buf1 opt)
            | Some slot \<Rightarrow>
                if cipher_decrypt_verify_fail_exceeded (slot_ctx opt slot) then Some (error_exit buf1 opt)
                else decrypt_payload unseal hmac junk now True slot epoch pin ivp buf1 w ad_start iv_len opt }
          else do {
            ivp \<leftarrow> bptr_read buf 4;
            (ok1, pin, buf1) \<leftarrow> packet_id_read buf False;
            if \<not> ok1 then Some (error_exit buf1 opt)
            else decrypt_payload unseal hmac junk now False Current_key 0 pin ivp buf1 w ad_start iv_len opt } } })"

end
