(* ===== verification/Channel_Steps.thy ===== *)
theory Channel_Steps
  imports Data_Channel Packet_Id_Props
begin

text \<open>
  One step of the data channel in the epoch format: what \<^verbatim>\<open>openvpn_encrypt_aead\<close> puts on the wire, and that \<^verbatim>\<open>openvpn_decrypt_aead\<close> returns for
  every sequence of bytes. Both keep the invariant of the epoch keys.
\<close>

unbundle bit_operations_syntax

subsection \<open>The cipher\<close>

text \<open>
  What the code relies on for an AEAD cipher: the ciphertext is as long as the plaintext and the tag has 16 bytes; for
  the round trip, decryption undoes encryption.
\<close>

definition aead_lengths :: "aead_seal \<Rightarrow> aead_unseal \<Rightarrow> bool" where
  "aead_lengths seal unseal \<longleftrightarrow>
     (\<forall>c iv ad pt. length (fst (seal c iv ad pt)) = length pt \<and> length (snd (seal c iv ad pt)) = 16)
     \<and> (\<forall>c iv ad ct tag pt. unseal c iv ad ct tag = Opened pt \<longrightarrow> length pt = length ct)"

definition aead_inverse :: "aead_seal \<Rightarrow> aead_unseal \<Rightarrow> bool" where
  "aead_inverse seal unseal \<longleftrightarrow>
     (\<forall>c iv ad pt. unseal c iv ad (fst (seal c iv ad pt)) (snd (seal c iv ad pt)) = Opened pt)"

subsection \<open>Headers\<close>

text \<open>The first eight bytes of a packet behind its opcode: 16 bits of epoch and 48 bits of packet number.\<close>

definition header_of :: "u8 list \<Rightarrow> u16 \<times> packet_id_net" where
  "header_of bs = (ucast (drop_bit 48 (be_u64 bs)), \<lparr>n_id = be_u64 bs AND PACKET_ID_MASK, n_time = 0\<rparr>)"

definition epoch_header :: "u16 \<Rightarrow> u64 \<Rightarrow> u8 list" where
  "epoch_header e x = u64_be (push_bit 48 (ucast e) OR x)"

lemma length_epoch_header [simp]: "length (epoch_header e x) = 8"
  by (simp add: epoch_header_def)

lemma header_of_epoch_header [simp]:
  "x \<le> PACKET_ID_EPOCH_MAX \<Longrightarrow> header_of (epoch_header e x) = (e, \<lparr>n_id = x, n_time = 0\<rparr>)"
  by (simp only: header_of_def epoch_header_def be_u64_u64_be u16_of_epoch_word)

subsection \<open>Changes that keep the invariant\<close>

lemma same_key_counters [simp]:
  "same_key (count_blocks k w) k" "same_key (k\<lparr>kc_failed_verifications := n\<rparr>) k"
  by (simp_all add: same_key_def count_blocks_def)

lemma same_key_trans: "same_key a b \<Longrightarrow> same_key b c \<Longrightarrow> same_key a c"
  by (simp add: same_key_def)

text \<open>Two states that differ in the counters of their keys only.\<close>

definition same_keys :: "crypto_options \<Rightarrow> crypto_options \<Rightarrow> bool" where
  "same_keys co co' \<longleftrightarrow> same_key (co_encrypt co') (co_encrypt co) \<and> same_key (co_decrypt co') (co_decrypt co)
     \<and> same_key (co_epoch_retiring_data_receive_key co') (co_epoch_retiring_data_receive_key co)
     \<and> list_all2 same_key (co_epoch_data_keys_future co') (co_epoch_data_keys_future co)
     \<and> co_initialized co' = co_initialized co \<and> co_epoch_key_send co' = co_epoch_key_send co \<and> co_epoch_key_recv co' = co_epoch_key_recv co
     \<and> co_epoch_key_type co' = co_epoch_key_type co \<and> co_epoch_data_keys_future_count co' = co_epoch_data_keys_future_count co
     \<and> co_epoch_retiring_key_pid_recv co' = co_epoch_retiring_key_pid_recv co \<and> p_rec (co_packet_id co') = p_rec (co_packet_id co)"

lemma same_keys_epochs:
  assumes "same_keys co co'"
  shows "co_recv_epoch co' = co_recv_epoch co" "co_send_epoch co' = co_send_epoch co" "co_retiring_epoch co' = co_retiring_epoch co"
    "co_futures co' = co_futures co" "epoch_covered co' = epoch_covered co"
  using assms by (auto simp: same_keys_def same_key_def co_epochs epoch_covered_def fun_eq_iff)

lemma same_keys_inv:
  assumes "same_keys co co'" and "epoch_inv hmac ks kr co" and "s_id (p_send (co_packet_id co')) \<le> PACKET_ID_EPOCH_MAX"
  shows "epoch_inv hmac ks kr co'"
proof -
  note inv = epoch_invD [OF assms(2)]
  note sk = assms(1) [unfolded same_keys_def]
  have fut: "same_key (co_epoch_data_keys_future co' ! j) (data_key_at hmac (co_epoch_key_type co) kr (co_recv_epoch co + 1 + j))"
    if "j < co_futures co" for j
    using sk inv(4) inv(13) [OF that] that same_key_trans by (auto simp: list_all2_conv_all_nth)
  have "length (co_epoch_data_keys_future co') = length (co_epoch_data_keys_future co)"
    using sk by (auto dest: list_all2_lengthD)
  then show ?thesis
    unfolding epoch_inv_def Let_def same_keys_epochs [OF assms(1)]
    using sk inv assms(3) fut same_key_trans by simp blast
qed

lemma same_keys_encrypt:
  "same_key k (co_encrypt co) \<Longrightarrow> same_keys co (co\<lparr>co_packet_id := (co_packet_id co)\<lparr>p_send := s\<rparr>, co_encrypt := k\<rparr>)"
  "same_key k (co_decrypt co) \<Longrightarrow> same_keys co (co\<lparr>co_decrypt := k\<rparr>)"
  by (simp_all add: same_keys_def list_all2_same)

lemma same_keys_slot:
  assumes "same_key k (slot_ctx co slot)" and "\<And>i. slot = Future_key i \<Longrightarrow> i < length (co_epoch_data_keys_future co)"
  shows "same_keys co (set_slot co slot k)"
proof (cases slot)
  case (Future_key i)
  then show ?thesis using assms by (auto simp: same_keys_def set_slot_def list_all2_conv_all_nth nth_list_update)
qed (use assms in \<open>simp_all add: same_keys_def set_slot_def list_all2_same\<close>)

lemma set_slot_send [simp]: "co_packet_id (set_slot co slot k) = co_packet_id co"
  by (cases slot) (simp_all add: set_slot_def)

subsection \<open>Writing the output\<close>

lemma cipher_output_eq:
  assumes "buf_wf w" and "buf_safe w (int (length out))"
  shows "cipher_output w out = Some (buf_appended w out)"
  using assms(1)
proof (cases rule: buf_wf_cases)
  case null
  with assms show ?thesis by (simp add: buf_safe_def)
next
  case (block xs p l)
  then have "p + l + length out \<le> length xs" "int (length out) < BUF_SIZE_MAX" using assms(2) by (auto simp: buf_safe_wf)
  then show ?thesis using block
    by (simp add: cipher_output_def buf_bend_def mem_write_Some buf_inc_len_def buf_safe_bidir_def buf_appended_def
        buf_valid_def buf_size_valid_signed_def Let_def nat_add_distrib BUF_SIZE_MAX_def del: bind_Some_iff)
qed

lemma alloc_tag_eq:
  assumes "buf_wf w" and "buf_safe w 16" and "length tag = 16"
  shows "do { (p, w1) \<leftarrow> alloc_tag w; write_at w1 p tag } = Some (buf_appended w tag)"
  using assms(1)
proof (cases rule: buf_wf_cases)
  case null
  with assms show ?thesis by (simp add: buf_safe_def)
next
  case (block xs p l)
  then show ?thesis using assms
    by (simp add: alloc_tag_def OPENVPN_AEAD_TAG_LENGTH_def write_at_def buf_write_alloc_def mem_write_Some buf_safe_wf buf_appended_def
        nat_add_distrib del: bind_Some_iff)
qed

lemma encrypt_payload_eq:
  assumes "aead_lengths seal unseal" and "buf_wf buf" and "buf_wf w" and "seal c iv (buf_content w) (buf_content buf) = (ct, tag)"
  shows "encrypt_payload seal True c iv buf w opt =
    Some (if buf_safe w (b_len buf + 16 + int (kt_block_size (cc_type c)))
      then (buf_appended (buf_appended w ct) tag, opt\<lparr>co_encrypt := count_blocks (co_encrypt opt) (buf_appended w ct)\<rparr>)
      else (buf\<lparr>b_len := 0\<rparr>, opt))"
proof (cases "buf_safe w (b_len buf + 16 + int (kt_block_size (cc_type c)))")
  case True
  have len: "length ct = length (buf_content buf)" "length tag = 16"
    using assms(1,4) unfolding aead_lengths_def by (metis fst_conv, metis snd_conv)
  have ct: "int (length ct) = b_len buf" using len(1) assms(2) by simp
  have fields: "0 \<le> b_len buf" "b_data w \<noteq> None" "b_offset w + b_len w + b_len buf + 16 \<le> b_capacity w"
    using buf_wf_fields [OF assms(2)] True by (auto simp: buf_safe_def buf_valid_def)
  have s1: "buf_safe w (int (length ct))" using fields assms(3) ct by (simp add: buf_safe_wf)
  define w1 where "w1 = buf_appended w ct"
  have w1: "buf_wf w1" "buf_safe w1 16"
    using buf_appended_wf(1) [OF assms(3) s1] fields ct by (simp_all add: w1_def buf_safe_wf)
  show ?thesis
    using True cipher_output_eq [OF assms(3) s1] alloc_tag_eq [OF w1 len(2)] assms(2-4)
    by (cases "alloc_tag w1") (auto simp: encrypt_payload_def OPENVPN_AEAD_TAG_LENGTH_def w1_def Let_def simp del: bind_Some_iff)
qed (simp add: encrypt_payload_def OPENVPN_AEAD_TAG_LENGTH_def)

subsection \<open>Sending\<close>

text \<open>The nonce for a packet: its header, padded, combined with the implicit IV of the key.\<close>

definition packet_nonce :: "key_ctx \<Rightarrow> nat \<Rightarrow> u8 list \<Rightarrow> u8 list" where
  "packet_nonce k n header = xor_iv n (header @ replicate 8 0) k"

lemma iv_buffer_write:
  assumes "12 \<le> n" and "n \<le> 16" and "packet_id_send_update_epoch now s = (True, s')"
  shows "do { b \<leftarrow> buf_set_write (Some (replicate OPENVPN_MAX_IV_LENGTH 0)) (int n); packet_id_write_epoch now s e b }
    = Some (True, s', \<lparr>b_capacity = int n, b_offset = 0, b_len = 8, b_data = Some (epoch_header e (s_id s') @ replicate 8 0)\<rparr>)"
proof -
  have z: "overwrite (replicate 16 0) 0 [0 :: u8] = replicate 16 0" by (simp add: overwrite_def numeral_eq_Suc)
  have o: "overwrite (replicate 16 0) 0 (epoch_header e x) = epoch_header e x @ replicate 8 0" for x
    by (simp add: overwrite_def)
  show ?thesis
    using assms z o [of "s_id s'"]
    by (simp add: buf_set_write_def buf_size_valid_def BUF_SIZE_MAX_def OPENVPN_MAX_IV_LENGTH_def mem_write_Some packet_id_write_epoch_def
        epoch_header_def [symmetric] buf_write_def buf_write_alloc_def buf_safe_def buf_valid_def buf_bptr_def Let_def del: bind_Some_iff)
qed

lemma iv_buffer_full:
  assumes "12 \<le> n" and "n \<le> 16" and "packet_id_send_update_epoch now s = (False, s')"
  shows "\<exists>b'. do { b \<leftarrow> buf_set_write (Some (replicate OPENVPN_MAX_IV_LENGTH 0)) (int n); packet_id_write_epoch now s e b }
    = Some (False, s', b')"
  using assms by (simp add: buf_set_write_def buf_size_valid_def BUF_SIZE_MAX_def OPENVPN_MAX_IV_LENGTH_def mem_write_Some
      packet_id_write_epoch_def del: bind_Some_iff)

text \<open>The position of the sending side: epoch and number of the last packet.\<close>

definition send_le :: "crypto_options \<Rightarrow> crypto_options \<Rightarrow> bool" where
  "send_le co co' \<longleftrightarrow> co_send_epoch co < co_send_epoch co'
     \<or> co_send_epoch co = co_send_epoch co' \<and> s_id (p_send (co_packet_id co)) \<le> s_id (p_send (co_packet_id co'))"

definition sent_after :: "crypto_options \<Rightarrow> u16 \<times> packet_id_net \<Rightarrow> bool" where
  "sent_after co h \<longleftrightarrow> co_send_epoch co < unat (fst h)
     \<or> co_send_epoch co = unat (fst h) \<and> s_id (p_send (co_packet_id co)) < n_id (snd h)"

lemma send_forward_le: "send_forward co co' \<Longrightarrow> send_le co co'"
  by (auto simp: send_forward_def send_le_def)

lemma send_le_trans: "send_le a b \<Longrightarrow> send_le b c \<Longrightarrow> send_le a c"
  by (auto simp: send_le_def)

lemma sent_after_le: "send_le co co' \<Longrightarrow> sent_after co' h \<Longrightarrow> sent_after co h"
  by (auto simp: send_le_def sent_after_def)

lemma with_send_key_same [simp]:
  "epoch_covered (with_send_key hmac ks s co) = epoch_covered co" "co_epoch_key_type (with_send_key hmac ks s co) = co_epoch_key_type co"
  by (simp_all add: epoch_covered_def with_send_key_def co_epochs fun_eq_iff)

text \<open>
  The outcome of sending: the state stays in order and the receiving side as it is; either there is no packet, or the
  packet consists of the header of \<open>work\<close>, a packet id larger than any before, the ciphertext and the tag.
\<close>

definition packet_parts :: "aead_seal \<Rightarrow> hmac_fn \<Rightarrow> key_type \<Rightarrow> u8 list \<Rightarrow> u16 \<Rightarrow> u64 \<Rightarrow> u8 list \<Rightarrow> u8 list \<Rightarrow> u8 list \<times> u8 list" where
  "packet_parts seal hmac kt k1 e x ad pt =
     (let k = data_key_at hmac kt k1 (unat e); h = epoch_header e x
      in seal (the (kc_cipher k)) (packet_nonce k (kt_iv_size kt) h) (ad @ h) pt)"

definition wire_packet :: "aead_seal \<Rightarrow> hmac_fn \<Rightarrow> key_type \<Rightarrow> u8 list \<Rightarrow> u16 \<Rightarrow> u64 \<Rightarrow> u8 list \<Rightarrow> u8 list \<Rightarrow> u8 list" where
  "wire_packet seal hmac kt k1 e x ad pt = (let (ct, tag) = packet_parts seal hmac kt k1 e x ad pt in epoch_header e x @ ct @ tag)"

definition sending :: "aead_seal \<Rightarrow> hmac_fn \<Rightarrow> u8 list \<Rightarrow> u8 list \<Rightarrow> buffer \<Rightarrow> buffer \<Rightarrow> crypto_options \<Rightarrow> buffer \<Rightarrow> crypto_options \<Rightarrow> bool" where
  "sending seal hmac ks kr buf work co b co' \<longleftrightarrow> epoch_inv hmac ks kr co' \<and> epoch_covered co' = epoch_covered co \<and> send_le co co'
     \<and> co_send_epoch co' = co_send_epoch co \<and> co_epoch_key_type co' = co_epoch_key_type co
     \<and> (b_len b = 0 \<or> (\<exists>e x. buf_wf b \<and> unat e = co_send_epoch co' \<and> x = s_id (p_send (co_packet_id co')) \<and> x \<le> PACKET_ID_EPOCH_MAX
         \<and> x = s_id (p_send (co_packet_id co)) + 1 \<and> sent_after co (e, \<lparr>n_id = x, n_time = 0\<rparr>)
         \<and> buf_content b = buf_content work @ wire_packet seal hmac (co_epoch_key_type co) ks e x (buf_content work) (buf_content buf)))"

lemma update_epoch_step:
  assumes "packet_id_send_update_epoch now s = (ok, s')" and "s_id s \<le> PACKET_ID_EPOCH_MAX"
  shows "s_id s' \<le> PACKET_ID_EPOCH_MAX" and "ok \<Longrightarrow> s_id s < s_id s'" and "\<not> ok \<Longrightarrow> s_id s' = s_id s"
    and "\<not> ok \<longleftrightarrow> s_id s = PACKET_ID_EPOCH_MAX"
    and "ok \<Longrightarrow> s_id s' = s_id s + 1"
  using assms word_less_inc [OF assms(2)] by (auto simp: packet_id_send_update_epoch_def Let_def split: if_splits)

lemma kc_cipher_same: "same_key k (data_key_at hmac kt k1 n) \<Longrightarrow>
  \<exists>c. kc_cipher k = Some c \<and> cc_type c = kt \<and> kc_cipher (data_key_at hmac kt k1 n) = Some c \<and> kc_implicit_iv k = kc_implicit_iv (data_key_at hmac kt k1 n)"
  by (auto simp: same_key_def data_key_at_def Let_def)

lemma packet_id_initialized_inv: "epoch_inv hmac ks kr co \<Longrightarrow> packet_id_initialized (co_packet_id co)"
  using epoch_invD(16) by (fastforce simp: packet_id_initialized_def rec_ok_def rec_inv_def)

lemma encrypt_payload_ok:
  assumes "aead_lengths seal unseal" and "buf_wf buf" and "buf_wf w" and "seal c iv (buf_content w) (buf_content buf) = (ct, tag)"
  shows "\<exists>b k. encrypt_payload seal True c iv buf w opt = Some (b, opt\<lparr>co_encrypt := k\<rparr>) \<and> same_key k (co_encrypt opt)
    \<and> (if has_room False w (b_len buf + 16 + int (kt_block_size (cc_type c)))
        then buf_wf b \<and> buf_content b = buf_content w @ ct @ tag else b_len b = 0)"
proof (cases "buf_safe w (b_len buf + 16 + int (kt_block_size (cc_type c)))")
  case True
  have len: "int (length ct) = b_len buf" "length tag = 16"
    using assms unfolding aead_lengths_def by (metis fst_conv length_buf_content, metis snd_conv)
  have room: "0 \<le> b_len buf" "b_data w \<noteq> None" "b_offset w + b_len w + b_len buf + 16 \<le> b_capacity w"
    using buf_wf_fields [OF assms(2)] True by (auto simp: buf_safe_def buf_valid_def)
  have s1: "buf_safe w (int (length ct))" using room assms(3) len by (simp add: buf_safe_wf)
  have s2: "buf_safe (buf_appended w ct) (int (length tag))"
    using room len buf_appended_wf(1) [OF assms(3) s1] by (simp add: buf_safe_wf)
  have "has_room False w (b_len buf + 16 + int (kt_block_size (cc_type c)))"
    using True room(2) by (simp add: buf_safe_def has_room_def)
  then show ?thesis
    using True encrypt_payload_eq [OF assms, of opt] buf_appended_wf [OF assms(3) s1] buf_appended_wf [OF _ s2] by auto
next
  case False
  have "\<not> has_room False w (b_len buf + 16 + int (kt_block_size (cc_type c)))"
    using False has_room_safe [OF assms(3)] buf_wf_fields [OF assms(2)] by fastforce
  then show ?thesis
    using False encrypt_payload_eq [OF assms, of opt]
    by (intro exI [of _ "buf\<lparr>b_len := 0\<rparr>"] exI [of _ "co_encrypt opt"]) (cases opt, simp)
qed

lemma encrypt_start:
  assumes "epoch_check_send_iterate hmac junk co0 = Some co" and "kc_cipher (co_encrypt co) = Some c" and "packet_id_initialized (co_packet_id co)"
    and "12 \<le> kt_iv_size (cc_type c)" and "kt_iv_size (cc_type c) \<le> 16"
  shows "openvpn_encrypt_aead seal hmac junk now True buf work co0 = do {
     (ok, snd', ivb) \<leftarrow> do { b \<leftarrow> buf_set_write (Some (replicate OPENVPN_MAX_IV_LENGTH 0)) (int (kt_iv_size (cc_type c)));
        packet_id_write_epoch now (p_send (co_packet_id co)) (kc_epoch (co_encrypt co)) b };
     let opt1 = co\<lparr>co_packet_id := (co_packet_id co)\<lparr>p_send := snd'\<rparr>\<rparr>;
     if \<not> ok then Some (buf\<lparr>b_len := 0\<rparr>, opt1)
     else do {
       iv \<leftarrow> b_data ivb;
       (ok1, w) \<leftarrow> buf_write work (take (nat (buf_len ivb)) iv);
       assertion ok1;
       encrypt_payload seal True c (xor_iv (kt_iv_size (cc_type c)) iv (co_encrypt co)) buf w opt1 } }"
  using assms by (simp add: openvpn_encrypt_aead_def key_consts Let_def bind_assoc del: bind_Some_iff)

lemma encrypt_step:
  assumes "aead_lengths seal unseal" and "epoch_inv hmac ks kr co" and "buf_wf buf" and "buf_wf work" and "has_room False work 8"
    and "epoch_check_send_iterate hmac junk co0 = Some co"
  shows "\<exists>b co'. openvpn_encrypt_aead seal hmac junk now True buf work co0 = Some (b, co') \<and> sending seal hmac ks kr buf work co b co'
    \<and> (has_room False work (24 + b_len buf + int (kt_block_size (co_epoch_key_type co))) \<and> s_id (p_send (co_packet_id co)) \<noteq> PACKET_ID_EPOCH_MAX
        \<longrightarrow> b_len b \<noteq> 0)"
proof -
  note inv = epoch_invD [OF assms(2)]
  define kt where "kt = co_epoch_key_type co"
  define e where "e = kc_epoch (co_encrypt co)"
  define n where "n = kt_iv_size kt"
  have e: "unat e = co_send_epoch co" by (simp add: e_def co_send_epoch_def)
  have n: "12 \<le> n" "n \<le> 16" using inv(2) by (simp_all add: aead_type_def kt_def n_def)
  obtain c where c: "kc_cipher (co_encrypt co) = Some c" "cc_type c = kt" "kc_cipher (data_key_at hmac kt ks (unat e)) = Some c"
      "kc_implicit_iv (co_encrypt co) = kc_implicit_iv (data_key_at hmac kt ks (unat e))"
    using kc_cipher_same [OF inv(12)] by (auto simp: kt_def e)
  obtain ok s where s: "packet_id_send_update_epoch now (p_send (co_packet_id co)) = (ok, s)" by fastforce
  note st = update_epoch_step [OF s inv(17)]
  define co1 where "co1 = co\<lparr>co_packet_id := (co_packet_id co)\<lparr>p_send := s\<rparr>\<rparr>"
  have keys: "same_keys co (co1\<lparr>co_encrypt := k\<rparr>)" if "same_key k (co_encrypt co)" for k
    using same_keys_encrypt(1) [OF that, of s] by (simp add: co1_def)
  have good: "epoch_inv hmac ks kr (co1\<lparr>co_encrypt := k\<rparr>)" "epoch_covered (co1\<lparr>co_encrypt := k\<rparr>) = epoch_covered co"
      "send_le co (co1\<lparr>co_encrypt := k\<rparr>)" "co_send_epoch (co1\<lparr>co_encrypt := k\<rparr>) = unat e" "co_epoch_key_type (co1\<lparr>co_encrypt := k\<rparr>) = co_epoch_key_type co" if "same_key k (co_encrypt co)" for k
    using same_keys_inv [OF keys [OF that] assms(2)] same_keys_epochs [OF keys [OF that]] st(1-3)
    by (cases ok; auto simp: co1_def send_le_def e)+
  have co1: "co1 = co1\<lparr>co_encrypt := co_encrypt co\<rparr>" by (cases co) (simp add: co1_def)
  note start = encrypt_start [OF assms(6) c(1) packet_id_initialized_inv [OF assms(2)], of seal now buf work,
      unfolded c(2) n_def [symmetric] e_def [symmetric], OF n]
  show ?thesis
  proof (cases ok)
    case False
    then obtain b' where iv: "do { b \<leftarrow> buf_set_write (Some (replicate OPENVPN_MAX_IV_LENGTH 0)) (int n);
        packet_id_write_epoch now (p_send (co_packet_id co)) e b } = Some (False, s, b')"
      using iv_buffer_full [OF n, of now "p_send (co_packet_id co)" s e] s by (auto simp del: bind_Some_iff)
    then have "openvpn_encrypt_aead seal hmac junk now True buf work co0 = Some (buf\<lparr>b_len := 0\<rparr>, co1)"
      unfolding start iv by (simp add: co1_def)
    then show ?thesis using good [OF same_key_refl] co1 e st(4) False by (auto simp: sending_def)
  next
    case True
    define h where "h = epoch_header e (s_id s)"
    have iv: "do { b \<leftarrow> buf_set_write (Some (replicate OPENVPN_MAX_IV_LENGTH 0)) (int n);
        packet_id_write_epoch now (p_send (co_packet_id co)) e b }
      = Some (True, s, \<lparr>b_capacity = int n, b_offset = 0, b_len = 8, b_data = Some (h @ replicate 8 0)\<rparr>)"
      using iv_buffer_write [OF n] s True by (simp add: h_def)
    have h: "length h = 8" "int (length h) = 8" by (simp_all add: h_def)
    define w where "w = buf_appended work h"
    have w: "buf_write work h = Some (True, w)" "buf_wf w" "buf_content w = buf_content work @ h"
      using buf_write_room [OF assms(4), of h] assms(5) h by (simp_all add: w_def)
    obtain ct tag where ct: "seal c (packet_nonce (data_key_at hmac kt ks (unat e)) n h) (buf_content work @ h) (buf_content buf) = (ct, tag)" by fastforce
    have nonce: "xor_iv n (h @ replicate 8 0) (co_encrypt co) = packet_nonce (data_key_at hmac kt ks (unat e)) n h"
      using c(4) by (simp add: packet_nonce_def xor_iv_def)
    have run: "openvpn_encrypt_aead seal hmac junk now True buf work co0
        = encrypt_payload seal True c (packet_nonce (data_key_at hmac kt ks (unat e)) n h) buf w co1"
      unfolding start iv using w(1) h by (simp add: buf_len_def buf_valid_def co1_def nonce del: bind_Some_iff)
    obtain b k where out: "openvpn_encrypt_aead seal hmac junk now True buf work co0 = Some (b, co1\<lparr>co_encrypt := k\<rparr>)"
        "same_key k (co_encrypt co)" "if has_room False w (b_len buf + 16 + int (kt_block_size (cc_type c)))
          then buf_wf b \<and> buf_content b = buf_content w @ ct @ tag else b_len b = 0"
      using encrypt_payload_ok [OF assms(1,3) w(2), of c "packet_nonce (data_key_at hmac kt ks (unat e)) n h" ct tag co1] run ct w(3)
      by (auto simp: co1_def)
    have "packet_parts seal hmac kt ks e (s_id s) (buf_content work) (buf_content buf) = (ct, tag)"
      using ct c(3) by (simp add: packet_parts_def h_def n_def Let_def)
    then have "b_len b = 0 \<or> buf_wf b \<and>
        buf_content b = buf_content work @ wire_packet seal hmac kt ks e (s_id s) (buf_content work) (buf_content buf)"
      using out(3) w(3) by (auto simp: wire_packet_def h_def split: if_splits)
    moreover have "sent_after co (e, \<lparr>n_id = s_id s, n_time = 0\<rparr>)" using st(2) True e by (simp add: sent_after_def)
    moreover have "b_len b \<noteq> 0" if "has_room False work (24 + b_len buf + int (kt_block_size kt))"
    proof -
      have "has_room False w (b_len buf + 16 + int (kt_block_size (cc_type c)))"
        using that buf_write_room(4) [OF assms(4), of h] assms(5) h c(2) by (simp add: w_def algebra_simps)
      then have "buf_wf b" "buf_content b \<noteq> []" using out(3) w(3) h(1) by auto
      then show ?thesis using buf_content_Nil_iff by blast
    qed
    ultimately show ?thesis
      using out(1) good [OF out(2)] e st(1) st(5) [OF True] unfolding sending_def by (auto simp: kt_def co1_def)
  qed
qed

subsection \<open>Receiving\<close>

text \<open>The authenticated bytes of a packet, from the opcode up to the end of the packet id, and its opening with the key of its epoch.\<close>

definition packet_ad :: "buffer \<Rightarrow> int \<Rightarrow> u8 list" where
  "packet_ad buf ad_start = take (nat (b_offset buf + 8 - ad_start)) (drop (nat ad_start) (the (b_data buf)))"

definition open_packet :: "aead_unseal \<Rightarrow> hmac_fn \<Rightarrow> key_type \<Rightarrow> u8 list \<Rightarrow> u8 list \<Rightarrow> u8 list \<Rightarrow> aead_result" where
  "open_packet unseal hmac kt k1 ad packet =
     (let h = take 8 packet; k = data_key_at hmac kt k1 (unat (fst (header_of h)))
      in unseal (the (kc_cipher k)) (packet_nonce k (kt_iv_size kt) h) ad
           (take (length packet - 24) (drop 8 packet)) (drop (length packet - 16) packet))"

text \<open>
  The outcome of receiving: the state stays in order and the sending side does not go back; what was refused stays
  refused. Bytes are delivered only if they come out of the cipher with the key of the epoch that the packet
  names, and if epoch and number are new; they are refused from then on.
\<close>

definition receiving ::
  "aead_unseal \<Rightarrow> hmac_fn \<Rightarrow> u8 list \<Rightarrow> u8 list \<Rightarrow> buffer \<Rightarrow> int \<Rightarrow> crypto_options \<Rightarrow> bool \<Rightarrow> buffer \<Rightarrow> crypto_options \<Rightarrow> bool" where
  "receiving unseal hmac ks kr buf ad_start co ok b co' \<longleftrightarrow> epoch_inv hmac ks kr co' \<and> send_le co co'
     \<and> co_epoch_key_type co' = co_epoch_key_type co \<and> co_futures co' = co_futures co \<and> (\<forall>q. epoch_covered co q \<longrightarrow> epoch_covered co' q)
     \<and> (let h = header_of (take 8 (buf_content buf))
        in if ok then 24 < b_len buf \<and> \<not> epoch_covered co h \<and> epoch_covered co' h \<and> buf_wf b
             \<and> open_packet unseal hmac (co_epoch_key_type co) kr (packet_ad buf ad_start) (buf_content buf) = Opened (buf_content b)
           else b_len b = 0)"

lemma receiving_refused:
  assumes "epoch_inv hmac ks kr co'" and "same_keys co co'" and "p_send (co_packet_id co') = p_send (co_packet_id co)"
  shows "receiving unseal hmac ks kr buf ad_start co False (b\<lparr>b_len := 0\<rparr>) co'"
  using assms same_keys_epochs [OF assms(2)] by (simp add: receiving_def send_le_def same_keys_def)

lemma same_options_refl [simp]: "same_keys co co"
  by (simp add: same_keys_def list_all2_same)

lemma packet_id_read_epoch_header:
  assumes "buf_wf buf" and "8 \<le> b_len buf"
  shows "packet_id_read_epoch \<lparr>n_id = 0, n_time = 0\<rparr> buf
    = Some (fst (header_of (take 8 (buf_content buf))), snd (header_of (take 8 (buf_content buf))), buf_consumed buf 8)"
  using assms by (simp add: packet_id_read_epoch_def buf_read_pos header_of_def Let_def)

lemma mem_read_content:
  assumes "buf_wf b" and "b_data b = Some xs" and "0 \<le> i" and "i + n \<le> b_len b" and "0 \<le> n"
  shows "mem_read (Some xs) (b_offset b + i) n = Some (take (nat n) (drop (nat i) (buf_content b)))"
proof -
  have "0 \<le> b_offset b" "b_offset b + b_len b \<le> int (length xs)" using assms(1,2) by (auto simp: buf_wf_def)
  then show ?thesis
    using assms by (simp add: mem_read_Some buf_content_def drop_take nat_add_distrib add.commute take_take min_def nat_le_iff nat_diff_distrib)
qed

text \<open>The part of the function behind the choice of the key.\<close>

lemma decrypt_payload_eq:
  assumes "buf_wf buf" and "24 < b_len buf" and "buf_wf w" and "0 \<le> ad_start" and "ad_start \<le> b_offset buf"
    and "epoch_inv hmac ks kr co" and "epoch_lookup_decrypt_key co (fst (header_of (take 8 (buf_content buf)))) = Some slot"
    and "h = header_of (take 8 (buf_content buf))" and "kt = co_epoch_key_type co"
  shows "decrypt_payload unseal hmac junk now True slot (fst h) (snd h) (take 8 (buf_content buf)) (buf_consumed buf 8) w ad_start (kt_iv_size kt) co =
    (if \<not> buf_safe w (b_len buf - 8 + int (kt_block_size kt)) then Some (error_exit (buf_consumed buf 8) co)
     else case open_packet unseal hmac kt kr (packet_ad buf ad_start) (buf_content buf) of
        Reset_failed \<Rightarrow> Some (error_exit (buf_consumed buf 8) co)
      | Update_failed \<Rightarrow> Some (error_exit (buf_consumed buf 8) co)
      | Tag_failed \<Rightarrow> Some (error_exit (buf_consumed buf 8)
          (set_slot co slot ((slot_ctx co slot)\<lparr>kc_failed_verifications := kc_failed_verifications (slot_ctx co slot) + 1\<rparr>)))
      | Opened pt \<Rightarrow> do {
          w1 \<leftarrow> cipher_output w pt;
          (ok, co1) \<leftarrow> crypto_check_replay hmac junk now co (snd h) (fst h);
          if \<not> ok then Some (error_exit (buf_consumed buf 8) co1)
          else Some (True, w1, co1\<lparr>co_decrypt := count_blocks (co_decrypt co1) w1\<rparr>) })"
proof -
  define p where "p = buf_content buf"
  define k where "k = data_key_at hmac kt kr (unat (fst h))"
  have len: "int (length p) = b_len buf" using assms(1) by (simp add: p_def)
  then have len8: "length (take 8 p) = 8" "24 < length p" using assms(2) by simp_all
  obtain xs where xs: "b_data buf = Some xs" using buf_data_pos [OF assms(1)] assms(2) by fastforce
  obtain c where c: "kc_cipher (slot_ctx co slot) = Some c" "cc_type c = kt" "kc_cipher k = Some c"
      "kc_implicit_iv (slot_ctx co slot) = kc_implicit_iv k"
    using kc_cipher_same [OF epoch_lookup_key(1) [OF assms(6,7)]] assms(8,9) by (auto simp: k_def)
  have c1: "buf_wf (buf_consumed buf 8)" "b_data (buf_consumed buf 8) = Some xs" "buf_content (buf_consumed buf 8) = drop 8 p"
    using buf_consumed_wf [OF assms(1), of 8] assms(2) xs by (simp_all add: p_def)
  have bptr: "buf_bptr (buf_consumed buf 8) = Some (b_offset buf + 8)" "buf_len (buf_consumed buf 8) = b_len buf - 8"
    using c1 assms(2) by (simp_all add: buf_bptr_def buf_valid_def)
  have fields: "0 \<le> b_offset buf" "b_offset buf + b_len buf \<le> int (length xs)" using assms(1) xs by (auto simp: buf_wf_def)
  have ad: "mem_read (Some xs) ad_start (b_offset buf + 8 - ad_start) = Some (packet_ad buf ad_start)"
    using fields assms(2,4,5) xs by (simp add: mem_read_Some packet_ad_def)
  have iv: "xor_iv (kt_iv_size kt) (overwrite (replicate OPENVPN_MAX_IV_LENGTH 0) 0 (take 8 p)) (slot_ctx co slot)
      = packet_nonce k (kt_iv_size kt) (take 8 p)"
    using len8 c(4) by (simp add: packet_nonce_def xor_iv_def overwrite_def OPENVPN_MAX_IV_LENGTH_def)
  have ct: "bptr_read (buf_consumed buf 8) (b_len buf - 24) = Some (take (length p - 24) (drop 8 p))"
  proof -
    have "nat (b_len buf - 24) = length p - 24" using len by linarith
    then show ?thesis using bptr_read_wf [OF c1(1), of "b_len buf - 24"] assms(2) c1(3) by simp
  qed
  have tag: "mem_read (Some xs) (b_offset buf + b_len buf - 16) 16 = Some (drop (length p - 16) p)"
  proof -
    have "nat (b_len buf - 16) = length p - 16" "b_offset buf + (b_len buf - 16) = b_offset buf + b_len buf - 16"
      using len by linarith+
    then show ?thesis
      using mem_read_content [OF assms(1) xs, of "b_len buf - 16" 16] assms(2) len8 by (simp add: p_def [symmetric] add_diff_eq)
  qed
  show ?thesis
    unfolding decrypt_payload_def p_def [symmetric] Let_def
    using c ad iv ct tag bptr c1(2)
    by (simp add: OPENVPN_AEAD_TAG_LENGTH_def open_packet_def Let_def k_def assms(8) p_def [symmetric] del: bind_Some_iff)
qed

lemma decrypt_start:
  assumes "epoch_inv hmac ks kr co" and "buf_wf buf" and "0 < b_len buf" and "0 \<le> ad_start" and "ad_start \<le> b_offset buf"
    and "buf_wf work" and "b_data work \<noteq> None" and "0 \<le> headroom" and "headroom \<le> b_capacity work"
    and "h = header_of (take 8 (buf_content buf))" and "w = work\<lparr>b_len := 0, b_offset := headroom\<rparr>"
  shows "openvpn_decrypt_aead unseal hmac junk now True headroom buf work ad_start co =
    (if b_len buf < 25 then Some (error_exit buf co)
     else if fst h = 0 then Some (error_exit (buf_consumed buf 8) co)
     else case epoch_lookup_decrypt_key co (fst h) of
       None \<Rightarrow> Some (error_exit (buf_consumed buf 8) co)
     | Some slot \<Rightarrow>
         if cipher_decrypt_verify_fail_exceeded (slot_ctx co slot) then Some (error_exit (buf_consumed buf 8) co)
         else decrypt_payload unseal hmac junk now True slot (fst h) (snd h) (take 8 (buf_content buf)) (buf_consumed buf 8) w ad_start
           (kt_iv_size (co_epoch_key_type co)) co)"
proof -
  obtain c where c: "kc_cipher (co_decrypt co) = Some c" "cc_type c = co_epoch_key_type co"
    using kc_cipher_same [OF epoch_invD(11) [OF assms(1)]] by blast
  have "buf_bptr buf = Some (b_offset buf)"
    using buf_data_pos [OF assms(2,3)] assms(3) by (auto simp: buf_bptr_def buf_valid_def)
  moreover have "buf_init work headroom = (True, w)" using assms(7-9,11) by (simp add: buf_init_def)
  ultimately show ?thesis
    using c assms(2-5,10) packet_id_initialized_inv [OF assms(1)] packet_id_read_epoch_header [OF assms(2)]
    by (cases "b_len buf < 25") (simp_all add: openvpn_decrypt_aead_def packet_id_size_def OPENVPN_AEAD_TAG_LENGTH_def Let_def
        split: option.split del: bind_Some_iff)
qed

lemma receiving_failed:
  assumes "epoch_inv hmac ks kr co" and "epoch_lookup_decrypt_key co e = Some slot"
  shows "receiving unseal hmac ks kr buf ad_start co False (b\<lparr>b_len := 0\<rparr>)
    (set_slot co slot ((slot_ctx co slot)\<lparr>kc_failed_verifications := n\<rparr>))"
proof (rule receiving_refused)
  show sk: "same_keys co (set_slot co slot ((slot_ctx co slot)\<lparr>kc_failed_verifications := n\<rparr>))"
    by (rule same_keys_slot [OF same_key_counters(2) epoch_lookup_key(3) [OF assms]])
  show "epoch_inv hmac ks kr (set_slot co slot ((slot_ctx co slot)\<lparr>kc_failed_verifications := n\<rparr>))"
    by (rule same_keys_inv [OF sk assms(1)]) (simp add: epoch_invD(17) [OF assms(1)])
qed simp

lemma receiving_opened:
  assumes "checked_once hmac ks kr co h (Some (ok, co1))" and "h = header_of (take 8 (buf_content buf))" and "24 < b_len buf" and "buf_wf w"
    and "open_packet unseal hmac (co_epoch_key_type co) kr (packet_ad buf ad_start) (buf_content buf) = Opened (buf_content w)"
  shows "receiving unseal hmac ks kr buf ad_start co ok (if ok then w else b\<lparr>b_len := 0\<rparr>)
    (if ok then co1\<lparr>co_decrypt := count_blocks (co_decrypt co1) w\<rparr> else co1)"
proof -
  have co1: "epoch_inv hmac ks kr co1" "\<forall>q. epoch_covered co q \<longrightarrow> epoch_covered co1 q"
      "ok \<longrightarrow> \<not> epoch_covered co h \<and> epoch_covered co1 h" "send_le co co1" "co_epoch_key_type co1 = co_epoch_key_type co" "co_futures co1 = co_futures co"
    using assms(1) send_forward_le by (auto simp: checked_once_def)
  define co2 where "co2 = co1\<lparr>co_decrypt := count_blocks (co_decrypt co1) w\<rparr>"
  have sk: "same_keys co1 co2" unfolding co2_def by (rule same_keys_encrypt(2)) simp
  have "epoch_inv hmac ks kr co2" by (rule same_keys_inv [OF sk co1(1)]) (simp add: co2_def epoch_invD(17) [OF co1(1)])
  then show ?thesis
    using co1 assms(3-5) same_keys_epochs [OF sk] unfolding co2_def [symmetric] receiving_def assms(2) [symmetric]
    by (auto simp: send_le_def co2_def Let_def)
qed

text \<open>A packet that opens: the replay check decides.\<close>

lemma decrypt_opened:
  assumes "aead_lengths seal unseal" and "epoch_inv hmac ks kr co"
    and "buf_wf buf" and "24 < b_len buf" and "0 \<le> ad_start" and "ad_start \<le> b_offset buf"
    and "buf_wf work" and "b_data work \<noteq> None" and "0 \<le> headroom"
    and "headroom + b_len buf + int (kt_block_size (co_epoch_key_type co)) \<le> b_capacity work + 8"
    and "h = header_of (take 8 (buf_content buf))" and "epoch_lookup_decrypt_key co (fst h) = Some slot"
    and "\<not> cipher_decrypt_verify_fail_exceeded (slot_ctx co slot)"
    and "open_packet unseal hmac (co_epoch_key_type co) kr (packet_ad buf ad_start) (buf_content buf) = Opened pt"
    and "crypto_check_replay hmac junk now co (snd h) (fst h) = Some (ok, co1)"
  shows "\<exists>w. buf_wf w \<and> buf_content w = pt \<and> openvpn_decrypt_aead unseal hmac junk now True headroom buf work ad_start co
    = Some (ok, if ok then w else (buf_consumed buf 8)\<lparr>b_len := 0\<rparr>,
        if ok then co1\<lparr>co_decrypt := count_blocks (co_decrypt co1) w\<rparr> else co1)"
proof -
  define w where "w = work\<lparr>b_len := 0, b_offset := headroom\<rparr>"
  define kt where "kt = co_epoch_key_type co"
  have room: "0 < b_len buf" "headroom \<le> b_capacity work" using assms(4,9,10) by linarith+
  have w: "buf_wf w" using buf_init_wf [OF assms(7), of headroom] assms(8,9) room(2) by (simp add: buf_init_def w_def)
  have safe: "buf_safe w (b_len buf - 8 + int (kt_block_size kt))"
    using w assms(4,8,10) by (simp add: buf_safe_wf w_def kt_def)
  have "length pt = length (buf_content buf) - 24"
    using assms(1,14) unfolding open_packet_def aead_lengths_def Let_def by fastforce
  then have "int (length pt) = b_len buf - 24" using assms(4) length_buf_content [OF assms(3)] by linarith
  then have pt: "buf_safe w (int (length pt))" using safe assms(4) w by (simp add: buf_safe_wf)
  have w1: "cipher_output w pt = Some (buf_appended w pt)" "buf_wf (buf_appended w pt)" "buf_content (buf_appended w pt) = pt"
    using cipher_output_eq [OF w pt] buf_appended_wf [OF w pt] buf_content_Nil_iff [OF w] by (simp_all add: w_def)
  have h0: "fst h \<noteq> 0" by (rule epoch_lookup_key(2) [OF assms(2,12)])
  have "openvpn_decrypt_aead unseal hmac junk now True headroom buf work ad_start co =
      decrypt_payload unseal hmac junk now True slot (fst h) (snd h) (take 8 (buf_content buf)) (buf_consumed buf 8) w ad_start (kt_iv_size kt) co"
    using decrypt_start [OF assms(2,3) room(1) assms(5-9) room(2) assms(11) w_def, of unseal junk now] assms(4,12,13) h0 by (simp add: kt_def)
  then show ?thesis
    using decrypt_payload_eq [OF assms(3,4) w assms(5,6,2) assms(12) [unfolded assms(11)] assms(11) kt_def, of unseal junk now]
      assms(14,15) safe w1 by (auto simp: kt_def error_exit_def)
qed

lemma decrypt_step:
  assumes "digest32 hmac" and "length ks = 32" and "length kr = 32" and "aead_lengths seal unseal" and "epoch_inv hmac ks kr co" and "1 < now"
    and "buf_wf buf" and "0 < b_len buf" and "0 \<le> ad_start" and "ad_start \<le> b_offset buf"
    and "buf_wf work" and "b_data work \<noteq> None" and "0 \<le> headroom" and "headroom \<le> b_capacity work"
  shows "\<exists>ok b co'. openvpn_decrypt_aead unseal hmac junk now True headroom buf work ad_start co = Some (ok, b, co')
    \<and> receiving unseal hmac ks kr buf ad_start co ok b co'" (is "\<exists>ok b co'. ?run = _ \<and> _ ok b co'")
proof -
  define h where "h = header_of (take 8 (buf_content buf))"
  define w where "w = work\<lparr>b_len := 0, b_offset := headroom\<rparr>"
  define kt where "kt = co_epoch_key_type co"
  note start = decrypt_start [OF assms(5,7-14) h_def w_def, of unseal junk now]
  note refused = receiving_refused [OF assms(5) same_options_refl refl]
  have w: "buf_wf w" using buf_init_wf [OF assms(11), of headroom] assms(12-14) by (simp add: buf_init_def w_def)
  show ?thesis
  proof (cases "b_len buf < 25 \<or> fst h = 0 \<or> epoch_lookup_decrypt_key co (fst h) = None")
    case True
    then have "?run = Some (error_exit (if b_len buf < 25 then buf else buf_consumed buf 8) co)"
      unfolding start by auto
    then show ?thesis unfolding error_exit_def using refused by blast
  next
    case False
    then obtain slot where slot: "epoch_lookup_decrypt_key co (fst h) = Some slot" and len: "24 < b_len buf" and h0: "fst h \<noteq> 0" by auto
    note pay = decrypt_payload_eq [OF assms(7) len w assms(9,10,5) slot [unfolded h_def] h_def kt_def, of unseal junk now]
    show ?thesis
    proof (cases "cipher_decrypt_verify_fail_exceeded (slot_ctx co slot) \<or> \<not> buf_safe w (b_len buf - 8 + int (kt_block_size kt))")
      case True
      then have "?run = Some (error_exit (buf_consumed buf 8) co)"
        unfolding start using slot len h0 pay by (auto simp: kt_def)
      then show ?thesis unfolding error_exit_def using refused by blast
    next
      case False
      define failed where "failed = set_slot co slot ((slot_ctx co slot)\<lparr>kc_failed_verifications := kc_failed_verifications (slot_ctx co slot) + 1\<rparr>)"
      have run: "?run = Some (False, (buf_consumed buf 8)\<lparr>b_len := 0\<rparr>, if r = Tag_failed then failed else co)"
        if "open_packet unseal hmac kt kr (packet_ad buf ad_start) (buf_content buf) = r" "\<forall>pt. r \<noteq> Opened pt" for r
        unfolding start using False slot len h0 pay that by (cases r) (simp_all add: kt_def failed_def error_exit_def)
      have fail: "receiving unseal hmac ks kr buf ad_start co False (b\<lparr>b_len := 0\<rparr>) (if r = Tag_failed then failed else co)" for b r
        using refused receiving_failed [OF assms(5) slot] by (simp add: failed_def)
      show ?thesis
      proof (cases "open_packet unseal hmac kt kr (packet_ad buf ad_start) (buf_content buf)")
        case (Opened pt)
        have room: "headroom + b_len buf + int (kt_block_size kt) \<le> b_capacity work + 8"
          using False by (simp add: buf_safe_def w_def)
        have fresh: "\<not> cipher_decrypt_verify_fail_exceeded (slot_ctx co slot)" using False by simp
        obtain ok co1 where co1: "crypto_check_replay hmac junk now co (snd h) (fst h) = Some (ok, co1)"
            "checked_once hmac ks kr co h (Some (ok, co1))"
          using crypto_check_replay_ok [OF assms(1-3,5,6) slot, of "snd h" junk] by (auto simp: checked_once_def)
        show ?thesis
          using decrypt_opened [OF assms(4,5,7) len assms(9-13) room [unfolded kt_def] h_def slot fresh Opened [unfolded kt_def] co1(1)]
            receiving_opened [OF co1(2) h_def len] Opened by (fastforce simp: kt_def)
      qed (use run fail in blast)+
    qed
  qed
qed

end
