(* ===== verification/Channel_Props.thy ===== *)
theory Channel_Props
  imports Channel_Steps
begin

text \<open>
  Runs of the data channel in the epoch format, from the set-up of the keys on. Packets to send and arbitrary bytes from the network come in any
  order; the properties hold for all of them, across every change of keys.
\<close>

unbundle bit_operations_syntax

subsection \<open>Runs\<close>

datatype channel_op = Send time_t buffer buffer | Receive time_t int buffer buffer int

text \<open>The headers of the packets that leave and the headers of the packets that are accepted are collected.\<close>

fun channel_run ::
  "aead_seal \<Rightarrow> aead_unseal \<Rightarrow> hmac_fn \<Rightarrow> (nat \<Rightarrow> u8) \<Rightarrow> crypto_options \<Rightarrow> channel_op list \<Rightarrow> (u8 list list \<times> u8 list list \<times> crypto_options) option" where
  "channel_run seal unseal hmac junk co [] = Some ([], [], co)"
| "channel_run seal unseal hmac junk co (Send now buf work # ops) = do {
     (b, co1) \<leftarrow> openvpn_encrypt_aead seal hmac junk now True buf work co;
     (sent, acc, co2) \<leftarrow> channel_run seal unseal hmac junk co1 ops;
     Some (if b_len b = 0 then sent else take 8 (drop (nat (b_len work)) (buf_content b)) # sent, acc, co2) }"
| "channel_run seal unseal hmac junk co (Receive now headroom buf work ad_start # ops) = do {
     (ok, b, co1) \<leftarrow> openvpn_decrypt_aead unseal hmac junk now True headroom buf work ad_start co;
     (sent, acc, co2) \<leftarrow> channel_run seal unseal hmac junk co1 ops;
     Some (sent, if ok then take 8 (buf_content buf) # acc else acc, co2) }"

text \<open>
  What the callers see to: buffers are in order, there is a packet, and the work buffer has room for the packet id or the
  head room. The clock is past its first second.
\<close>

fun channel_op_ok :: "channel_op \<Rightarrow> bool" where
  "channel_op_ok (Send now buf work) \<longleftrightarrow> buf_wf buf \<and> buf_wf work \<and> has_room False work 8"
| "channel_op_ok (Receive now headroom buf work ad_start) \<longleftrightarrow> 1 < now \<and> buf_wf buf \<and> 0 < b_len buf \<and> 0 \<le> ad_start \<and> ad_start \<le> b_offset buf
     \<and> buf_wf work \<and> b_data work \<noteq> None \<and> 0 \<le> headroom \<and> headroom \<le> b_capacity work"

text \<open>The effect of one operation on the two collections.\<close>

lemma send_op:
  assumes "digest32 hmac" and "length ks = 32" and "aead_lengths seal unseal" and "epoch_inv hmac ks kr co" and "channel_op_ok (Send now buf work)"
  shows "\<exists>b co'. openvpn_encrypt_aead seal hmac junk now True buf work co = Some (b, co') \<and> epoch_inv hmac ks kr co' \<and> epoch_covered co' = epoch_covered co
    \<and> send_le co co' \<and> co_epoch_key_type co' = co_epoch_key_type co \<and> (b_len b \<noteq> 0 \<longrightarrow> sent_after co (header_of (take 8 (drop (nat (b_len work)) (buf_content b))))
      \<and> \<not> sent_after co' (header_of (take 8 (drop (nat (b_len work)) (buf_content b))))
      \<and> length (take 8 (drop (nat (b_len work)) (buf_content b))) = 8)"
proof -
  have ok: "buf_wf buf" "buf_wf work" "has_room False work 8" using assms(5) by auto
  obtain co1 where co1: "epoch_check_send_iterate hmac junk co = Some co1" "epoch_inv hmac ks kr co1"
      "co1 = co \<or> co_send_epoch co < 65535 \<and> co1 = with_send_key hmac ks (Suc (co_send_epoch co)) co"
    using epoch_check_send_iterate_ok [OF assms(1,2,4)] by blast
  have up: "send_le co co1" "epoch_covered co1 = epoch_covered co" "co_epoch_key_type co1 = co_epoch_key_type co"
    using co1(3) with_send_key_inv(2) [OF assms(4), of "Suc (co_send_epoch co)"] epoch_invD(7) [OF assms(4)] by (auto simp: send_le_def)
  obtain b co' where run: "openvpn_encrypt_aead seal hmac junk now True buf work co = Some (b, co')" "sending seal hmac ks kr buf work co1 b co'"
    using encrypt_step [OF assms(3) co1(2) ok co1(1), of now] by blast
  have s: "epoch_inv hmac ks kr co'" "epoch_covered co' = epoch_covered co" "send_le co co'" "co_epoch_key_type co' = co_epoch_key_type co"
    using run(2) up send_le_trans [OF up(1)] by (auto simp: sending_def)
  have "sent_after co (header_of h) \<and> \<not> sent_after co' (header_of h) \<and> length h = 8"
    if h: "h = take 8 (drop (nat (b_len work)) (buf_content b))" "b_len b \<noteq> 0" for h
  proof -
    obtain e x where x: "unat e = co_send_epoch co'" "x = s_id (p_send (co_packet_id co'))" "x \<le> PACKET_ID_EPOCH_MAX"
        "sent_after co1 (e, \<lparr>n_id = x, n_time = 0\<rparr>)"
        "buf_content b = buf_content work @ wire_packet seal hmac (co_epoch_key_type co1) ks e x (buf_content work) (buf_content buf)"
      using run(2) h(2) unfolding sending_def by blast
    have "nat (b_len work) = length (buf_content work)" using length_buf_content [OF ok(2)] by linarith
    then have hx: "h = epoch_header e x" unfolding h(1) x(5) by (simp add: wire_packet_def split: prod.split)
    then have "header_of h = (e, \<lparr>n_id = x, n_time = 0\<rparr>)" using x(3) by simp
    then show ?thesis using hx x(1,2) sent_after_le [OF up(1) x(4)] by (simp add: sent_after_def)
  qed
  then show ?thesis using run(1) s by blast
qed

lemma receive_op:
  assumes "digest32 hmac" and "length ks = 32" and "length kr = 32" and "aead_lengths seal unseal" and "epoch_inv hmac ks kr co"
    and "channel_op_ok (Receive now headroom buf work ad_start)"
  shows "\<exists>ok b co'. openvpn_decrypt_aead unseal hmac junk now True headroom buf work ad_start co = Some (ok, b, co')
    \<and> receiving unseal hmac ks kr buf ad_start co ok b co'"
  by (rule decrypt_step [OF assms(1-5)]) (use assms(6) in simp_all)

lemma channel_run_ok:
  assumes "digest32 hmac" and "length ks = 32" and "length kr = 32" and "aead_lengths seal unseal"
    and "epoch_inv hmac ks kr co" and "list_all channel_op_ok ops"
  shows "\<exists>sent acc co'. channel_run seal unseal hmac junk co ops = Some (sent, acc, co') \<and> epoch_inv hmac ks kr co' \<and> distinct sent \<and> distinct acc
    \<and> (\<forall>h \<in> set sent. sent_after co (header_of h) \<and> length h = 8) \<and> (\<forall>q. epoch_covered co q \<longrightarrow> epoch_covered co' q)
    \<and> (\<forall>h \<in> set acc. \<not> epoch_covered co (header_of h) \<and> epoch_covered co' (header_of h)) \<and> send_le co co' \<and> co_epoch_key_type co' = co_epoch_key_type co"
  using assms(5,6)
proof (induction ops arbitrary: co)
  case Nil
  then show ?case by (simp add: send_le_def)
next
  case (Cons op ops)
  show ?case
  proof (cases op)
    case (Send now buf work)
    obtain b co1 where s: "openvpn_encrypt_aead seal hmac junk now True buf work co = Some (b, co1)" "epoch_inv hmac ks kr co1"
        "epoch_covered co1 = epoch_covered co" "send_le co co1"
        "b_len b \<noteq> 0 \<longrightarrow> sent_after co (header_of (take 8 (drop (nat (b_len work)) (buf_content b))))
          \<and> \<not> sent_after co1 (header_of (take 8 (drop (nat (b_len work)) (buf_content b))))
          \<and> length (take 8 (drop (nat (b_len work)) (buf_content b))) = 8" "co_epoch_key_type co1 = co_epoch_key_type co"
      using send_op [OF assms(1,2,4) Cons.prems(1), of now buf work junk] Cons.prems(2) Send by auto
    obtain sent acc co2 where ih: "channel_run seal unseal hmac junk co1 ops = Some (sent, acc, co2)" "epoch_inv hmac ks kr co2" "distinct sent" "distinct acc"
        "\<forall>h \<in> set sent. sent_after co1 (header_of h) \<and> length h = 8" "\<forall>q. epoch_covered co1 q \<longrightarrow> epoch_covered co2 q"
        "\<forall>h \<in> set acc. \<not> epoch_covered co1 (header_of h) \<and> epoch_covered co2 (header_of h)" "send_le co1 co2" "co_epoch_key_type co2 = co_epoch_key_type co1"
      using Cons.IH [OF s(2)] Cons.prems(2) by auto
    define sent' where "sent' = (if b_len b = 0 then sent else take 8 (drop (nat (b_len work)) (buf_content b)) # sent)"
    have "channel_run seal unseal hmac junk co (op # ops) = Some (sent', acc, co2)"
      using s(1) ih(1) by (simp add: Send sent'_def del: bind_Some_iff)
    moreover have "distinct sent'" "\<forall>h \<in> set sent'. sent_after co (header_of h) \<and> length h = 8"
      using ih(3,5) s(5) sent_after_le [OF s(4)] by (auto simp: sent'_def)
    ultimately show ?thesis using ih s(3,6) send_le_trans [OF s(4) ih(8)]
      by (intro exI [of _ sent'] exI [of _ acc] exI [of _ co2]) (simp del: split_paired_All channel_run.simps)
  next
    case (Receive now headroom buf work ad_start)
    have "channel_op_ok (Receive now headroom buf work ad_start)" using Cons.prems(2) Receive by simp
    then obtain ok b co1 where r: "openvpn_decrypt_aead unseal hmac junk now True headroom buf work ad_start co = Some (ok, b, co1)"
        "receiving unseal hmac ks kr buf ad_start co ok b co1"
      using receive_op [OF assms(1-4) Cons.prems(1)] by blast
    then have r': "epoch_inv hmac ks kr co1" "send_le co co1" "\<forall>q. epoch_covered co q \<longrightarrow> epoch_covered co1 q"
        "ok \<longrightarrow> \<not> epoch_covered co (header_of (take 8 (buf_content buf))) \<and> epoch_covered co1 (header_of (take 8 (buf_content buf)))"
        "co_epoch_key_type co1 = co_epoch_key_type co"
      by (auto simp: receiving_def Let_def split: if_splits)
    obtain sent acc co2 where ih: "channel_run seal unseal hmac junk co1 ops = Some (sent, acc, co2)" "epoch_inv hmac ks kr co2" "distinct sent" "distinct acc"
        "\<forall>h \<in> set sent. sent_after co1 (header_of h) \<and> length h = 8" "\<forall>q. epoch_covered co1 q \<longrightarrow> epoch_covered co2 q"
        "\<forall>h \<in> set acc. \<not> epoch_covered co1 (header_of h) \<and> epoch_covered co2 (header_of h)" "send_le co1 co2" "co_epoch_key_type co2 = co_epoch_key_type co1"
      using Cons.IH [OF r'(1)] Cons.prems(2) by auto
    define acc' where "acc' = (if ok then take 8 (buf_content buf) # acc else acc)"
    have "channel_run seal unseal hmac junk co (op # ops) = Some (sent, acc', co2)"
      using r(1) ih(1) by (simp add: Receive acc'_def del: bind_Some_iff)
    moreover have "distinct acc'" "\<forall>h \<in> set acc'. \<not> epoch_covered co (header_of h) \<and> epoch_covered co2 (header_of h)"
      using ih(4,6,7) r'(3,4) by (auto simp: acc'_def simp del: split_paired_All)
    moreover have "\<forall>h \<in> set sent. sent_after co (header_of h) \<and> length h = 8" using ih(5) sent_after_le [OF r'(2)] by blast
    ultimately show ?thesis using ih r'(3,5) send_le_trans [OF r'(2) ih(8)]
      by (intro exI [of _ sent] exI [of _ acc'] exI [of _ co2]) (simp del: split_paired_All channel_run.simps)
  qed
qed

subsection \<open>Nonces\<close>

lemma map2_xor_inject:
  fixes as bs cs :: "u8 list"
  assumes "length as = length cs" and "length bs = length cs" and "map2 (XOR) as cs = map2 (XOR) bs cs"
  shows "as = bs"
proof (rule nth_equalityI)
  fix i assume i: "i < length as"
  have "map2 (XOR) as cs ! i = map2 (XOR) bs cs ! i" by (simp only: assms(3))
  then have "as ! i XOR cs ! i = bs ! i XOR cs ! i" using i assms(1,2) by simp
  then have "(as ! i XOR cs ! i) XOR cs ! i = (bs ! i XOR cs ! i) XOR cs ! i" by simp
  then show "as ! i = bs ! i" by (simp add: xor.assoc)
qed (use assms in simp)

lemma length_implicit_iv:
  "digest32 hmac \<Longrightarrow> kt_iv_size kt \<le> 16 \<Longrightarrow> length (kc_implicit_iv (data_key_at hmac kt k1 n)) = 16"
  by (simp add: data_key_at_def Let_def length_hkdf_ref)

lemma packet_nonce_inject:
  assumes "packet_nonce k n h = packet_nonce k n h'" and "length h = 8" and "length h' = 8" and "12 \<le> n" and "n \<le> 16"
    and "length (kc_implicit_iv k) = 16"
  shows "h = h'"
proof -
  have "take n (h @ replicate 8 0) = take n (h' @ replicate 8 0)"
    by (rule map2_xor_inject [OF _ _ assms(1) [unfolded packet_nonce_def xor_iv_def]]) (use assms(2-6) in simp_all)
  then have "take 8 (take n (h @ replicate 8 0)) = take 8 (take n (h' @ replicate 8 0))" by simp
  then show ?thesis using assms(2-4) by (simp add: min_def)
qed

text \<open>Epoch and nonce that the header of a packet stands for.\<close>

definition nonce_of :: "hmac_fn \<Rightarrow> key_type \<Rightarrow> u8 list \<Rightarrow> u8 list \<Rightarrow> u16 \<times> u8 list" where
  "nonce_of hmac kt k1 h = (fst (header_of h), packet_nonce (data_key_at hmac kt k1 (unat (fst (header_of h)))) (kt_iv_size kt) h)"

lemma nonces_distinct:
  assumes "digest32 hmac" and "aead_type kt" and "distinct hs" and "\<forall>h \<in> set hs. length h = 8"
  shows "distinct (map (nonce_of hmac kt k1) hs)"
proof -
  have n: "12 \<le> kt_iv_size kt" "kt_iv_size kt \<le> 16" using assms(2) by (simp_all add: aead_type_def)
  have "h = h'" if "h \<in> set hs" "h' \<in> set hs" "nonce_of hmac kt k1 h = nonce_of hmac kt k1 h'" for h h'
  proof (rule packet_nonce_inject [OF _ _ _ n length_implicit_iv [OF assms(1) n(2)]])
    show "packet_nonce (data_key_at hmac kt k1 (unat (fst (header_of h)))) (kt_iv_size kt) h
        = packet_nonce (data_key_at hmac kt k1 (unat (fst (header_of h)))) (kt_iv_size kt) h'"
      using that(3) by (auto simp: nonce_of_def)
  qed (use that assms(4) in auto)
  then show ?thesis using assms(3) by (auto simp: distinct_map inj_on_def)
qed

subsection \<open>Properties of runs\<close>

lemma channel_from_start:
  assumes "digest32 hmac" and "length ks = 32" and "length kr = 32" and "aead_type kt" and "fresh_options co"
    and "0 < unat count" and "unat count < 65535" and "aead_lengths seal unseal" and "list_all channel_op_ok ops"
  shows "\<exists>co0 sent acc co1. epoch_init_key_ctx hmac junk co kt \<lparr>ek_key = ks, ek_epoch = 1\<rparr> \<lparr>ek_key = kr, ek_epoch = 1\<rparr> count = Some co0
    \<and> channel_run seal unseal hmac junk co0 ops = Some (sent, acc, co1) \<and> epoch_inv hmac ks kr co1 \<and> distinct sent \<and> distinct acc
    \<and> (\<forall>h \<in> set sent. length h = 8) \<and> co_epoch_key_type co1 = kt"
proof -
  have e1: "epoch_key_at hmac k 1 = \<lparr>ek_key = k, ek_epoch = 1\<rparr>" for k by (simp add: epoch_key_at_def chain_key_def)
  obtain co0 where co0: "epoch_init_key_ctx hmac junk co kt \<lparr>ek_key = ks, ek_epoch = 1\<rparr> \<lparr>ek_key = kr, ek_epoch = 1\<rparr> count = Some co0"
      "epoch_inv hmac ks kr co0" "co_epoch_key_type co0 = kt"
    using epoch_init_key_ctx_ok [OF assms(1-7), of junk] unfolding e1 by blast
  obtain sent acc co1 where "channel_run seal unseal hmac junk co0 ops = Some (sent, acc, co1)" "epoch_inv hmac ks kr co1" "distinct sent" "distinct acc"
      "\<forall>h \<in> set sent. length h = 8" "co_epoch_key_type co1 = kt"
    using channel_run_ok [OF assms(1-3,8) co0(2) assms(9), of junk] co0(3) by auto
  then show ?thesis using co0(1) by blast
qed

text \<open>
  C1. The data channel does not fault. From the set-up of the epoch keys on, for every sequence of packets to send and of
  arbitrary bytes received, in any order, no assertion fails and no memory access leaves a buffer; the
  keys stay in order, and in particular the receiving epoch never overtakes the sending epoch, as \<^verbatim>\<open>crypto_epoch.h\<close> requires.
\<close>

theorem data_channel_never_faults:
  assumes "digest32 hmac" and "length ks = 32" and "length kr = 32" and "aead_type kt" and "fresh_options co"
    and "0 < unat count" and "unat count < 65535" and "aead_lengths seal unseal" and "list_all channel_op_ok ops"
  shows "\<exists>co0 sent acc co1. epoch_init_key_ctx hmac junk co kt \<lparr>ek_key = ks, ek_epoch = 1\<rparr> \<lparr>ek_key = kr, ek_epoch = 1\<rparr> count = Some co0
    \<and> channel_run seal unseal hmac junk co0 ops = Some (sent, acc, co1)
    \<and> epoch_inv hmac ks kr co1 \<and> kc_epoch (co_decrypt co1) \<le> kc_epoch (co_encrypt co1)"
proof -
  obtain co0 sent acc co1 where r: "epoch_init_key_ctx hmac junk co kt \<lparr>ek_key = ks, ek_epoch = 1\<rparr> \<lparr>ek_key = kr, ek_epoch = 1\<rparr> count = Some co0"
      "channel_run seal unseal hmac junk co0 ops = Some (sent, acc, co1)" "epoch_inv hmac ks kr co1"
    using channel_from_start [OF assms, of junk] by blast
  then show ?thesis using epoch_invD(7) [OF r(3)] by (auto simp: co_epochs word_le_nat_alt)
qed


text \<open>
  C4. Replay protection across key changes. In every such run, in which the bytes received may repeat earlier packets at any
  time and under any keys, no packet header is accepted twice.
\<close>

theorem data_channel_replay_once:
  assumes "digest32 hmac" and "length ks = 32" and "length kr = 32" and "aead_type kt" and "fresh_options co"
    and "0 < unat count" and "unat count < 65535" and "aead_lengths seal unseal" and "list_all channel_op_ok ops"
  shows "\<exists>co0 sent acc co1. epoch_init_key_ctx hmac junk co kt \<lparr>ek_key = ks, ek_epoch = 1\<rparr> \<lparr>ek_key = kr, ek_epoch = 1\<rparr> count = Some co0
    \<and> channel_run seal unseal hmac junk co0 ops = Some (sent, acc, co1) \<and> distinct acc"
  using channel_from_start [OF assms, of junk] by blast

text \<open>
  C5. Only authentic packets are delivered. After every such run, what \<^verbatim>\<open>openvpn_decrypt_aead\<close> delivers is what the cipher gives for the packet with
  the data key that the peer derives for the epoch named in the packet, with the opcode and the packet id
  as authenticated data; everything else is refused and leaves an empty buffer.
\<close>

theorem data_channel_authentic:
  assumes "digest32 hmac" and "length ks = 32" and "length kr = 32" and "aead_type kt" and "fresh_options co"
    and "0 < unat count" and "unat count < 65535" and "aead_lengths seal unseal"
    and "list_all channel_op_ok ops" and "channel_op_ok (Receive now headroom buf work ad_start)"
  shows "\<exists>co0 sent acc co1 ok b co2.
    epoch_init_key_ctx hmac junk co kt \<lparr>ek_key = ks, ek_epoch = 1\<rparr> \<lparr>ek_key = kr, ek_epoch = 1\<rparr> count = Some co0
    \<and> channel_run seal unseal hmac junk co0 ops = Some (sent, acc, co1)
    \<and> openvpn_decrypt_aead unseal hmac junk now True headroom buf work ad_start co1 = Some (ok, b, co2)
    \<and> (if ok then open_packet unseal hmac kt kr (packet_ad buf ad_start) (buf_content buf) = Opened (buf_content b) else b_len b = 0)"
proof -
  obtain co0 sent acc co1 where r: "epoch_init_key_ctx hmac junk co kt \<lparr>ek_key = ks, ek_epoch = 1\<rparr> \<lparr>ek_key = kr, ek_epoch = 1\<rparr> count = Some co0"
      "channel_run seal unseal hmac junk co0 ops = Some (sent, acc, co1)" "epoch_inv hmac ks kr co1" "co_epoch_key_type co1 = kt"
    using channel_from_start [OF assms(1-9), of junk] by blast
  obtain ok b co2 where d: "openvpn_decrypt_aead unseal hmac junk now True headroom buf work ad_start co1 = Some (ok, b, co2)"
      "receiving unseal hmac ks kr buf ad_start co1 ok b co2"
    using receive_op [OF assms(1-3,8) r(3) assms(10)] by blast
  then have "if ok then open_packet unseal hmac kt kr (packet_ad buf ad_start) (buf_content buf) = Opened (buf_content b) else b_len b = 0"
    using r(4) by (cases ok) (simp_all add: receiving_def Let_def)
  then show ?thesis using r(1,2) d(1) by blast
qed

subsection \<open>A concrete cipher and concrete peers\<close>

definition sample_seal :: aead_seal where
  "sample_seal c iv ad pt = (rev pt, take 16 (iv @ replicate 16 (of_nat (length ad))))"

definition sample_unseal :: aead_unseal where
  "sample_unseal c iv ad ct tag = (if tag = take 16 (iv @ replicate 16 (of_nat (length ad))) then Opened (rev ct) else Tag_failed)"

definition sample_type :: key_type where
  "sample_type = \<lparr>kt_cipher_defined = True, kt_aead = True, kt_chacha = False, kt_key_size = 32, kt_iv_size = 12, kt_block_size = 16, kt_md_size = None\<rparr>"

definition sample_options :: crypto_options where
  "sample_options = \<lparr>co_encrypt = cleared_key_ctx, co_decrypt = cleared_key_ctx, co_initialized = False,
     co_epoch_key_send = cleared_epoch_key, co_epoch_key_recv = cleared_epoch_key, co_epoch_key_type = sample_type,
     co_aead_usage_limit = 0, co_epoch_data_keys_future = [], co_epoch_data_keys_future_count = 0,
     co_epoch_retiring_data_receive_key = cleared_key_ctx, co_epoch_retiring_key_pid_recv = cleared_rec,
     co_packet_id = \<lparr>p_send = \<lparr>s_id = 0, s_time = 0\<rparr>, p_rec = cleared_rec\<lparr>r_initialized := True\<rparr>\<rparr>, co_pid_persist = None,
     co_packet_id_long_form = False\<rparr>"

lemma sample_laws: "aead_lengths sample_seal sample_unseal" "aead_inverse sample_seal sample_unseal"
    "aead_type sample_type" "fresh_options sample_options"
  by (auto simp: aead_lengths_def aead_inverse_def sample_seal_def sample_unseal_def aead_type_def sample_type_def fresh_options_def
      sample_options_def cleared_key_ctx_def rec_ok_def rec_inv_def cleared_rec_def MAX_TIME_BACKTRACK_def split: if_splits)

definition sample_packet :: buffer where
  "sample_packet = buf_of ([0x48] @ replicate 60 3) 1 40"

definition sample_ops :: "channel_op list" where
  "sample_ops = [Send 5 (buf_of [1, 2, 3] 0 3) (buf_of (0x48 # replicate 60 0) 0 1), Receive 5 10 sample_packet (buf_of (replicate 90 0) 0 0) 0,
     Send 6 (buf_of [4] 0 1) (buf_of (0x48 # replicate 60 0) 0 1)]"

lemma sample_ops_ok: "list_all channel_op_ok sample_ops" "channel_op_ok (Receive 7 10 sample_packet (buf_of (replicate 90 0) 0 0) 0)"
  by (simp_all add: sample_ops_def sample_packet_def BUF_SIZE_MAX_def has_room_def)

lemmas sample_start = sample_hmac_digest length_replicate [of 32 1] length_replicate [of 32 2] sample_laws(3,4)

theorem data_channel_never_faults_witness:
  "\<exists>co0 sent acc co1. epoch_init_key_ctx sample_hmac (\<lambda>_. 0) sample_options sample_type
      \<lparr>ek_key = replicate 32 1, ek_epoch = 1\<rparr> \<lparr>ek_key = replicate 32 2, ek_epoch = 1\<rparr> 4 = Some co0
    \<and> channel_run sample_seal sample_unseal sample_hmac (\<lambda>_. 0) co0 sample_ops = Some (sent, acc, co1)
    \<and> epoch_inv sample_hmac (replicate 32 1) (replicate 32 2) co1 \<and> kc_epoch (co_decrypt co1) \<le> kc_epoch (co_encrypt co1)"
  by (rule data_channel_never_faults [OF sample_start _ _ sample_laws(1) sample_ops_ok(1)]) simp_all


theorem data_channel_replay_once_witness:
  "\<exists>co0 sent acc co1. epoch_init_key_ctx sample_hmac (\<lambda>_. 0) sample_options sample_type
      \<lparr>ek_key = replicate 32 1, ek_epoch = 1\<rparr> \<lparr>ek_key = replicate 32 2, ek_epoch = 1\<rparr> 4 = Some co0
    \<and> channel_run sample_seal sample_unseal sample_hmac (\<lambda>_. 0) co0 sample_ops = Some (sent, acc, co1) \<and> distinct acc"
  by (rule data_channel_replay_once [OF sample_start _ _ sample_laws(1) sample_ops_ok(1)]) simp_all

theorem data_channel_authentic_witness:
  "\<exists>co0 sent acc co1 ok b co2. epoch_init_key_ctx sample_hmac (\<lambda>_. 0) sample_options sample_type
      \<lparr>ek_key = replicate 32 1, ek_epoch = 1\<rparr> \<lparr>ek_key = replicate 32 2, ek_epoch = 1\<rparr> 4 = Some co0
    \<and> channel_run sample_seal sample_unseal sample_hmac (\<lambda>_. 0) co0 sample_ops = Some (sent, acc, co1)
    \<and> openvpn_decrypt_aead sample_unseal sample_hmac (\<lambda>_. 0) 7 True 10 sample_packet (buf_of (replicate 90 0) 0 0) 0 co1 = Some (ok, b, co2)
    \<and> (if ok then open_packet sample_unseal sample_hmac sample_type (replicate 32 2) (packet_ad sample_packet 0) (buf_content sample_packet)
          = Opened (buf_content b) else b_len b = 0)"
  by (rule data_channel_authentic [OF sample_start _ _ sample_laws(1) sample_ops_ok]) simp_all

end
