(* ===== verification/Channel_Link.thy ===== *)
theory Channel_Link
  imports Channel_Props
begin

text \<open>
  Two peers of the data channel. The receiver accepts the next packet of a sender whose chain of keys it follows, also when
  that packet is the first of a new epoch; so every payload arrives over a link that delivers.
\<close>

unbundle bit_operations_syntax

subsection \<open>The next packet is accepted\<close>

lemma replay_check_next:
  assumes "rec_ok r" and "1 < now" and "n_time q = r_time r" and "n_id q = r_id r + 1" and "r_id r < n_id q"
  shows "\<exists>r'. replay_check now r q = Some (True, r') \<and> rec_ok r' \<and> r_id r' = n_id q \<and> r_time r' = r_time r"
proof -
  obtain ok r' where r': "replay_check now r q = Some (ok, r')" "rec_ok r'" using replay_check_ok [OF assms(1,2)] by blast
  obtain r1 where r1: "packet_id_reap_test now r = Some r1" "rec_inv r1" and f: "r_id r1 = r_id r" "r_time r1 = r_time r"
    using packet_id_reap_test_ok [of r now] assms(1,2) by (auto simp: rec_ok_def)
  have "n_id q \<noteq> 0" using assms(5) by auto
  then have test: "packet_id_test r1 q = Some (True, r1)"
    using assms(3-5) f r1(2) by (simp add: packet_id_test_def rec_inv_def)
  have new: "\<not> rec_covered r1 q"
    using assms(3,5) f by (auto simp: rec_covered_def rec_high_def net_num_def word_less_nat_alt)
  have "r_id r2 = n_id q \<and> r_time r2 = n_time q" if "packet_id_add now r1 q = Some r2" for r2
  proof (cases "r_seq_list r1")
    case None
    then show ?thesis using that by (auto simp: packet_id_add_def)
  next
    case (Some sl)
    then show ?thesis using that packet_id_add_window [OF r1(2) Some assms(2) new] assms(5) f by auto
  qed
  then have "ok \<and> r_id r' = n_id q \<and> r_time r' = n_time q"
    using r'(1) r1(1) test by (auto simp: replay_check_def)
  then show ?thesis using r' assms(3) by auto
qed

text \<open>What the check of an accepted packet leaves: the window stands at the number of the packet.\<close>

definition accepted_at :: "u16 \<Rightarrow> packet_id_net \<Rightarrow> crypto_options \<Rightarrow> crypto_options \<Rightarrow> bool" where
  "accepted_at epoch pin co co' \<longleftrightarrow> co_recv_epoch co' = unat epoch \<and> r_id (p_rec (co_packet_id co')) = n_id pin \<and> r_time (p_rec (co_packet_id co')) = 0
     \<and> (no_failures co \<longrightarrow> no_failures co')"

lemma next_accepted_current:
  assumes "epoch_inv hmac ks kr co" and "1 < now" and "unat epoch = co_recv_epoch co"
    and "r_time (p_rec (co_packet_id co)) = 0" and "n_time pin = 0" and "n_id pin = r_id (p_rec (co_packet_id co)) + 1"
    and "r_id (p_rec (co_packet_id co)) < n_id pin"
  shows "\<exists>co'. crypto_check_replay hmac junk now co pin epoch = Some (True, co') \<and> accepted_at epoch pin co co'"
proof -
  note inv = epoch_invD [OF assms(1)]
  have e: "kc_epoch (co_decrypt co) = epoch" using assms(3) by (simp add: co_recv_epoch_def word_unat_eq_iff)
  obtain r where r: "replay_check now (p_rec (co_packet_id co)) pin = Some (True, r)" "r_id r = n_id pin" "r_time r = 0"
    using replay_check_next [OF inv(16) assms(2), of pin] assms(4-7) by auto
  define co1 where "co1 = co\<lparr>co_packet_id := (co_packet_id co)\<lparr>p_rec := r\<rparr>\<rparr>"
  define x where "x = map_option (\<lambda>pp. packet_id_persist_save_obj pp (co_packet_id co1)) (co_pid_persist co1)"
  have "crypto_check_replay hmac junk now co pin epoch = Some (True, if co_packet_id_long_form co1 then co1\<lparr>co_pid_persist := x\<rparr> else co1)"
    using e r(1) by (simp add: crypto_check_replay_def co1_def x_def Let_def del: bind_Some_iff)
  then show ?thesis
    using r(2,3) assms(3) by (auto simp: accepted_at_def co1_def co_recv_epoch_def no_failures_def)
qed

lemma next_accepted_future:
  assumes "digest32 hmac" and "length ks = 32" and "length kr = 32" and "epoch_inv hmac ks kr co" and "1 < now"
    and "co_recv_epoch co < unat epoch" and "unat epoch \<le> co_recv_epoch co + co_futures co" and "unat epoch + co_futures co \<le> 65535"
    and "n_time pin = 0" and "n_id pin = 1"
  shows "\<exists>co'. crypto_check_replay hmac junk now co pin epoch = Some (True, co') \<and> accepted_at epoch pin co co'"
proof -
  note inv = epoch_invD [OF assms(4)]
  obtain co0 where co0: "epoch_replace_update_recv_key hmac junk co epoch = Some co0" "epoch_inv hmac ks kr co0"
      "moved_to hmac ks (unat epoch) co co0"
    using epoch_replace_update_recv_key_ok [OF assms(1-4,6-8), of junk] by auto
  have m: "unat epoch = co_recv_epoch co0" "r_id (p_rec (co_packet_id co0)) = 0" "r_time (p_rec (co_packet_id co0)) = 0"
      "no_failures co \<longrightarrow> no_failures co0"
    using co0(3) by (simp_all add: moved_to_def)
  have e: "epoch \<noteq> 0" "kc_epoch (co_decrypt co) \<noteq> epoch" "epoch \<noteq> kc_epoch (co_epoch_retiring_data_receive_key co)" "kc_epoch (co_decrypt co0) = epoch"
    using assms(6) inv(8) m(1) by (auto simp: co_recv_epoch_def co_retiring_epoch_def word_unat_eq_iff)
  have "crypto_check_replay hmac junk now co pin epoch = crypto_check_replay hmac junk now co0 pin epoch"
    using e co0(1) by (simp add: crypto_check_replay_def del: bind_Some_iff)
  then show ?thesis
    using next_accepted_current [OF co0(2) assms(5) m(1,3) assms(9)] assms(10) m(2,4) by (auto simp: accepted_at_def)
qed

subsection \<open>Two peers\<close>

text \<open>
  A sender and a receiver whose first epoch keys agree, and a link between them that delivers. The sender's packet starts with the
  content of its work buffer (the opcode), which the receiver has read before it calls \<^verbatim>\<open>openvpn_decrypt_aead\<close>.
\<close>

record link_op =
  l_sent_at :: time_t
  l_buf :: buffer
  l_work :: buffer
  l_received_at :: time_t
  l_headroom :: int
  l_recv_work :: buffer

fun link_run ::
  "aead_seal \<Rightarrow> aead_unseal \<Rightarrow> hmac_fn \<Rightarrow> (nat \<Rightarrow> u8) \<Rightarrow> crypto_options \<Rightarrow> crypto_options \<Rightarrow> link_op list
     \<Rightarrow> (u8 list option list \<times> crypto_options \<times> crypto_options) option" where
  "link_run seal unseal hmac junk a b [] = Some ([], a, b)"
| "link_run seal unseal hmac junk a b (x # xs) = do {
     (packet, a1) \<leftarrow> openvpn_encrypt_aead seal hmac junk (l_sent_at x) True (l_buf x) (l_work x) a;
     (ok, out, b1) \<leftarrow> (if b_len packet = 0 then Some (False, packet, b)
        else openvpn_decrypt_aead unseal hmac junk (l_received_at x) True (l_headroom x)
          (snd (buf_advance packet (b_len (l_work x)))) (l_recv_work x) (b_offset packet) b);
     (rest, a2, b2) \<leftarrow> link_run seal unseal hmac junk a1 b1 xs;
     Some ((if ok then Some (buf_content out) else None) # rest, a2, b2) }"

definition link_op_ok :: "key_type \<Rightarrow> link_op \<Rightarrow> bool" where
  "link_op_ok kt x \<longleftrightarrow> 1 < l_received_at x \<and> buf_wf (l_buf x) \<and> 0 < b_len (l_buf x) \<and> buf_wf (l_work x)
     \<and> has_room False (l_work x) (24 + b_len (l_buf x) + int (kt_block_size kt))
     \<and> buf_wf (l_recv_work x) \<and> b_data (l_recv_work x) \<noteq> None \<and> 0 \<le> l_headroom x
     \<and> l_headroom x + b_len (l_buf x) + 16 + int (kt_block_size kt) \<le> b_capacity (l_recv_work x)"

text \<open>Sender and receiver in step.\<close>

definition in_step :: "hmac_fn \<Rightarrow> u8 list \<Rightarrow> u8 list \<Rightarrow> u8 list \<Rightarrow> crypto_options \<Rightarrow> crypto_options \<Rightarrow> bool" where
  "in_step hmac ks kr kb a b \<longleftrightarrow> epoch_inv hmac ks kr a \<and> epoch_inv hmac kb ks b \<and> co_epoch_key_type b = co_epoch_key_type a
     \<and> co_send_epoch a = co_recv_epoch b \<and> r_id (p_rec (co_packet_id b)) = s_id (p_send (co_packet_id a))
     \<and> r_time (p_rec (co_packet_id b)) = 0 \<and> no_failures b"

lemma wire_open:
  assumes "aead_lengths seal unseal" and "aead_inverse seal unseal" and "x \<le> PACKET_ID_EPOCH_MAX"
  shows "open_packet unseal hmac kt ks (ad @ epoch_header e x) (wire_packet seal hmac kt ks e x ad pt) = Opened pt"
    and "length (wire_packet seal hmac kt ks e x ad pt) = 24 + length pt"
    and "take 8 (wire_packet seal hmac kt ks e x ad pt) = epoch_header e x"
proof -
  define k where "k = data_key_at hmac kt ks (unat e)"
  obtain ct tag where p: "packet_parts seal hmac kt ks e x ad pt = (ct, tag)" by fastforce
  then have sl: "seal (the (kc_cipher k)) (packet_nonce k (kt_iv_size kt) (epoch_header e x)) (ad @ epoch_header e x) pt = (ct, tag)"
    by (simp add: packet_parts_def k_def Let_def)
  have len: "length ct = length pt" "length tag = 16"
    using assms(1) sl unfolding aead_lengths_def by (metis fst_conv, metis snd_conv)
  have "unseal (the (kc_cipher k)) (packet_nonce k (kt_iv_size kt) (epoch_header e x)) (ad @ epoch_header e x) ct tag = Opened pt"
    using assms(2) sl unfolding aead_inverse_def by (metis fst_conv snd_conv)
  then show "open_packet unseal hmac kt ks (ad @ epoch_header e x) (wire_packet seal hmac kt ks e x ad pt) = Opened pt"
    using p len assms(3) by (simp add: open_packet_def wire_packet_def k_def Let_def)
  show "length (wire_packet seal hmac kt ks e x ad pt) = 24 + length pt" "take 8 (wire_packet seal hmac kt ks e x ad pt) = epoch_header e x"
    using p len by (simp_all add: wire_packet_def)
qed

lemma packet_ad_consumed:
  assumes "buf_wf p" and "buf_content p = ad @ rest" and "8 \<le> length rest"
  shows "packet_ad (buf_consumed p (length ad)) (b_offset p) = ad @ take 8 rest"
proof -
  have "take (length ad + 8) (buf_content p) = ad @ take 8 rest" by (simp add: assms(2))
  moreover have "0 < b_len p" "int (length ad) + 8 \<le> b_len p" using assms length_buf_content [OF assms(1)] by auto
  then obtain xs where "b_data p = Some xs" using buf_data_pos [OF assms(1)] by blast
  ultimately show ?thesis
    using \<open>int (length ad) + 8 \<le> b_len p\<close> by (auto simp: packet_ad_def buf_content_def min_def nat_add_distrib split: if_splits)
qed

text \<open>A packet of the sender arrives at a receiver that is in step or one epoch behind.\<close>

lemma link_accepted:
  assumes "digest32 hmac" and "length kb = 32" and "length ks = 32" and "epoch_inv hmac kb ks b" and "1 < now" and "no_failures b"
    and "r_time (p_rec (co_packet_id b)) = 0" and "x \<le> PACKET_ID_EPOCH_MAX" and "unat e + co_futures b < 65535"
    and "unat e = co_recv_epoch b \<and> x = r_id (p_rec (co_packet_id b)) + 1 \<and> r_id (p_rec (co_packet_id b)) < x
      \<or> unat e = Suc (co_recv_epoch b) \<and> x = 1"
  shows "\<exists>slot b1. epoch_lookup_decrypt_key b e = Some slot \<and> \<not> cipher_decrypt_verify_fail_exceeded (slot_ctx b slot)
    \<and> crypto_check_replay hmac junk now b \<lparr>n_id = x, n_time = 0\<rparr> e = Some (True, b1) \<and> accepted_at e \<lparr>n_id = x, n_time = 0\<rparr> b b1"
proof -
  note inv = epoch_invD [OF assms(4)]
  have fresh: "\<not> cipher_decrypt_verify_fail_exceeded k" if "k \<in> set (co_decrypt b # co_epoch_data_keys_future b)" for k
    using that assms(6) by (auto simp: no_failures_def cipher_decrypt_verify_fail_exceeded_def)
  consider (same) "unat e = co_recv_epoch b" "x = r_id (p_rec (co_packet_id b)) + 1" "r_id (p_rec (co_packet_id b)) < x"
    | (later) "unat e = Suc (co_recv_epoch b)" "x = 1" using assms(10) by blast
  then show ?thesis
  proof cases
    case same
    have "epoch_lookup_decrypt_key b e = Some Current_key" using same(1) epoch_lookup_cases [OF assms(4)] by simp
    then show ?thesis
      using fresh next_accepted_current [OF assms(4,5) same(1) assms(7), of "\<lparr>n_id = x, n_time = 0\<rparr>"] same(2,3) by auto
  next
    case later
    have "epoch_lookup_decrypt_key b e = Some (Future_key 0)"
      using later(1) inv(3,8) assms(9) epoch_lookup_cases [OF assms(4)] by simp
    moreover have "co_epoch_data_keys_future b ! 0 \<in> set (co_epoch_data_keys_future b)" using inv(3,4) by simp
    ultimately show ?thesis
      using fresh next_accepted_future [OF assms(1-5), of e "\<lparr>n_id = x, n_time = 0\<rparr>"] later inv(3) assms(9) by auto
  qed
qed

lemma link_delivered:
  assumes "digest32 hmac" and "length kb = 32" and "length ks = 32" and "aead_lengths seal unseal" and "aead_inverse seal unseal"
    and "epoch_inv hmac kb ks b" and "buf_wf p" and "buf_content p = ad @ wire_packet seal hmac (co_epoch_key_type b) ks e x ad pt" and "x \<le> PACKET_ID_EPOCH_MAX"
    and "0 < length pt" and "buf_wf work" and "b_data work \<noteq> None" and "0 \<le> headroom"
    and "headroom + int (length pt) + 16 + int (kt_block_size (co_epoch_key_type b)) \<le> b_capacity work"
    and "epoch_lookup_decrypt_key b e = Some slot" and "\<not> cipher_decrypt_verify_fail_exceeded (slot_ctx b slot)"
    and "crypto_check_replay hmac junk now b \<lparr>n_id = x, n_time = 0\<rparr> e = Some (True, b1)"
  shows "\<exists>w. openvpn_decrypt_aead unseal hmac junk now True headroom (buf_consumed p (length ad)) work (b_offset p) b
    = Some (True, w, b1\<lparr>co_decrypt := count_blocks (co_decrypt b1) w\<rparr>) \<and> buf_wf w \<and> buf_content w = pt"
proof -
  define kt where "kt = co_epoch_key_type b"
  define wp where "wp = wire_packet seal hmac kt ks e x ad pt"
  note wire = wire_open [where hmac = hmac and kt = kt and ks = ks and ad = ad and e = e and pt = pt, OF assms(4,5,9), folded wp_def]
  define q where "q = buf_consumed p (length ad)"
  have len: "b_len p = int (length ad + 24 + length pt)" using length_buf_content [OF assms(7)] assms(8) wire(2) by (simp add: wp_def kt_def)
  have q: "buf_wf q" "buf_content q = wp" "b_len q = 24 + int (length pt)" "b_offset p \<le> b_offset q"
    using buf_consumed_wf [OF assms(7), of "length ad"] len assms(8) by (simp_all add: q_def wp_def kt_def)
  have off: "0 \<le> b_offset p" "24 < b_len q" using buf_wf_fields [OF assms(7)] q(3) assms(10) by simp_all
  have ad: "packet_ad q (b_offset p) = ad @ epoch_header e x"
    using packet_ad_consumed [OF assms(7,8)] wire(2,3) by (simp add: q_def wp_def kt_def)
  have h: "(e, \<lparr>n_id = x, n_time = 0\<rparr>) = header_of (take 8 (buf_content q))" using q(2) wire(3) assms(9) by simp
  have room: "headroom + b_len q + int (kt_block_size (co_epoch_key_type b)) \<le> b_capacity work + 8" using assms(14) q(3) by simp
  show ?thesis
    using decrypt_opened [OF assms(4,6) q(1) off(2,1) q(4) assms(11-13) room h, of slot pt junk now True b1]
      assms(15-17) wire(1) ad q(2) unfolding q_def [symmetric] by (auto simp: kt_def)
qed

text \<open>Sending from a state in which the sender can go on, with the position of the packet.\<close>

lemma send_position:
  assumes "digest32 hmac" and "length ks = 32" and "aead_lengths seal unseal" and "epoch_inv hmac ks kr a"
    and "buf_wf buf" and "0 < b_len buf" and "buf_wf work" and "has_room False work (24 + b_len buf + int (kt_block_size (co_epoch_key_type a)))"
  shows "\<exists>p a1. openvpn_encrypt_aead seal hmac junk now True buf work a = Some (p, a1) \<and> epoch_inv hmac ks kr a1
    \<and> co_epoch_key_type a1 = co_epoch_key_type a \<and> co_send_epoch a \<le> co_send_epoch a1 \<and> co_send_epoch a1 \<le> Suc (co_send_epoch a)
    \<and> (b_len p \<noteq> 0 \<or> co_send_epoch a1 < 65535 \<longrightarrow> (\<exists>e x. buf_wf p \<and> unat e = co_send_epoch a1 \<and> x = s_id (p_send (co_packet_id a1)) \<and> x \<le> PACKET_ID_EPOCH_MAX
        \<and> buf_content p = buf_content work @ wire_packet seal hmac (co_epoch_key_type a) ks e x (buf_content work) (buf_content buf)
        \<and> (co_send_epoch a1 = co_send_epoch a \<and> x = s_id (p_send (co_packet_id a)) + 1 \<and> s_id (p_send (co_packet_id a)) < x
          \<or> co_send_epoch a1 = Suc (co_send_epoch a) \<and> x = 1)))"
proof -
  obtain ai where ai: "epoch_check_send_iterate hmac junk a = Some ai" "epoch_inv hmac ks kr ai"
      "ai = a \<or> co_send_epoch a < 65535 \<and> ai = with_send_key hmac ks (Suc (co_send_epoch a)) a"
      "s_id (p_send (co_packet_id ai)) = PACKET_ID_EPOCH_MAX \<longrightarrow> co_send_epoch a = 65535"
    using epoch_check_send_iterate_ok [OF assms(1,2,4)] by blast
  have pos: "ai = a \<or> co_send_epoch ai = Suc (co_send_epoch a) \<and> s_id (p_send (co_packet_id ai)) = 0" "co_epoch_key_type ai = co_epoch_key_type a"
    using ai(3) with_send_key_inv(2) [OF assms(4), of "Suc (co_send_epoch a)"] epoch_invD(7) [OF assms(4)]
    by (auto simp: with_send_key_def reset_packet_id_send_def)
  have room: "has_room False work 8" by (rule has_room_mono [OF assms(8)]) (use assms(6) in simp)
  obtain p a1 where p: "openvpn_encrypt_aead seal hmac junk now True buf work a = Some (p, a1)" "sending seal hmac ks kr buf work ai p a1"
      "s_id (p_send (co_packet_id ai)) \<noteq> PACKET_ID_EPOCH_MAX \<longrightarrow> b_len p \<noteq> 0"
    using encrypt_step [OF assms(3) ai(2) assms(5,7) room ai(1), of now] assms(8) pos(2) by auto
  have s: "epoch_inv hmac ks kr a1" "co_send_epoch a1 = co_send_epoch ai" "co_epoch_key_type a1 = co_epoch_key_type a"
    using p(2) pos(2) by (auto simp: sending_def)
  have "\<exists>e x. buf_wf p \<and> unat e = co_send_epoch a1 \<and> x = s_id (p_send (co_packet_id a1)) \<and> x \<le> PACKET_ID_EPOCH_MAX
        \<and> buf_content p = buf_content work @ wire_packet seal hmac (co_epoch_key_type a) ks e x (buf_content work) (buf_content buf)
        \<and> (co_send_epoch a1 = co_send_epoch a \<and> x = s_id (p_send (co_packet_id a)) + 1 \<and> s_id (p_send (co_packet_id a)) < x
          \<or> co_send_epoch a1 = Suc (co_send_epoch a) \<and> x = 1)"
    if some: "b_len p \<noteq> 0 \<or> co_send_epoch a1 < 65535"
  proof -
    have "b_len p \<noteq> 0" using some p(3) ai(4) pos(1) s(2) by auto
    then obtain e x where x: "buf_wf p" "unat e = co_send_epoch a1" "x = s_id (p_send (co_packet_id a1))" "x \<le> PACKET_ID_EPOCH_MAX"
        "x = s_id (p_send (co_packet_id ai)) + 1" "sent_after ai (e, \<lparr>n_id = x, n_time = 0\<rparr>)"
        "buf_content p = buf_content work @ wire_packet seal hmac (co_epoch_key_type ai) ks e x (buf_content work) (buf_content buf)"
      using p(2) unfolding sending_def by blast
    have "s_id (p_send (co_packet_id ai)) < x" using x(2,6) s(2) by (simp add: sent_after_def)
    then have "co_send_epoch a1 = co_send_epoch a \<and> x = s_id (p_send (co_packet_id a)) + 1 \<and> s_id (p_send (co_packet_id a)) < x
          \<or> co_send_epoch a1 = Suc (co_send_epoch a) \<and> x = 1"
      using pos(1) x(5) s(2) by auto
    then show ?thesis using x(1-4,7) pos(2) by metis
  qed
  moreover have "co_send_epoch a \<le> co_send_epoch a1" "co_send_epoch a1 \<le> Suc (co_send_epoch a)" using pos(1) s(2) by auto
  ultimately show ?thesis using p(1) s(1,3) by blast
qed

lemma link_step:
  assumes "digest32 hmac" and "length ks = 32" and "length kr = 32" and "length kb = 32" and "aead_lengths seal unseal" and "aead_inverse seal unseal"
    and "epoch_inv hmac ks kr a" and "epoch_inv hmac kb ks b" and "co_epoch_key_type b = co_epoch_key_type a" and "link_op_ok (co_epoch_key_type a) x"
  shows "\<exists>out a1 b1. (\<forall>xs. link_run seal unseal hmac junk a b (x # xs)
        = do { (rest, a2, b2) \<leftarrow> link_run seal unseal hmac junk a1 b1 xs; Some (out # rest, a2, b2) })
    \<and> epoch_inv hmac ks kr a1 \<and> epoch_inv hmac kb ks b1 \<and> co_epoch_key_type a1 = co_epoch_key_type a \<and> co_epoch_key_type b1 = co_epoch_key_type a
    \<and> co_send_epoch a \<le> co_send_epoch a1 \<and> co_send_epoch a1 \<le> Suc (co_send_epoch a) \<and> co_futures b1 = co_futures b
    \<and> (in_step hmac ks kr kb a b \<and> co_send_epoch a1 + co_futures b < 65535
        \<longrightarrow> out = Some (buf_content (l_buf x)) \<and> in_step hmac ks kr kb a1 b1)"
proof -
  have op: "1 < l_received_at x" "buf_wf (l_buf x)" "0 < b_len (l_buf x)" "buf_wf (l_work x)"
      "has_room False (l_work x) (24 + b_len (l_buf x) + int (kt_block_size (co_epoch_key_type a)))"
      "buf_wf (l_recv_work x)" "b_data (l_recv_work x) \<noteq> None" "0 \<le> l_headroom x"
      "l_headroom x + b_len (l_buf x) + 16 + int (kt_block_size (co_epoch_key_type a)) \<le> b_capacity (l_recv_work x)"
    using assms(10) by (simp_all add: link_op_ok_def)
  obtain p a1 where p: "openvpn_encrypt_aead seal hmac junk (l_sent_at x) True (l_buf x) (l_work x) a = Some (p, a1)" "epoch_inv hmac ks kr a1"
      "co_epoch_key_type a1 = co_epoch_key_type a" "co_send_epoch a \<le> co_send_epoch a1 \<and> co_send_epoch a1 \<le> Suc (co_send_epoch a)"
      "b_len p \<noteq> 0 \<or> co_send_epoch a1 < 65535 \<longrightarrow> (\<exists>e y. buf_wf p \<and> unat e = co_send_epoch a1 \<and> y = s_id (p_send (co_packet_id a1)) \<and> y \<le> PACKET_ID_EPOCH_MAX
        \<and> buf_content p = buf_content (l_work x) @ wire_packet seal hmac (co_epoch_key_type a) ks e y (buf_content (l_work x)) (buf_content (l_buf x))
        \<and> (co_send_epoch a1 = co_send_epoch a \<and> y = s_id (p_send (co_packet_id a)) + 1 \<and> s_id (p_send (co_packet_id a)) < y
          \<or> co_send_epoch a1 = Suc (co_send_epoch a) \<and> y = 1))"
    using send_position [OF assms(1,2,5,7) op(2-5), of junk "l_sent_at x"] by blast
  show ?thesis
  proof (cases "b_len p = 0")
    case True
    have "\<not> co_send_epoch a1 < 65535"
    proof
      assume "co_send_epoch a1 < 65535"
      then obtain e y where "buf_wf p" "buf_content p = buf_content (l_work x) @ wire_packet seal hmac (co_epoch_key_type a) ks e y (buf_content (l_work x)) (buf_content (l_buf x))"
          "y \<le> PACKET_ID_EPOCH_MAX"
        using p(5) by blast
      then show False using True buf_content_Nil_iff [of p] wire_open(2) [OF assms(5,6)] by (metis append_is_Nil_conv length_0_conv add_is_0 numeral_neq_zero)
    qed
    then show ?thesis using p(1-4) True assms(8,9)
      by (intro exI [of _ None] exI [of _ a1] exI [of _ b]) (simp del: bind_Some_iff)
  next
    case False
    define kt where "kt = co_epoch_key_type a"
    define ad where "ad = buf_content (l_work x)"
    define pt where "pt = buf_content (l_buf x)"
    obtain e y where y: "buf_wf p" "unat e = co_send_epoch a1" "y = s_id (p_send (co_packet_id a1))" "y \<le> PACKET_ID_EPOCH_MAX"
        "buf_content p = ad @ wire_packet seal hmac kt ks e y ad pt"
        "co_send_epoch a1 = co_send_epoch a \<and> y = s_id (p_send (co_packet_id a)) + 1 \<and> s_id (p_send (co_packet_id a)) < y
          \<or> co_send_epoch a1 = Suc (co_send_epoch a) \<and> y = 1"
      using p(5) False unfolding kt_def ad_def pt_def by blast
    have lens: "b_len (l_work x) = int (length ad)" "b_len (l_buf x) = int (length pt)" using op(2,4) by (simp_all add: ad_def pt_def)
    have lp: "b_len p = int (length ad) + 24 + int (length pt)"
      using length_buf_content [OF y(1)] y(5) wire_open(2) [OF assms(5,6) y(4)] by simp
    define q where "q = buf_consumed p (length ad)"
    have adv: "snd (buf_advance p (b_len (l_work x))) = q"
      using buf_advance_eq [OF y(1)] lens(1) lp buf_data_pos [OF y(1)] by (simp add: q_def)
    have "channel_op_ok (Receive (l_received_at x) (l_headroom x) q (l_recv_work x) (b_offset p))"
      using op buf_consumed_wf(1) [OF y(1), of "length ad"] lp lens buf_wf_fields [OF y(1)] by (simp add: q_def)
    then obtain ok w b1 where d: "openvpn_decrypt_aead unseal hmac junk (l_received_at x) True (l_headroom x) q (l_recv_work x) (b_offset p) b = Some (ok, w, b1)"
        "receiving unseal hmac kb ks q (b_offset p) b ok w b1"
      using receive_op [OF assms(1,4,2,5,8)] by blast
    define out where "out = (if ok then Some (buf_content w) else None)"
    have run: "\<forall>xs. link_run seal unseal hmac junk a b (x # xs)
        = do { (rest, a2, b2) \<leftarrow> link_run seal unseal hmac junk a1 b1 xs; Some (out # rest, a2, b2) }"
      using p(1) d(1) False adv by (simp add: out_def del: bind_Some_iff)
    have b1: "epoch_inv hmac kb ks b1" "co_epoch_key_type b1 = kt" "co_futures b1 = co_futures b"
      using d(2) assms(9) by (simp_all add: receiving_def kt_def)
    have "out = Some pt \<and> in_step hmac ks kr kb a1 b1" if st: "in_step hmac ks kr kb a b" and fin: "co_send_epoch a1 + co_futures b < 65535"
    proof -
      have st': "co_send_epoch a = co_recv_epoch b" "r_id (p_rec (co_packet_id b)) = s_id (p_send (co_packet_id a))"
          "r_time (p_rec (co_packet_id b)) = 0" "no_failures b" "co_epoch_key_type b = kt"
        using st by (simp_all add: in_step_def kt_def)
      have bound: "unat e + co_futures b < 65535" using y(2) fin by simp
      obtain slot b' where b': "epoch_lookup_decrypt_key b e = Some slot" "\<not> cipher_decrypt_verify_fail_exceeded (slot_ctx b slot)"
          "crypto_check_replay hmac junk (l_received_at x) b \<lparr>n_id = y, n_time = 0\<rparr> e = Some (True, b')" "accepted_at e \<lparr>n_id = y, n_time = 0\<rparr> b b'"
        using link_accepted [OF assms(1,4,2,8) op(1) st'(4,3) y(4) bound, of junk] y(2,6) st'(1,2) by auto
      have pt0: "0 < length pt" using lens(2) op(3) by simp
      have room: "l_headroom x + int (length pt) + 16 + int (kt_block_size (co_epoch_key_type b)) \<le> b_capacity (l_recv_work x)"
        using op(9) lens(2) st'(5) by (simp add: kt_def)
      obtain w' where "openvpn_decrypt_aead unseal hmac junk (l_received_at x) True (l_headroom x) q (l_recv_work x) (b_offset p) b
          = Some (True, w', b'\<lparr>co_decrypt := count_blocks (co_decrypt b') w'\<rparr>)" "buf_content w' = pt"
        using link_delivered [OF assms(1,4,2,5,6,8) y(1) y(5) [folded st'(5)] y(4) pt0 op(6-8) room b'(1-3)] unfolding q_def by blast
      then have ok: "ok" "buf_content w = pt" "b1 = b'\<lparr>co_decrypt := count_blocks (co_decrypt b') w\<rparr>" using d(1) by simp_all
      have acc: "co_recv_epoch b' = unat e" "r_id (p_rec (co_packet_id b')) = y" "r_time (p_rec (co_packet_id b')) = 0" "no_failures b'"
        using b'(4) st'(4) unfolding accepted_at_def by simp_all
      have "co_recv_epoch b1 = unat e" "r_id (p_rec (co_packet_id b1)) = y" "r_time (p_rec (co_packet_id b1)) = 0"
        unfolding ok(3) using acc(1-3) by (simp_all add: co_recv_epoch_def count_blocks_def)
      moreover have "no_failures b1" unfolding ok(3) using acc(4) by (simp add: no_failures_def count_blocks_def)
      ultimately show ?thesis using ok p(2,3) b1 y(2,3) by (simp add: out_def in_step_def kt_def)
    qed
    then show ?thesis using run p(2-4) b1 unfolding kt_def pt_def by metis
  qed
qed

lemma link_run_ok:
  assumes "digest32 hmac" and "length ks = 32" and "length kr = 32" and "length kb = 32" and "aead_lengths seal unseal" and "aead_inverse seal unseal"
    and "epoch_inv hmac ks kr a" and "epoch_inv hmac kb ks b" and "co_epoch_key_type a = kt" and "co_epoch_key_type b = kt" and "list_all (link_op_ok kt) xs"
  shows "\<exists>outs a' b'. link_run seal unseal hmac junk a b xs = Some (outs, a', b') \<and> co_send_epoch a \<le> co_send_epoch a' \<and> co_send_epoch a' \<le> co_send_epoch a + length xs
    \<and> (in_step hmac ks kr kb a b \<and> co_send_epoch a' + co_futures b < 65535 \<longrightarrow> outs = map (\<lambda>x. Some (buf_content (l_buf x))) xs)"
  using assms(7-11)
proof (induction xs arbitrary: a b)
  case Nil
  then show ?case by simp
next
  case (Cons x xs)
  have ty: "co_epoch_key_type b = co_epoch_key_type a" "link_op_ok (co_epoch_key_type a) x" using Cons.prems by simp_all
  obtain out a1 b1 where s: "\<forall>xs. link_run seal unseal hmac junk a b (x # xs)
        = do { (rest, a2, b2) \<leftarrow> link_run seal unseal hmac junk a1 b1 xs; Some (out # rest, a2, b2) }"
      "epoch_inv hmac ks kr a1" "epoch_inv hmac kb ks b1" "co_epoch_key_type a1 = kt" "co_epoch_key_type b1 = kt"
      "co_send_epoch a \<le> co_send_epoch a1 \<and> co_send_epoch a1 \<le> Suc (co_send_epoch a)" "co_futures b1 = co_futures b"
      "in_step hmac ks kr kb a b \<and> co_send_epoch a1 + co_futures b < 65535 \<longrightarrow> out = Some (buf_content (l_buf x)) \<and> in_step hmac ks kr kb a1 b1"
    using link_step [OF assms(1-6) Cons.prems(1,2) ty, of junk] Cons.prems(3) by blast
  obtain outs a' b' where r: "link_run seal unseal hmac junk a1 b1 xs = Some (outs, a', b')" "co_send_epoch a1 \<le> co_send_epoch a' \<and> co_send_epoch a' \<le> co_send_epoch a1 + length xs"
      "in_step hmac ks kr kb a1 b1 \<and> co_send_epoch a' + co_futures b1 < 65535 \<longrightarrow> outs = map (\<lambda>x. Some (buf_content (l_buf x))) xs"
    using Cons.IH [OF s(2-5)] Cons.prems(5) by auto
  have "link_run seal unseal hmac junk a b (x # xs) = Some (out # outs, a', b')" using s(1) r(1) by (simp del: link_run.simps)
  then show ?case using s(6-8) r(2,3) by (intro exI [of _ "out # outs"] exI [of _ a'] exI [of _ b']) auto
qed

text \<open>
  C2. What is sent arrives. Two peers set up their epoch keys, the receiving chain of one starting with the sending key of the other. Over
  a link that delivers, and with room in the buffers, every packet that one of them sends is accepted and opened by the other and
  gives the payload that was sent, through all changes of keys, as long as the sending epoch stays below the last ones, which
  the receiver does not follow (\<^verbatim>\<open>epoch_lookup_decrypt_key\<close> leaves room for its future keys). A packet moves the epoch by at most one.
\<close>

theorem data_channel_delivers:
  assumes "digest32 hmac" and "length ks = 32" and "length kr = 32" and "length kb = 32" and "aead_type kt"
    and "fresh_options a" and "fresh_options b" and "0 < unat count_a" and "unat count_a < 65535" and "0 < unat count_b" and "unat count_b < 65535"
    and "r_id (p_rec (co_packet_id b)) = 0" and "r_time (p_rec (co_packet_id b)) = 0"
    and "aead_lengths seal unseal" and "aead_inverse seal unseal" and "list_all (link_op_ok kt) xs"
  shows "\<exists>a0 b0 outs a1 b1. epoch_init_key_ctx hmac junk a kt \<lparr>ek_key = ks, ek_epoch = 1\<rparr> \<lparr>ek_key = kr, ek_epoch = 1\<rparr> count_a = Some a0
    \<and> epoch_init_key_ctx hmac junk b kt \<lparr>ek_key = kb, ek_epoch = 1\<rparr> \<lparr>ek_key = ks, ek_epoch = 1\<rparr> count_b = Some b0
    \<and> link_run seal unseal hmac junk a0 b0 xs = Some (outs, a1, b1)
    \<and> unat (kc_epoch (co_encrypt a1)) \<le> 1 + length xs
    \<and> (unat (kc_epoch (co_encrypt a1)) + unat count_b < 65535 \<longrightarrow> outs = map (\<lambda>x. Some (buf_content (l_buf x))) xs)"
proof -
  have e1: "epoch_key_at hmac k 1 = \<lparr>ek_key = k, ek_epoch = 1\<rparr>" for k by (simp add: epoch_key_at_def chain_key_def)
  obtain a0 where a0: "epoch_init_key_ctx hmac junk a kt \<lparr>ek_key = ks, ek_epoch = 1\<rparr> \<lparr>ek_key = kr, ek_epoch = 1\<rparr> count_a = Some a0"
      "epoch_inv hmac ks kr a0" "co_send_epoch a0 = 1" "s_id (p_send (co_packet_id a0)) = 0" "co_epoch_key_type a0 = kt"
    using epoch_init_key_ctx_ok [OF assms(1,2,3,5,6,8,9), of junk] unfolding e1 by blast
  obtain b0 where b0: "epoch_init_key_ctx hmac junk b kt \<lparr>ek_key = kb, ek_epoch = 1\<rparr> \<lparr>ek_key = ks, ek_epoch = 1\<rparr> count_b = Some b0"
      "epoch_inv hmac kb ks b0" "co_recv_epoch b0 = 1" "co_futures b0 = unat count_b" "p_rec (co_packet_id b0) = p_rec (co_packet_id b)"
      "co_epoch_key_type b0 = kt" "no_failures b0"
    using epoch_init_key_ctx_ok [OF assms(1,4,2,5,7,10,11), of junk] unfolding e1 by blast
  have "in_step hmac ks kr kb a0 b0" using a0 b0 assms(12,13) by (simp add: in_step_def)
  then obtain outs a1 b1 where "link_run seal unseal hmac junk a0 b0 xs = Some (outs, a1, b1)"
      "co_send_epoch a1 \<le> 1 + length xs" "co_send_epoch a1 + co_futures b0 < 65535 \<longrightarrow> outs = map (\<lambda>x. Some (buf_content (l_buf x))) xs"
    using link_run_ok [OF assms(1-4,14,15) a0(2) b0(2) a0(5) b0(6) assms(16), of junk] a0(3) by auto
  then show ?thesis using a0(1) b0(1,4) unfolding co_send_epoch_def by auto
qed

definition sample_link :: "link_op list" where
  "sample_link = [\<lparr>l_sent_at = 5, l_buf = buf_of [1, 2, 3] 0 3, l_work = buf_of (0x48 # replicate 60 0) 0 1, l_received_at = 6,
     l_headroom = 10, l_recv_work = buf_of (replicate 90 0) 0 0\<rparr>]"

theorem data_channel_delivers_witness:
  "\<exists>a0 b0 outs a1 b1. epoch_init_key_ctx sample_hmac (\<lambda>_. 0) sample_options sample_type
      \<lparr>ek_key = replicate 32 1, ek_epoch = 1\<rparr> \<lparr>ek_key = replicate 32 2, ek_epoch = 1\<rparr> 4 = Some a0
    \<and> epoch_init_key_ctx sample_hmac (\<lambda>_. 0) sample_options sample_type
      \<lparr>ek_key = replicate 32 2, ek_epoch = 1\<rparr> \<lparr>ek_key = replicate 32 1, ek_epoch = 1\<rparr> 4 = Some b0
    \<and> link_run sample_seal sample_unseal sample_hmac (\<lambda>_. 0) a0 b0 sample_link = Some (outs, a1, b1) \<and> outs = [Some [1, 2, 3]]"
proof -
  have ok: "list_all (link_op_ok sample_type) sample_link"
    by (simp add: sample_link_def link_op_ok_def sample_type_def BUF_SIZE_MAX_def has_room_def)
  have r: "r_id (p_rec (co_packet_id sample_options)) = 0" "r_time (p_rec (co_packet_id sample_options)) = 0"
    by (simp_all add: sample_options_def cleared_rec_def)
  obtain a0 b0 outs a1 b1 where d: "epoch_init_key_ctx sample_hmac (\<lambda>_. 0) sample_options sample_type
        \<lparr>ek_key = replicate 32 1, ek_epoch = 1\<rparr> \<lparr>ek_key = replicate 32 2, ek_epoch = 1\<rparr> 4 = Some a0"
      "epoch_init_key_ctx sample_hmac (\<lambda>_. 0) sample_options sample_type
        \<lparr>ek_key = replicate 32 2, ek_epoch = 1\<rparr> \<lparr>ek_key = replicate 32 1, ek_epoch = 1\<rparr> 4 = Some b0"
      "link_run sample_seal sample_unseal sample_hmac (\<lambda>_. 0) a0 b0 sample_link = Some (outs, a1, b1)"
      "unat (kc_epoch (co_encrypt a1)) \<le> 1 + length sample_link"
      "unat (kc_epoch (co_encrypt a1)) + unat (4 :: u16) < 65535 \<longrightarrow> outs = map (\<lambda>x. Some (buf_content (l_buf x))) sample_link"
    using data_channel_delivers [OF sample_hmac_digest length_replicate [of 32 1] length_replicate [of 32 2] length_replicate [of 32 2]
        sample_laws(3,4,4) _ _ _ _ r sample_laws(1,2) ok, of 4 4 "\<lambda>_. 0"] by (simp only: unat_numeral) (simp, blast)
  have "unat (kc_epoch (co_encrypt a1)) + unat (4 :: u16) < 65535" using d(4) by (simp add: sample_link_def)
  then have "outs = [Some [1, 2, 3]]" using d(5) by (simp add: sample_link_def)
  then show ?thesis using d(1-3) by blast
qed

end
