(* ===== verification/Spec2Isabelle.thy ===== *)
theory Spec2Isabelle
  imports Packet_Id_Props Reliable_Ack Reliable_Send Base64 Mbuf Hash_Table_Props Schedule_Props Fragment_Props Mss Clinat Channel_Link
begin

text \<open>
  \<^bold>\<open>The program.\<close> DJProxy is an Android application around a VPN client. The tunnel itself is the OpenVPN 2
  code, in C, under \<^verbatim>\<open>src/openvpn3/src/main/cpp/openvpn/src/openvpn\<close>. This development models the parts of that
  code that carry its logic independently of the operating system and of the cryptographic libraries:
  what happens to a packet between the socket and the tunnel device, and the data structures that
  the event loop and the multi-client server keep.

  \<^bold>\<open>How the parts work together.\<close> Every packet travels in a \<^verbatim>\<open>struct buffer\<close>. A packet that comes from the network
  carries a packet id, which the replay window accepts once. Data packets are encrypted under keys that change with the epoch, which
  the packet id names. A control packet then goes to the reliability layer, which
  stores it, acknowledges it and delivers it to TLS in order; the sending side keeps each packet until
  it is acknowledged. A data packet goes to the reassembly of fragments. Packets of the tunnel are rewritten on their way: the
  MSS of TCP connections is lowered and addresses are translated. Packets for a client that
  cannot be sent at once wait in the queue of \<^verbatim>\<open>mbuf.c\<close>. The server finds the client of a packet in
  hash tables and wakes clients from a tree ordered by time; the event loop of a single
  tunnel uses the timers of \<^verbatim>\<open>interval.h\<close>. Keys and credentials are exchanged in base64.

  \<^bold>\<open>Conventions.\<close> A C function that can abort or touch memory out of bounds returns an \<open>option\<close>, with \<open>None\<close> for
  that outcome, so a theorem that it returns \<open>Some\<close> is memory safety. Structures are records, fixed-width unsigned
  integers are words, \<^verbatim>\<open>int\<close> is \<open>int\<close> with the bounds stated where they matter, memory is a list of bytes
  or a heap of addresses, the clock and random numbers are arguments. Loops are recursive functions; fuel
  is used where the code alone does not bound a loop, and the theorems prove that the fuel is enough.
\<close>

text \<open>
  \<^bold>\<open>Theories, sources and results.\<close>

  \<^item> \<open>Prelude\<close>, \<open>Integer_Ops\<close> (\<^verbatim>\<open>integer.h\<close>): byte order, memory blocks; minimum, clamping, arithmetic on a circle, next power of
    two (fuel 65: the doubling of a 64-bit value wraps after 64 rounds), \<^verbatim>\<open>htonll\<close>.
  \<^item> \<open>Buffer\<close> (\<^verbatim>\<open>buffer.h\<close>, \<^verbatim>\<open>buffer.c\<close>): the window of a byte buffer. The invariant \<open>buf_wf\<close> and, for each operation, what it does to
    the content; no operation leaves the block.
  \<^item> \<open>Circ_List\<close> (\<^verbatim>\<open>circ_list.h\<close>): the circular list of the replay window.
  \<^item> \<open>Replay_Filter\<close> (locale), \<open>Packet_Id\<close>, \<open>Packet_Id_Props\<close> (\<^verbatim>\<open>packet_id.h\<close>, \<^verbatim>\<open>packet_id.c\<close>, \<^verbatim>\<open>crypto.c\<close>): packet ids on the wire, the
    sliding window, expiry, the state file. No id is accepted twice, the window refines an abstract
    set of ids, ids sent never repeat, encodings round-trip.
  \<^item> \<open>Ordered_Delivery\<close> (locale), \<open>Reliable\<close>, \<open>Reliable_Recv\<close>, \<open>Reliable_Ack\<close>, \<open>Reliable_Send\<close> (\<^verbatim>\<open>reliable.h\<close>, \<^verbatim>\<open>reliable.c\<close>, \<^verbatim>\<open>session_id.h\<close>,
    parts of \<^verbatim>\<open>ssl.c\<close>): entries, acknowledgments and retransmission of the control channel. Packets are delivered once and in order
    whatever the network does; acknowledgments round-trip and retire the right entries. The delivery theorems are about
    ids below \<open>rec_limit\<close> (\<open>2 ^ 31\<close>), beyond which the comparison of the code is not transitive.
  \<^item> \<open>Base64\<close> (\<^verbatim>\<open>base64.c\<close>): encoder and decoder; round trip, bounds of the output, rejected inputs.
  \<^item> \<open>Fifo\<close> (locale), \<open>Mbuf\<close> (\<^verbatim>\<open>mbuf.h\<close>, \<^verbatim>\<open>mbuf.c\<close>): reference-counted packets in a ring; the ring is a queue.
  \<^item> \<open>Keyed_Map\<close> (locale), \<open>Hash_Table\<close>, \<open>Hash_Table_Props\<close> (\<^verbatim>\<open>list.h\<close>, \<^verbatim>\<open>list.c\<close>): buckets, lookup with move to front, the marking
    iterator, the hash function. The table refines a map for any key comparison that the hash respects; tables have at most \<open>2 ^ 31\<close> buckets.
  \<^item> \<open>Otime\<close> (\<^verbatim>\<open>otime.h\<close>, \<^verbatim>\<open>otime.c\<close>): time values, the clock that does not go back, the frequency limit. The bounded difference is
    exact for bounds up to 2000 seconds, within which it fits an \<^verbatim>\<open>int\<close>.
  \<^item> \<open>Event_Queue\<close> (locale), \<open>Schedule\<close>, \<open>Schedule_Tree\<close>, \<open>Schedule_Order\<close>, \<open>Schedule_Props\<close> (\<^verbatim>\<open>schedule.h\<close>, \<^verbatim>\<open>schedule.c\<close>): the treap of wakeups on a
    heap of linked entries. Every reachable state is a well-linked tree, ordered by time and heap-ordered by priority; entries are
    served in the order of their times. An insertion draws random priorities until the key is unique; it returns for
    every stream of random values in which such a value occurs (\<open>lucky\<close>).
  \<^item> \<open>Interval\<close> (\<^verbatim>\<open>interval.h\<close>, \<^verbatim>\<open>interval.c\<close>): announced wakeups are exact, a recurring timeout fires once per period.
  \<^item> \<open>Fragment\<close>, \<open>Fragment_Props\<close> (\<^verbatim>\<open>fragment.h\<close>, \<^verbatim>\<open>fragment.c\<close>, \<^verbatim>\<open>mtu.h\<close>): fragments and reassembly. No input faults; a datagram is
    reassembled whatever the order of its fragments. Sending a datagram takes at most 32 further calls, the fuel of \<open>send_datagram\<close>.
  \<^item> \<open>Ip_Packet\<close> (\<^verbatim>\<open>proto.h\<close>, \<^verbatim>\<open>proto.c\<close>): fields of the IP, TCP and UDP headers in a buffer and the Internet checksum. The
    computed checksum is right, its loop over the carries ends within three rounds (fuel 4), and the incremental adjustment keeps the sum.
  \<^item> \<open>Mss\<close> (\<^verbatim>\<open>mss.c\<close>): the MSS clamp stays inside the packet and lowers exactly the MSS options. Its checksum goes wrong
    at odd offsets. The sizes computed by \<^verbatim>\<open>frame_calculate_mssfix\<close> depend on the cipher of the TLS library.
  \<^item> \<open>Clinat\<close> (\<^verbatim>\<open>clinat.h\<close>, \<^verbatim>\<open>clinat.c\<close>): the table of NAT rules keeps its bound, a packet gets the addresses of the first fitting rules and keeps
    its checksums valid, and replies are translated back.
  \<^item> \<open>Hkdf\<close>, \<open>Epoch_Keys\<close> (\<^verbatim>\<open>crypto_epoch.c\<close>, \<^verbatim>\<open>crypto.h\<close>, \<^verbatim>\<open>crypto.c\<close>): label expansion, key contexts, the chains of epoch keys and the
    changes of keys. The expansion is that of RFC 5869 up to 8160 bytes; its loop ends within 256 rounds (the block number is a byte), the
    loop that brings the sending key up to a new epoch within \<open>2 ^ 16\<close> (epochs have 16 bits).
  \<^item> \<open>Epoch_Inv\<close>, \<open>Epoch_Ops\<close>: the invariant of the key contexts (each key stands at its place in the chain, the sender is not behind the receiver) and
    that every operation on the keys returns and keeps it.
  \<^item> \<open>Data_Channel\<close>, \<open>Channel_Steps\<close>, \<open>Channel_Props\<close>, \<open>Channel_Link\<close> (\<^verbatim>\<open>crypto.c\<close>): packets with AEAD ciphers. \<open>Channel_Steps\<close> describes one call,
    \<open>Channel_Props\<close> whole runs with arbitrary input: no fault, no nonce twice, no packet accepted twice, nothing delivered that
    does not open with the key of its epoch. \<open>Channel_Link\<close> joins two peers: what is sent arrives. The cipher and the HMAC of the TLS library are
    arguments; the theorems assume the length of their results (\<open>digest32\<close>, \<open>aead_lengths\<close>), the last one also that
    decryption undoes encryption (\<open>aead_inverse\<close>).
\<close>

text \<open>
  \<^bold>\<open>Not modelled.\<close> The Android application and the JNI glue (Kotlin and C++ interface code); the OpenVPN 3 client
  library in C++; OpenSSL, mbed TLS, LZO, LZ4, asio and fmt, which are vendored third-party libraries; option
  parsing, initialisation and the event loop (they configure and call the parts above); the TLS state
  machine, the derivation of the first keys and the CBC, OFB and CFB modes of the data channel, which are calls into the TLS library; sockets, devices, routes, DNS and other
  platform code, which are system calls. Of the modelled files, what is left out prints messages or formats strings for them.
\<close>

end
